(* ===== verification/Mem_Prelude.thy ===== *)
theory Mem_Prelude
  imports Main "HOL-Library.AList"
begin

text \<open>
  What every component of the memory subsystem shares: the error values of the C++ code
  (\<open>HABANA_ASSERT\<close>, the \<open>_FATAL\<close> macros, \<open>std::vector::at\<close>, dereferencing a pointer that
  does not point to a live object), the sequencing of steps that may throw, 64-bit unsigned
  arithmetic written out on \<^typ>\<open>nat\<close>, and generic facts on lists and association lists.
\<close>

section \<open>Errors as values\<close>

text \<open>
  \<open>HABANA_ASSERT\<close> and the \<open>PT_*_FATAL\<close> macros both end in \<open>Logger::habana_assert\<close>, which
  throws; a thrown exception is \<^term>\<open>Inl\<close> of the reason. \<open>Bad_pointer\<close> is a dereference of
  a null or dangling pointer and \<open>Undefined\<close> any other undefined behaviour: the code never
  checks for these, so a theorem that an operation returns \<^term>\<open>Inr\<close> also shows that it
  does not perform one. \<open>Would_block\<close> is a wait on a condition variable that only another
  thread can end, and \<open>No_return\<close> a loop that used up its fuel.
\<close>

datatype mem_error = Assert_failed | Fatal | Out_of_range | Bad_pointer | Undefined | Would_block
  | No_return

type_synonym 'a res = "mem_error + 'a"

definition bindR :: "'a res \<Rightarrow> ('a \<Rightarrow> 'b res) \<Rightarrow> 'b res" where
  "bindR m f = (case m of Inl e \<Rightarrow> Inl e | Inr x \<Rightarrow> f x)"

definition assertR :: "bool \<Rightarrow> 'a res \<Rightarrow> 'a res" where
  "assertR b m = (if b then m else Inl Assert_failed)"

lemma bindR_Inl [simp]: "bindR (Inl e) f = Inl e"
  by (simp add: bindR_def)

lemma bindR_Inr [simp]: "bindR (Inr x) f = f x"
  by (simp add: bindR_def)

lemma bindR_eq_Inr: "bindR m f = Inr y \<longleftrightarrow> (\<exists>x. m = Inr x \<and> f x = Inr y)"
  by (cases m) auto

lemma bindR_cong [fundef_cong]:
  "m = m' \<Longrightarrow> (\<And>x. m' = Inr x \<Longrightarrow> f x = f' x) \<Longrightarrow> bindR m f = bindR m' f'"
  by (cases m') auto

lemma assertR_True [simp]: "assertR True m = m"
  by (simp add: assertR_def)

lemma assertR_False [simp]: "assertR False m = Inl Assert_failed"
  by (simp add: assertR_def)

lemma assertR_eq_Inr: "assertR b m = Inr y \<longleftrightarrow> b \<and> m = Inr y"
  by (simp add: assertR_def)

lemmas res_elims = bindR_eq_Inr assertR_eq_Inr

section \<open>64-bit unsigned arithmetic\<close>

text \<open>
  Sizes and device addresses are \<open>uint64_t\<close> or \<open>size_t\<close> in the code. The model holds them
  as \<^typ>\<open>nat\<close> and writes the wrap-around out in each sum, difference and product.
\<close>

definition u64_lim :: nat where
  "u64_lim = 2 ^ 64"

definition add64 :: "nat \<Rightarrow> nat \<Rightarrow> nat" where
  "add64 a b = (a + b) mod u64_lim"

definition sub64 :: "nat \<Rightarrow> nat \<Rightarrow> nat" where
  "sub64 a b = (a + (u64_lim - b mod u64_lim)) mod u64_lim"

definition mul64 :: "nat \<Rightarrow> nat \<Rightarrow> nat" where
  "mul64 a b = (a * b) mod u64_lim"

lemma u64_lim_pos [simp]: "0 < u64_lim"
  by (simp add: u64_lim_def)

lemma add64_less [simp]: "add64 a b < u64_lim"
  by (simp add: add64_def)

lemma sub64_less [simp]: "sub64 a b < u64_lim"
  by (simp add: sub64_def)

lemma add64_exact: "a + b < u64_lim \<Longrightarrow> add64 a b = a + b"
  by (simp add: add64_def)

lemma sub64_exact: "b \<le> a \<Longrightarrow> a < u64_lim \<Longrightarrow> sub64 a b = a - b"
proof -
  assume "b \<le> a" "a < u64_lim"
  then have "a + (u64_lim - b mod u64_lim) = (a - b) + u64_lim" by simp
  then show ?thesis using \<open>a < u64_lim\<close> by (simp add: sub64_def)
qed

lemma mul64_exact: "a * b < u64_lim \<Longrightarrow> mul64 a b = a * b"
  by (simp add: mul64_def)

lemma sub64_add64:
  assumes "a < u64_lim" "b < u64_lim"
  shows "sub64 (add64 a b) b = a"
proof (cases "a + b < u64_lim")
  case True
  then show ?thesis using assms by (simp add: add64_exact sub64_exact)
next
  case False
  then have ab: "add64 a b = a + b - u64_lim"
    using assms by (simp add: add64_def mod_if)
  have "a + b - u64_lim + (u64_lim - b) = a" using False assms by simp
  then show ?thesis using assms by (simp add: sub64_def ab)
qed

lemma add64_sub64:
  assumes "a < u64_lim" "b < u64_lim"
  shows "add64 (sub64 a b) b = a"
proof (cases "b \<le> a")
  case True
  then show ?thesis using assms by (simp add: add64_exact sub64_exact)
next
  case False
  then have "sub64 a b = a + (u64_lim - b)"
    using assms by (simp add: sub64_def)
  then show ?thesis using False assms by (simp add: add64_def)
qed

section \<open>Generic lemmas on lists\<close>

lemma distinct_split_unique:
  assumes "distinct (xs @ c # ys)" "xs @ c # ys = xs' @ c # ys'"
  shows "xs = xs' \<and> ys = ys'"
  using assms
proof (induction xs arbitrary: xs')
  case Nil
  then show ?case by (cases xs') auto
next
  case (Cons x xs)
  show ?case
  proof (cases xs')
    case Nil
    with Cons.prems show ?thesis by auto
  next
    case (Cons x' zs)
    from Cons.prems(1) have d: "distinct (xs @ c # ys)" by simp
    from Cons.prems(2) Cons have e: "xs @ c # ys = zs @ c # ys'" and "x = x'" by simp_all
    then show ?thesis using Cons.IH [OF d e] Cons by simp
  qed
qed

lemma in_set_split: "c \<in> set xs \<Longrightarrow> \<exists>ys zs. xs = ys @ c # zs"
  by (simp add: in_set_conv_decomp)

lemma last_append_Cons [simp]: "last (xs @ c # ys) = (if ys = [] then c else last ys)"
  by simp

lemma sum_list_map_split:
  "sum_list (map f (xs @ c # ys)) = (sum_list (map f xs) + f c + sum_list (map f ys) :: 'b :: monoid_add)"
  by (simp add: add.assoc)

lemma sum_list_map_cong_on:
  "(\<And>x. x \<in> set xs \<Longrightarrow> f x = g x) \<Longrightarrow> sum_list (map f xs) = sum_list (map g xs)"
  by (metis map_eq_conv)

fun adjacent_free :: "('a \<Rightarrow> bool) \<Rightarrow> 'a list \<Rightarrow> bool" where
  "adjacent_free P (x # y # xs) = ((P x \<and> P y) \<or> adjacent_free P (y # xs))"
| "adjacent_free P _ = False"

lemma adjacent_free_append:
  "adjacent_free P (xs @ ys) \<longleftrightarrow> adjacent_free P xs \<or> adjacent_free P ys \<or>
     (xs \<noteq> [] \<and> ys \<noteq> [] \<and> P (last xs) \<and> P (hd ys))"
proof (induction P xs rule: adjacent_free.induct)
  case (1 P x y xs)
  then show ?case by auto
qed (simp, cases ys, auto)

lemma adjacent_free_Cons:
  "adjacent_free P (x # xs) \<longleftrightarrow> adjacent_free P xs \<or> (xs \<noteq> [] \<and> P x \<and> P (hd xs))"
  by (cases xs) auto

lemma adjacent_free_cong:
  "(\<And>x. x \<in> set xs \<Longrightarrow> P x = Q x) \<Longrightarrow> adjacent_free P xs = adjacent_free Q xs"
  by (induction P xs rule: adjacent_free.induct) auto

lemma adjacent_free_map: "adjacent_free P (map f xs) = adjacent_free (P \<circ> f) xs"
  by (induction "P \<circ> f" xs rule: adjacent_free.induct) auto

end
