(* ===== verification/Mem_Stats.thy ===== *)
theory Mem_Stats
  imports Mem_Prelude
begin

text \<open>
  \<open>struct MemoryStats\<close> of \<open>backend/synapse_helpers/device_mem_stats.h\<close>: the counters the pool
  keeps, its constructor and \<open>UpdateStats\<close>. \<open>DebugString\<close> only formats them and is left out;
  \<open>fragmentation_mask\<close> is text for the log and is left out with it.
\<close>

record mem_stats =
  ms_pool_id :: nat
  num_allocs :: nat
  total_allocs :: nat
  ms_bytes_in_use :: nat
  peak_bytes_in_use :: nat
  largest_alloc_size :: nat
  num_frees :: nat
  total_frees :: nat
  memory_limit :: nat
  scratch_mem_in_use :: nat
  fragmentation_percent :: nat
  total_chunks :: nat
  total_size :: nat
  occupied_chunks :: nat
  occupied_size :: nat
  ms_free_chunks :: nat
  ms_free_chunks_size :: nat
  max_cntgs_free_chunks_size :: nat
  total_extra_spaced_chunks :: nat
  total_extra_size :: nat
  pre_allocate_size :: nat
  min_chunk_size :: nat
  max_chunk_size :: nat

definition MemoryStats_init :: mem_stats where
  "MemoryStats_init = \<lparr> ms_pool_id = 0, num_allocs = 0, total_allocs = 0, ms_bytes_in_use = 0,
     peak_bytes_in_use = 0, largest_alloc_size = 0, num_frees = 0, total_frees = 0,
     memory_limit = 0, scratch_mem_in_use = 0, fragmentation_percent = 0, total_chunks = 0,
     total_size = 0, occupied_chunks = 0, occupied_size = 0, ms_free_chunks = 0,
     ms_free_chunks_size = 0, max_cntgs_free_chunks_size = 0, total_extra_spaced_chunks = 0,
     total_extra_size = 0, pre_allocate_size = 0, min_chunk_size = 0, max_chunk_size = 0 \<rparr>"

definition UpdateStats :: "nat \<Rightarrow> bool \<Rightarrow> bool \<Rightarrow> mem_stats \<Rightarrow> mem_stats" where
  "UpdateStats sz is_alloc is_workspace st =
     (if is_alloc then
        (let st = st\<lparr> num_allocs := add64 (num_allocs st) 1,
                     total_allocs := add64 (total_allocs st) 1,
                     ms_bytes_in_use := add64 (ms_bytes_in_use st) sz \<rparr>;
             st = st\<lparr> peak_bytes_in_use := max (peak_bytes_in_use st) (ms_bytes_in_use st),
                     largest_alloc_size := max (largest_alloc_size st) sz \<rparr>
         in if is_workspace then st\<lparr> scratch_mem_in_use := sz \<rparr> else st)
      else
        st\<lparr> num_frees := add64 (num_frees st) 1,
            total_frees := add64 (total_frees st) 1,
            ms_bytes_in_use := sub64 (ms_bytes_in_use st) sz \<rparr>)"

text \<open>
  An allocation followed by a free of the same size gives back \<open>bytes_in_use\<close> whatever the
  wrap-around, and never lowers the peak.
\<close>

lemma UpdateStats_bytes [simp]:
  "ms_bytes_in_use (UpdateStats n True w st) = add64 (ms_bytes_in_use st) n"
  "ms_bytes_in_use (UpdateStats n False w st) = sub64 (ms_bytes_in_use st) n"
  by (simp_all add: UpdateStats_def Let_def)

lemma UpdateStats_peak:
  "peak_bytes_in_use st \<le> peak_bytes_in_use (UpdateStats n a w st)"
  "ms_bytes_in_use (UpdateStats n True w st) \<le> peak_bytes_in_use (UpdateStats n True w st)"
  by (simp_all add: UpdateStats_def Let_def)

lemma UpdateStats_alloc_free:
  "ms_bytes_in_use st < u64_lim \<Longrightarrow> n < u64_lim \<Longrightarrow>
   ms_bytes_in_use (UpdateStats n False w' (UpdateStats n True w st)) = ms_bytes_in_use st"
  by (simp add: sub64_add64)

end
