(* ===== verification/Small_Allocs.thy ===== *)
theory Small_Allocs
  imports Mem_Prelude
begin

text \<open>
  \<open>CoalescedStringentPooling::SmallAllocs\<close> (\<open>CoalescedStringentPoolAllocator.cpp\<close>): a region of
  \<open>kUnits_\<close> units of \<open>kAlignment_\<close> bytes with a bit map of the units in use and, at the first
  unit of each allocation, its size. Device pointers are numbers; \<open>chunk_ptr_ = 0\<close> is the
  null pointer (\<open>unique_ptr\<close> reset).
\<close>

record small_allocs =
  sa_chunk_ptr :: nat
  sa_map :: "bool list"
  sa_size :: "nat list"
  kAlignment :: nat
  kSize :: nat
  kThreshold :: nat
  kUnits :: nat

section \<open>Operations\<close>

definition sa_ValidateEmpty :: "small_allocs \<Rightarrow> unit res" where
  "sa_ValidateEmpty sa =
     (let free_cnt = count_list (sa_map sa) False in
      if free_cnt \<noteq> length (sa_map sa) then Inr ()
      else assertR (free_cnt = count_list (sa_size sa) 0) (Inr ()))"

definition sa_new :: "nat \<Rightarrow> nat \<Rightarrow> nat \<Rightarrow> nat \<Rightarrow> small_allocs res" where
  "sa_new chunk_ptr alignment bin_zero_size ksize =
     (if alignment = 0 then Inl Undefined else
      assertR (ksize mod alignment = 0)
       (let units = ksize div alignment;
            sa = \<lparr> sa_chunk_ptr = chunk_ptr, sa_map = replicate units False,
                   sa_size = replicate units 0, kAlignment = alignment, kSize = ksize,
                   kThreshold = mul64 2 alignment, kUnits = units \<rparr>
        in assertR (kThreshold sa \<le> bin_zero_size)
             (bindR (sa_ValidateEmpty sa) (\<lambda>_. Inr sa))))"

definition sa_UnitsOccupied :: "small_allocs \<Rightarrow> nat" where
  "sa_UnitsOccupied sa = count_list (sa_map sa) True"

text \<open>
  \<open>Reset\<close> clears the map and drops \<open>chunk_ptr_\<close>; the pointer it drops is returned, because
  \<open>unique_ptr::reset\<close> then runs the deleter, the pool's \<open>delete_chunk\<close>, on it.
\<close>

definition sa_Reset :: "small_allocs \<Rightarrow> (nat option \<times> small_allocs) res" where
  "sa_Reset sa =
     (if sa_chunk_ptr sa \<noteq> 0 then
        bindR (sa_ValidateEmpty sa) (\<lambda>_.
          Inr (Some (sa_chunk_ptr sa),
               sa\<lparr> sa_map := replicate (kUnits sa) False,
                   sa_size := replicate (length (sa_size sa)) 0,
                   sa_chunk_ptr := 0 \<rparr>))
      else Inr (None, sa))"

definition sa_Offset :: "small_allocs \<Rightarrow> nat \<Rightarrow> nat" where
  "sa_Offset sa ptr = sub64 ptr (sa_chunk_ptr sa)"

definition sa_ToUnits :: "small_allocs \<Rightarrow> nat \<Rightarrow> nat res" where
  "sa_ToUnits sa offset_in_bytes =
     assertR (offset_in_bytes mod kAlignment sa = 0) (Inr (offset_in_bytes div kAlignment sa))"

definition sa_ToBytes :: "small_allocs \<Rightarrow> nat \<Rightarrow> nat" where
  "sa_ToBytes sa offset_in_units = mul64 offset_in_units (kAlignment sa)"

definition sa_IsAllocated :: "small_allocs \<Rightarrow> nat \<Rightarrow> bool res" where
  "sa_IsAllocated sa ptr =
     (if sa_chunk_ptr sa = 0 then Inr False
      else if ptr < sa_chunk_ptr sa then Inr False
      else if ptr \<ge> sa_chunk_ptr sa + kSize sa then Inr False
      else bindR (sa_ToUnits sa (sa_Offset sa ptr)) (\<lambda>u.
             if u < length (sa_map sa) then Inr (sa_map sa ! u) else Inl Out_of_range))"

definition sa_Size :: "small_allocs \<Rightarrow> nat \<Rightarrow> nat res" where
  "sa_Size sa ptr =
     bindR (sa_ToUnits sa (sa_Offset sa ptr)) (\<lambda>u.
       if u < length (sa_map sa) then
         assertR (sa_map sa ! u)
           (if u < length (sa_size sa) then Inr (sa_size sa ! u) else Inl Out_of_range)
       else Inl Out_of_range)"

text \<open>\<open>std::search_n\<close>: the first offset at which \<open>n\<close> consecutive elements are \<open>v\<close>.\<close>

fun search_n_from :: "nat \<Rightarrow> bool \<Rightarrow> nat \<Rightarrow> bool list \<Rightarrow> nat option" where
  "search_n_from n v i [] = (if n = 0 then Some i else None)"
| "search_n_from n v i (x # xs) =
     (if take n (x # xs) = replicate n v then Some i else search_n_from n v (Suc i) xs)"

text \<open>\<open>std::fill_n\<close> on the bit map: \<open>n\<close> elements from offset \<open>i\<close> are set to \<open>v\<close>.\<close>

definition fill_n :: "nat \<Rightarrow> nat \<Rightarrow> bool \<Rightarrow> bool list \<Rightarrow> bool list" where
  "fill_n i n v xs = take i xs @ replicate n v @ drop (i + n) xs"

text \<open>The pair is the pointer returned (0 for \<open>nullptr\<close>) and the new state.\<close>

definition sa_Allocate :: "small_allocs \<Rightarrow> nat \<Rightarrow> (nat \<times> small_allocs) res" where
  "sa_Allocate sa bytes =
     (if bytes \<ge> kThreshold sa then Inr (0, sa)
      else assertR (sa_chunk_ptr sa \<noteq> 0) (assertR (bytes < kSize sa)
        (bindR (sa_ToUnits sa bytes) (\<lambda>size_in_units.
           assertR (size_in_units > 0)
             (case search_n_from size_in_units False 0 (sa_map sa) of
                None \<Rightarrow> Inr (0, sa)
              | Some offset \<Rightarrow>
                  Inr (sa_chunk_ptr sa + sa_ToBytes sa offset,
                       sa\<lparr> sa_map := fill_n offset size_in_units True (sa_map sa),
                           sa_size := (sa_size sa)[offset := bytes] \<rparr>))))))"

definition sa_Deallocate :: "small_allocs \<Rightarrow> nat \<Rightarrow> small_allocs res" where
  "sa_Deallocate sa ptr =
     assertR (sa_chunk_ptr sa \<noteq> 0)
      (bindR (sa_ToUnits sa (sa_Offset sa ptr)) (\<lambda>offset.
         if offset < length (sa_size sa) then
           (let num_bytes = sa_size sa ! offset in
            assertR (num_bytes > 0)
              (bindR (sa_ToUnits sa num_bytes) (\<lambda>size_in_units.
                 assertR (size_in_units > 0)
                   (if offset + size_in_units > length (sa_map sa) then Inl Undefined
                    else assertR (False \<notin> set (take size_in_units (drop offset (sa_map sa))))
                      (Inr (sa\<lparr> sa_map := fill_n offset size_in_units False (sa_map sa),
                               sa_size := (sa_size sa)[offset := 0] \<rparr>))))))
         else Inl Out_of_range))"

section \<open>Invariant\<close>

text \<open>
  \<open>kThreshold_\<close> is twice the alignment, so an allocation that gets past the first test of
  \<open>Allocate\<close> is one unit. In every reachable state a unit in use is therefore one allocation of
  its own, of \<open>kAlignment_\<close> bytes.
\<close>

definition sa_inv :: "small_allocs \<Rightarrow> bool" where
  "sa_inv sa \<longleftrightarrow> 0 < kAlignment sa \<and> kThreshold sa = 2 * kAlignment sa \<and> 1 < kUnits sa \<and>
     kSize sa = kUnits sa * kAlignment sa \<and> sa_chunk_ptr sa + kSize sa < u64_lim \<and>
     length (sa_map sa) = kUnits sa \<and>
     sa_size sa = map (\<lambda>b. if b then kAlignment sa else 0) (sa_map sa)"

definition unit_ptr :: "small_allocs \<Rightarrow> nat \<Rightarrow> nat" where
  "unit_ptr sa i = sa_chunk_ptr sa + i * kAlignment sa"

lemma count_list_replicate_False: "count_list (replicate n x) x = n"
  by (induction n) auto

lemma sa_new_inv:
  assumes "0 < al" "al dvd ks" "2 * al \<le> b0" "2 * al < u64_lim" "al < ks" "p + ks < u64_lim"
  shows "\<exists>sa. sa_new p al b0 ks = Inr sa \<and> sa_inv sa \<and> sa_chunk_ptr sa = p \<and>
           sa_map sa = replicate (ks div al) False \<and> kAlignment sa = al \<and> kSize sa = ks"
proof -
  have "ks div al \<noteq> 0" "ks div al \<noteq> 1"
    using assms by (auto simp: div_eq_0_iff dvd_div_eq_mult)
  then have "1 < ks div al" by arith
  then show ?thesis using assms
    by (simp add: sa_new_def Let_def sa_ValidateEmpty_def sa_inv_def mul64_exact
        count_list_replicate_False assertR_def)
qed

lemma unit_in_region:
  assumes "sa_inv sa" "i < kUnits sa"
  shows "unit_ptr sa i + kAlignment sa \<le> sa_chunk_ptr sa + kSize sa"
proof -
  have "Suc i * kAlignment sa \<le> kUnits sa * kAlignment sa"
    using assms(2) by (intro mult_le_mono1) simp
  then show ?thesis using assms(1) by (simp add: sa_inv_def unit_ptr_def)
qed

lemma unit_ptr_offset:
  assumes "sa_inv sa" "i < kUnits sa"
  shows "sa_Offset sa (unit_ptr sa i) = i * kAlignment sa"
proof -
  have "unit_ptr sa i < u64_lim"
    using unit_in_region [OF assms] assms(1) by (simp add: sa_inv_def)
  then show ?thesis by (simp add: sa_Offset_def unit_ptr_def sub64_exact)
qed

lemma unit_ptr_units:
  assumes "sa_inv sa" "i < kUnits sa"
  shows "sa_ToUnits sa (sa_Offset sa (unit_ptr sa i)) = Inr i"
  using assms by (simp add: unit_ptr_offset sa_ToUnits_def sa_inv_def)

lemma sa_IsAllocated_unit:
  assumes "sa_inv sa" "sa_chunk_ptr sa \<noteq> 0" "i < kUnits sa"
  shows "sa_IsAllocated sa (unit_ptr sa i) = Inr (sa_map sa ! i)"
proof -
  have "\<not> unit_ptr sa i < sa_chunk_ptr sa" by (simp add: unit_ptr_def)
  moreover have "\<not> unit_ptr sa i \<ge> sa_chunk_ptr sa + kSize sa"
    using unit_in_region [OF assms(1,3)] assms(1) by (simp add: sa_inv_def)
  ultimately show ?thesis using assms
    by (simp add: sa_IsAllocated_def unit_ptr_units) (simp add: sa_inv_def)
qed

lemma unit_ptr_inj:
  "sa_inv sa \<Longrightarrow> unit_ptr sa i = unit_ptr sa j \<longleftrightarrow> i = j"
  by (simp add: unit_ptr_def sa_inv_def)

text \<open>\<open>search_n\<close> returns an offset where the run is, and the first one.\<close>

lemma search_n_from_Some:
  assumes "search_n_from n v i xs = Some k" "0 < n"
  shows "i \<le> k \<and> k + n \<le> i + length xs \<and> take n (drop (k - i) xs) = replicate n v \<and>
         (\<forall>j. i \<le> j \<and> j < k \<longrightarrow> take n (drop (j - i) xs) \<noteq> replicate n v)"
  using assms
proof (induction n v i xs rule: search_n_from.induct)
  case (1 n v i)
  then show ?case by simp
next
  case (2 n v i x xs)
  show ?case
  proof (cases "take n (x # xs) = replicate n v")
    case True
    then have "min (length (x # xs)) n = n" by (metis length_replicate length_take)
    with True 2 show ?thesis by auto
  next
    case False
    with 2 have ih: "Suc i \<le> k \<and> k + n \<le> Suc i + length xs \<and>
        take n (drop (k - Suc i) xs) = replicate n v \<and>
        (\<forall>j. Suc i \<le> j \<and> j < k \<longrightarrow> take n (drop (j - Suc i) xs) \<noteq> replicate n v)" by simp
    have "take n (drop (j - i) (x # xs)) \<noteq> replicate n v" if "i \<le> j" "j < k" for j
    proof (cases "j = i")
      case True
      then show ?thesis using False by simp
    next
      case False
      then have "j - i = Suc (j - Suc i)" using that by simp
      then show ?thesis using that ih False by simp
    qed
    moreover have "k - i = Suc (k - Suc i)" using ih by (simp add: Suc_diff_Suc Suc_le_lessD)
    ultimately show ?thesis using ih by simp
  qed
qed

lemma search_n_from_None:
  "search_n_from n v i xs = None \<Longrightarrow> j + n \<le> length xs \<Longrightarrow>
   take n (drop j xs) \<noteq> replicate n v"
proof (induction n v i xs arbitrary: j rule: search_n_from.induct)
  case (1 n v i)
  then show ?case by (simp split: if_splits)
next
  case (2 n v i x xs)
  then show ?case
  proof (cases j)
    case 0
    with 2 show ?thesis by (simp split: if_splits)
  next
    case (Suc j')
    with 2 show ?thesis by (auto split: if_splits)
  qed
qed

lemma take1_drop: "take (Suc 0) (drop i xs) = replicate (Suc 0) v \<longleftrightarrow> i < length xs \<and> xs ! i = v"
proof (cases "i < length xs")
  case True
  then have "drop i xs = xs ! i # drop (Suc i) xs" by (simp add: Cons_nth_drop_Suc)
  with True show ?thesis by simp
qed simp

lemma first_free_unit:
  "search_n_from (Suc 0) False 0 m = Some k \<longleftrightarrow> k < length m \<and> \<not> m ! k \<and> (\<forall>j<k. m ! j)"
proof
  assume "search_n_from (Suc 0) False 0 m = Some k"
  from search_n_from_Some [OF this]
  show "k < length m \<and> \<not> m ! k \<and> (\<forall>j<k. m ! j)" by (auto simp: take1_drop simp del: replicate_Suc)
next
  assume a: "k < length m \<and> \<not> m ! k \<and> (\<forall>j<k. m ! j)"
  then obtain k' where k': "search_n_from (Suc 0) False 0 m = Some k'"
    using search_n_from_None [of "Suc 0" False 0 m k]
    by (cases "search_n_from (Suc 0) False 0 m") (auto simp: take1_drop simp del: replicate_Suc)
  from search_n_from_Some [OF this] have "k' < length m \<and> \<not> m ! k' \<and> (\<forall>j<k'. m ! j)"
    by (auto simp: take1_drop simp del: replicate_Suc)
  with a have "k' = k" by (metis linorder_neqE_nat)
  with k' show "search_n_from (Suc 0) False 0 m = Some k" by simp
qed

lemma fill_1: "i < length xs \<Longrightarrow> fill_n i (Suc 0) v xs = xs[i := v]"
  by (simp add: fill_n_def upd_conv_take_nth_drop)

section \<open>Behaviour of the operations\<close>

lemma sa_unit_size:
  "sa_inv sa \<Longrightarrow> i < kUnits sa \<Longrightarrow>
   sa_size sa ! i = (if sa_map sa ! i then kAlignment sa else 0)"
  by (simp add: sa_inv_def)

lemma sa_inv_set_unit:
  "sa_inv sa \<Longrightarrow> i < kUnits sa \<Longrightarrow>
   sa_inv (sa\<lparr> sa_map := (sa_map sa)[i := b],
               sa_size := (sa_size sa)[i := if b then kAlignment sa else 0] \<rparr>)"
  by (simp add: sa_inv_def map_update cong: if_cong)

lemma sa_Allocate_large:
  "kThreshold sa \<le> n \<Longrightarrow> sa_Allocate sa n = Inr (0, sa)"
  by (simp add: sa_Allocate_def)

lemma sa_Allocate_bad:
  assumes "sa_inv sa" "n < kThreshold sa" "n \<noteq> kAlignment sa"
  shows "sa_Allocate sa n = Inl Assert_failed"
proof -
  have "n mod kAlignment sa \<noteq> 0 \<or> n = 0"
  proof (rule ccontr)
    assume a: "\<not> (n mod kAlignment sa \<noteq> 0 \<or> n = 0)"
    then obtain q where q: "n = kAlignment sa * q" by (auto elim: dvdE dest: mod_0_imp_dvd)
    with assms have "q < 2" by (simp add: sa_inv_def)
    then have "q = 0 \<or> q = 1" by arith
    with q a assms(3) show False by auto
  qed
  then show ?thesis using assms
    by (auto simp: sa_Allocate_def sa_ToUnits_def assertR_def)
qed

lemma sa_Allocate_unit:
  assumes "sa_inv sa" "sa_chunk_ptr sa \<noteq> 0"
  shows "sa_Allocate sa (kAlignment sa) =
     (case search_n_from (Suc 0) False 0 (sa_map sa) of
        None \<Rightarrow> Inr (0, sa)
      | Some i \<Rightarrow> Inr (unit_ptr sa i,
          sa\<lparr> sa_map := (sa_map sa)[i := True],
              sa_size := (sa_size sa)[i := kAlignment sa] \<rparr>))"
proof -
  have one: "kAlignment sa < kSize sa" "sa_ToUnits sa (kAlignment sa) = Inr (Suc 0)"
    "\<not> kThreshold sa \<le> kAlignment sa"
    using assms(1) by (simp_all add: sa_inv_def sa_ToUnits_def)
  show ?thesis
  proof (cases "search_n_from (Suc 0) False 0 (sa_map sa)")
    case None
    then show ?thesis using assms one by (simp add: sa_Allocate_def)
  next
    case (Some i)
    then have i: "i < kUnits sa" "i < length (sa_map sa)"
      using assms(1) by (simp_all add: first_free_unit sa_inv_def)
    then have "sa_chunk_ptr sa + sa_ToBytes sa i = unit_ptr sa i"
      using unit_in_region [OF assms(1), of i] assms(1)
      by (simp add: unit_ptr_def sa_ToBytes_def mul64_exact sa_inv_def)
    then show ?thesis using assms one i Some by (simp add: sa_Allocate_def fill_1)
  qed
qed

text \<open>
  \<open>Allocate\<close> on every branch: it declines what is at or above the threshold, hands out the
  first free unit, returns null when none is free, and never disturbs another unit.
\<close>

lemma sa_Allocate_spec:
  assumes "sa_inv sa" "sa_chunk_ptr sa \<noteq> 0" "sa_Allocate sa n = Inr (p, sa')"
  shows "sa_inv sa' \<and> sa_chunk_ptr sa' = sa_chunk_ptr sa \<and> kUnits sa' = kUnits sa \<and>
     kAlignment sa' = kAlignment sa \<and> kSize sa' = kSize sa \<and>
     (if p = 0 then sa' = sa \<and> (kThreshold sa \<le> n \<or> False \<notin> set (sa_map sa))
      else n = kAlignment sa \<and>
        (\<exists>i<kUnits sa. p = unit_ptr sa i \<and> \<not> sa_map sa ! i \<and> (\<forall>j<i. sa_map sa ! j) \<and>
           sa_map sa' = (sa_map sa)[i := True]))"
proof (cases "kThreshold sa \<le> n")
  case True
  then show ?thesis using assms by (simp add: sa_Allocate_large)
next
  case False
  then have n: "n = kAlignment sa"
    using assms sa_Allocate_bad [OF assms(1), of n] by (cases "n = kAlignment sa") auto
  show ?thesis
  proof (cases "search_n_from (Suc 0) False 0 (sa_map sa)")
    case None
    then have "False \<notin> set (sa_map sa)"
      using search_n_from_None [OF None] by (auto simp: in_set_conv_nth take1_drop simp del: replicate_Suc)
    then show ?thesis using assms None by (simp add: n sa_Allocate_unit)
  next
    case (Some i)
    then have i: "i < kUnits sa" "\<not> sa_map sa ! i" "\<forall>j<i. sa_map sa ! j"
      using assms(1) by (simp_all add: first_free_unit sa_inv_def)
    have "unit_ptr sa i \<noteq> 0" using assms(2) by (simp add: unit_ptr_def)
    then show ?thesis using assms Some i sa_inv_set_unit [OF assms(1) i(1), of True]
      by (auto simp: n sa_Allocate_unit)
  qed
qed

lemma sa_Deallocate_unit:
  assumes "sa_inv sa" "sa_chunk_ptr sa \<noteq> 0" "i < kUnits sa"
  shows "sa_Deallocate sa (unit_ptr sa i) =
     (if sa_map sa ! i
      then Inr (sa\<lparr> sa_map := (sa_map sa)[i := False], sa_size := (sa_size sa)[i := 0] \<rparr>)
      else Inl Assert_failed)"
proof -
  have len: "length (sa_map sa) = kUnits sa" "length (sa_size sa) = kUnits sa" "0 < kAlignment sa"
    using assms(1) by (auto simp: sa_inv_def)
  have one: "sa_ToUnits sa (kAlignment sa) = Inr (Suc 0)"
    using len by (simp add: sa_ToUnits_def)
  show ?thesis
  proof (cases "sa_map sa ! i")
    case True
    then have "take (Suc 0) (drop i (sa_map sa)) = replicate (Suc 0) True"
      using assms(3) len by (simp add: take1_drop del: replicate_Suc)
    with True show ?thesis using assms len
      by (simp add: sa_Deallocate_def unit_ptr_units sa_unit_size one fill_1)
  next
    case False
    then show ?thesis using assms len
      by (simp add: sa_Deallocate_def unit_ptr_units sa_unit_size)
  qed
qed

text \<open>Freeing what was just allocated gives back the very same state.\<close>

lemma sa_Allocate_Deallocate:
  assumes "sa_inv sa" "sa_chunk_ptr sa \<noteq> 0" "sa_Allocate sa n = Inr (p, sa')" "p \<noteq> 0"
  shows "sa_Deallocate sa' p = Inr sa"
proof -
  have spec: "sa_inv sa'" "sa_chunk_ptr sa' = sa_chunk_ptr sa" "kUnits sa' = kUnits sa"
    "kAlignment sa' = kAlignment sa"
    using sa_Allocate_spec [OF assms(1-3)] by auto
  obtain i where i: "i < kUnits sa" "p = unit_ptr sa i" "\<not> sa_map sa ! i" "n = kAlignment sa"
    using sa_Allocate_spec [OF assms(1-3)] assms(4) by auto
  have "search_n_from (Suc 0) False 0 (sa_map sa) = Some i"
    using assms i unit_ptr_inj [OF assms(1)]
    by (auto simp: sa_Allocate_unit split: option.splits)
  with assms i have sa': "sa' = sa\<lparr> sa_map := (sa_map sa)[i := True],
      sa_size := (sa_size sa)[i := kAlignment sa] \<rparr>"
    by (simp add: sa_Allocate_unit)
  have "p = unit_ptr sa' i" using i spec by (simp add: unit_ptr_def)
  moreover have "sa_map sa' ! i" using sa' i assms(1) by (simp add: sa_inv_def)
  moreover have "(sa_size sa)[i := 0] = sa_size sa"
    using i assms(1) list_update_id [of "sa_size sa" i] by (simp add: sa_unit_size)
  moreover have "(sa_map sa)[i := False] = sa_map sa"
    using i list_update_id [of "sa_map sa" i] by simp
  ultimately show ?thesis using sa_Deallocate_unit [OF spec(1), of i] spec i assms sa' by simp
qed

end
