(* ===== verification/Event_Cache.thy ===== *)
theory Event_Cache
  imports Mem_Prelude
begin

text \<open>
  \<open>event_handle_cache\<close> (\<open>backend/synapse_helpers/event_handle_cache.cpp\<close>): the stack of Synapse
  event handles that are not in use, and the number of handles ever created. What the Synapse
  library and the rest of the device answer is the parameter \<open>env\<close>: \<open>de_event_create n\<close> is the
  handle \<open>synEventCreate\<close> gives as the \<open>n\<close>-th one, or \<^term>\<open>None\<close> when it fails.
\<close>

record dev_env =
  de_free_mem :: nat
  de_malloc :: "nat \<Rightarrow> nat option"
  de_hccl_allowance :: nat
  de_mem_acquire_perc :: nat
  de_event_create :: "nat \<Rightarrow> nat option"
  de_event_query :: "nat \<Rightarrow> bool"
  de_event_sync :: "nat \<Rightarrow> bool"
  de_event_record :: "nat \<Rightarrow> nat \<Rightarrow> bool"
  de_stream :: "nat \<Rightarrow> nat"
  de_recipe_count :: nat

record event_cache =
  ec_free_handles :: "nat list"
  ec_events_count :: nat
  ec_event_flag :: nat

definition NUM_EVENTS_MAX :: nat where
  "NUM_EVENTS_MAX = 1000000"

definition NUM_RECIPE_COUNT_TO_WAIT_FOR_FREE_EVENT :: nat where
  "NUM_RECIPE_COUNT_TO_WAIT_FOR_FREE_EVENT = 1"

definition event_handle_cache_new :: "nat \<Rightarrow> event_cache" where
  "event_handle_cache_new event_flag =
     \<lparr> ec_free_handles = [], ec_events_count = 0, ec_event_flag = event_flag \<rparr>"

definition get_free_handle :: "dev_env \<Rightarrow> event_cache \<Rightarrow> (nat \<times> event_cache) res" where
  "get_free_handle env ec =
     (if ec_free_handles ec \<noteq> [] then
        Inr (last (ec_free_handles ec), ec\<lparr> ec_free_handles := butlast (ec_free_handles ec) \<rparr>)
      else if ec_events_count ec \<ge> NUM_EVENTS_MAX then
        (if ec_event_flag ec \<noteq> 0 then Inl Fatal
         else assertR (de_recipe_count env > NUM_RECIPE_COUNT_TO_WAIT_FOR_FREE_EVENT)
                (Inl Would_block))
      else
        (case de_event_create env (ec_events_count ec) of
           None \<Rightarrow> Inl Fatal
         | Some handle \<Rightarrow> Inr (handle, ec\<lparr> ec_events_count := ec_events_count ec + 1 \<rparr>)))"

definition release_handle :: "nat \<Rightarrow> event_cache \<Rightarrow> event_cache res" where
  "release_handle handle ec =
     (if handle = 0 then Inl Fatal
      else Inr (ec\<lparr> ec_free_handles := ec_free_handles ec @ [handle] \<rparr>))"

definition event_handle_cache_destroy :: "event_cache \<Rightarrow> nat list \<times> event_cache" where
  "event_handle_cache_destroy ec = (ec_free_handles ec, ec\<lparr> ec_free_handles := [] \<rparr>)"

section \<open>Properties\<close>

text \<open>
  The handles are in two places: in the cache or handed out. \<open>out\<close> lists the handed-out ones;
  the invariant is that no handle is in both or twice, that there are exactly as many as were
  created, and never more than the limit of the Synapse library.
\<close>

definition ec_inv :: "event_cache \<Rightarrow> nat list \<Rightarrow> bool" where
  "ec_inv ec out \<longleftrightarrow> distinct (ec_free_handles ec @ out) \<and>
     length (ec_free_handles ec) + length out = ec_events_count ec \<and>
     ec_events_count ec \<le> NUM_EVENTS_MAX"

lemma ec_inv_new: "ec_inv (event_handle_cache_new f) []"
  by (simp add: ec_inv_def event_handle_cache_new_def)

lemma get_free_handle_inv:
  assumes "ec_inv ec out" "get_free_handle env ec = Inr (h, ec')"
    and fresh: "\<And>n h. de_event_create env n = Some h \<Longrightarrow> h \<notin> set (ec_free_handles ec @ out)"
  shows "ec_inv ec' (h # out)"
proof (cases "ec_free_handles ec" rule: rev_cases)
  case Nil
  with assms(2) obtain "ec_events_count ec < NUM_EVENTS_MAX"
      "de_event_create env (ec_events_count ec) = Some h"
      "ec' = ec\<lparr> ec_events_count := ec_events_count ec + 1 \<rparr>"
    by (auto simp: get_free_handle_def assertR_def split: if_splits option.splits)
  then show ?thesis using assms(1) fresh Nil by (auto simp: ec_inv_def)
next
  case (snoc hs x)
  with assms(1,2) show ?thesis by (auto simp: get_free_handle_def ec_inv_def)
qed

lemma release_handle_inv:
  assumes "ec_inv ec (h # out)" "release_handle h ec = Inr ec'"
  shows "ec_inv ec' out"
  using assms by (auto simp: release_handle_def ec_inv_def split: if_splits)

text \<open>The cache is a stack: what was released last is handed out next, and nothing else changes.\<close>

lemma release_get_roundtrip:
  "release_handle h ec = Inr ec' \<Longrightarrow> get_free_handle env ec' = Inr (h, ec)"
  by (auto simp: release_handle_def get_free_handle_def split: if_splits)

text \<open>Past the limit a new handle is never created: the call waits, asserts or is fatal.\<close>

lemma get_free_handle_at_limit:
  "ec_free_handles ec = [] \<Longrightarrow> NUM_EVENTS_MAX \<le> ec_events_count ec \<Longrightarrow>
   get_free_handle env ec =
     Inl (if ec_event_flag ec \<noteq> 0 then Fatal
          else if de_recipe_count env > 1 then Would_block else Assert_failed)"
  by (simp add: get_free_handle_def NUM_RECIPE_COUNT_TO_WAIT_FOR_FREE_EVENT_def)

end
