(* ===== verification/Pool_State.thy ===== *)
theory Pool_State
  imports Mem_Stats Small_Allocs Event_Cache
begin

text \<open>
  The state of \<open>CoalescedStringentPooling\<close> and its bins
  (\<open>pool_allocator/Chunk.h\<close>, \<open>CoalescedStringentPoolAllocator.h\<close>): the chunks live on the C++ heap,
  linked by \<open>prev\<close> and \<open>next\<close>, and are reached from the hash map \<open>chunks\<close>, from the pool's
  \<open>start\<close> and \<open>top\<close> pointers and from the bins of free chunks. A \<open>Chunk*\<close> is a number, 0 is
  \<open>nullptr\<close>; \<open>chunk_heap\<close> says which numbers point to a live chunk.
\<close>

type_synonym cptr = nat

record chunk =
  c_size :: nat
  c_extra_space :: nat
  c_used :: bool
  c_prev :: cptr
  c_next :: cptr
  c_memptr :: nat
  c_bin_index :: nat
  c_freed_counter :: nat
  c_stream :: nat
  c_associated_to_stream :: bool
  c_stream_uses :: "nat list"
  c_event_count :: int

record simple_pool =
  pl_next :: nat
  pl_end :: nat
  pl_start :: cptr
  pl_top :: cptr
  pl_memptr :: nat
  pl_basememptr :: nat

text \<open>
  \<open>prealloc_pool\<close> is a raw pointer that \<open>pool_destroy\<close> deletes without resetting it, so it can
  be null, live or dangling.
\<close>

datatype pool_ptr = Null_pool | Dangling_pool | Live_pool simple_pool

record pool =
  chunk_heap :: "cptr \<Rightarrow> chunk option"
  next_host :: nat
  chunks :: "(nat \<times> cptr) list"
  bins :: "cptr list list"
  pool_id :: nat
  max_pool_size :: nat
  chunk_count :: nat
  free_chunks :: nat
  free_chunks_size :: nat
  bytes_in_use :: nat
  prealloc_pool :: pool_ptr
  high_memory_allocated :: bool
  defragmenter_state_started :: bool
  stats :: mem_stats
  alignment :: nat
  kMinAllocationBits :: nat
  kMinAllocationSize :: nat
  header_bytes :: nat
  small_allocs :: "small_allocs option"
  hpu_events :: "(nat \<times> (nat \<times> cptr) list) list"
  dev_events :: event_cache

text \<open>
  \<open>chunks\<close> is an association list with distinct keys for the \<open>unordered_map\<close>, \<open>hpu_events\<close> one
  from streams to their queues, and \<open>c_stream_uses\<close> a list without duplicates for the hash set:
  where the code iterates over them the order is unspecified, and the model uses the order of
  the list. \<open>dev_events\<close> is the device's event handle cache, which the pool reaches through
  \<open>device_\<close>. \<open>next_host\<close> is the address the next \<open>new Chunk\<close> returns.
\<close>

definition kInvalidBinNum :: nat where
  "kInvalidBinNum = u64_lim - 1"

definition kNumBins :: nat where
  "kNumBins = 21"

definition default_pool_size :: nat where
  "default_pool_size = 24 * 1024 * 1024 * 1024"

definition Chunk_new :: chunk where
  "Chunk_new = \<lparr> c_size = 0, c_extra_space = 0, c_used = False, c_prev = 0, c_next = 0,
     c_memptr = 0, c_bin_index = kInvalidBinNum, c_freed_counter = 0, c_stream = 0,
     c_associated_to_stream = False, c_stream_uses = [], c_event_count = 0 \<rparr>"

section \<open>Pointers\<close>

definition deref :: "pool \<Rightarrow> cptr \<Rightarrow> chunk res" where
  "deref s c = (case chunk_heap s c of None \<Rightarrow> Inl Bad_pointer | Some ch \<Rightarrow> Inr ch)"

definition upd_chunk :: "cptr \<Rightarrow> (chunk \<Rightarrow> chunk) \<Rightarrow> pool \<Rightarrow> pool res" where
  "upd_chunk c f s =
     bindR (deref s c) (\<lambda>ch. Inr (s\<lparr> chunk_heap := (chunk_heap s)(c \<mapsto> f ch) \<rparr>))"

definition deref_pool :: "pool \<Rightarrow> simple_pool res" where
  "deref_pool s = (case prealloc_pool s of Live_pool p \<Rightarrow> Inr p | _ \<Rightarrow> Inl Bad_pointer)"

section \<open>Bins\<close>

text \<open>The loop of \<open>Log2FloorNonZero\<close>; on 0 its result wraps to \<open>2 ^ 64 - 1\<close>.\<close>

fun log2_loop :: "nat \<Rightarrow> nat \<Rightarrow> nat" where
  "log2_loop n r = (if n > 0 then log2_loop (n div 2) (r + 1) else r)"

declare log2_loop.simps [simp del]

definition Log2FloorNonZero :: "nat \<Rightarrow> nat" where
  "Log2FloorNonZero n = sub64 (log2_loop n 0) 1"

definition BinNumToSize :: "pool \<Rightarrow> nat \<Rightarrow> nat" where
  "BinNumToSize s index = mul64 (kMinAllocationSize s) (2 ^ index)"

definition bin_index_for :: "nat \<Rightarrow> nat \<Rightarrow> nat \<Rightarrow> nat" where
  "bin_index_for min_size min_bits bytes =
     (let v = max bytes min_size div 2 ^ min_bits in min (kNumBins - 1) (Log2FloorNonZero v))"

definition BinIndexForSize :: "pool \<Rightarrow> nat \<Rightarrow> nat" where
  "BinIndexForSize s bytes = bin_index_for (kMinAllocationSize s) (kMinAllocationBits s) bytes"

text \<open>
  A bin is a \<open>std::set\<close> of chunk pointers ordered by size and then by address: a list in that
  order. The comparison reads the chunks, so the key depends on the heap.
\<close>

definition chunk_key :: "(cptr \<Rightarrow> chunk option) \<Rightarrow> cptr \<Rightarrow> nat \<times> nat" where
  "chunk_key h c = (case h c of None \<Rightarrow> (0, 0) | Some ch \<Rightarrow> (c_size ch, c_memptr ch))"

definition key_less :: "nat \<times> nat \<Rightarrow> nat \<times> nat \<Rightarrow> bool" where
  "key_less a b \<longleftrightarrow> (if fst a \<noteq> fst b then fst a < fst b else snd a < snd b)"

fun bin_insert :: "(cptr \<Rightarrow> chunk option) \<Rightarrow> cptr \<Rightarrow> cptr list \<Rightarrow> cptr list" where
  "bin_insert h c [] = [c]"
| "bin_insert h c (x # xs) =
     (if key_less (chunk_key h c) (chunk_key h x) then c # x # xs
      else if key_less (chunk_key h x) (chunk_key h c) then x # bin_insert h c xs
      else x # xs)"

definition bin_erase :: "(cptr \<Rightarrow> chunk option) \<Rightarrow> cptr \<Rightarrow> cptr list \<Rightarrow> cptr list" where
  "bin_erase h c xs = filter (\<lambda>x. chunk_key h x \<noteq> chunk_key h c) xs"

definition bin_find :: "(cptr \<Rightarrow> chunk option) \<Rightarrow> cptr \<Rightarrow> cptr list \<Rightarrow> cptr option" where
  "bin_find h c xs = find (\<lambda>x. chunk_key h x = chunk_key h c) xs"

definition bin_at :: "pool \<Rightarrow> nat \<Rightarrow> cptr list res" where
  "bin_at s i = (if i < length (bins s) then Inr (bins s ! i) else Inl Undefined)"

definition InsertFreeChunkIntoBin :: "cptr \<Rightarrow> pool \<Rightarrow> pool res" where
  "InsertFreeChunkIntoBin c s =
     bindR (deref s c) (\<lambda>ch.
       if \<not> c_used ch \<and> c_bin_index ch = kInvalidBinNum then
         (let i = BinIndexForSize s (c_size ch) in
          bindR (bin_at s i) (\<lambda>b.
          bindR (upd_chunk c (\<lambda>ch. ch\<lparr> c_bin_index := i \<rparr>) s) (\<lambda>s.
            Inr (s\<lparr> bins := (bins s)[i := bin_insert (chunk_heap s) c b] \<rparr>))))
       else Inr s)"

definition RemoveFreeChunkFromBin :: "cptr \<Rightarrow> pool \<Rightarrow> pool res" where
  "RemoveFreeChunkFromBin c s =
     bindR (deref s c) (\<lambda>ch.
       if \<not> c_used ch \<and> c_bin_index ch \<noteq> kInvalidBinNum then
         bindR (bin_at s (c_bin_index ch)) (\<lambda>b.
           upd_chunk c (\<lambda>ch. ch\<lparr> c_bin_index := kInvalidBinNum \<rparr>)
             (s\<lparr> bins := (bins s)[c_bin_index ch := bin_erase (chunk_heap s) c b] \<rparr>))
       else Inr s)"

text \<open>\<open>i\<close> is the bin whose set the iterator points into and \<open>c\<close> the element it points at.\<close>

definition RemoveFreeChunkIterFromBin :: "nat \<Rightarrow> cptr \<Rightarrow> pool \<Rightarrow> pool res" where
  "RemoveFreeChunkIterFromBin i c s =
     bindR (deref s c) (\<lambda>ch.
       assertR (\<not> c_used ch \<and> c_bin_index ch \<noteq> kInvalidBinNum)
         (bindR (bin_at s i) (\<lambda>b.
           upd_chunk c (\<lambda>ch. ch\<lparr> c_bin_index := kInvalidBinNum \<rparr>)
             (s\<lparr> bins := (bins s)[i := remove1 c b] \<rparr>))))"

end
