(* ===== verification/Pool_Ops.thy ===== *)
theory Pool_Ops
  imports Pool_State
begin

text \<open>
  The operations of \<open>CoalescedStringentPooling\<close> (\<open>CoalescedStringentPoolAllocator.cpp\<close>) in the
  order the code needs them: splitting, merging, the search of the bins, allocation and
  freeing, the workspace at the high end of memory, events of streams, and creation and
  destruction of the pool. Every method runs under \<open>sp_mutex\<close>, so each is one step. Logging,
  the memory monitor and \<open>get_stats\<close>' text are left out.
\<close>

section \<open>Splitting and merging\<close>

text \<open>\<open>new Chunk()\<close> followed by the assignments of the code, at the next free host address.\<close>

definition new_chunk :: "chunk \<Rightarrow> pool \<Rightarrow> cptr \<times> pool" where
  "new_chunk ch s =
     (next_host s, s\<lparr> chunk_heap := (chunk_heap s)(next_host s \<mapsto> ch),
                      next_host := next_host s + 1 \<rparr>)"

definition upd_pool :: "(simple_pool \<Rightarrow> simple_pool) \<Rightarrow> pool \<Rightarrow> pool res" where
  "upd_pool f s = bindR (deref_pool s) (\<lambda>p. Inr (s\<lparr> prealloc_pool := Live_pool (f p) \<rparr>))"

definition try_splitting_chunks :: "cptr \<Rightarrow> nat \<Rightarrow> pool \<Rightarrow> pool res" where
  "try_splitting_chunks c sz s =
     bindR (deref s c) (\<lambda>ch.
     assertR (\<not> c_used ch \<and> c_bin_index ch = kInvalidBinNum)
      (let (n, s) = new_chunk (Chunk_new\<lparr> c_memptr := add64 (c_memptr ch) sz,
                                 c_size := sub64 (c_size ch) sz, c_used := False,
                                 c_freed_counter := 0, c_stream := c_stream ch,
                                 c_associated_to_stream := c_associated_to_stream ch,
                                 c_prev := c, c_next := c_next ch \<rparr>) s in
       bindR (upd_chunk c (\<lambda>ch. ch\<lparr> c_size := sz, c_next := n \<rparr>) s) (\<lambda>s.
       bindR (if c_next ch \<noteq> 0 then upd_chunk (c_next ch) (\<lambda>nx. nx\<lparr> c_prev := n \<rparr>) s
              else Inr s) (\<lambda>s.
       bindR (deref_pool s) (\<lambda>p.
       bindR (if pl_top p = c then upd_pool (\<lambda>p. p\<lparr> pl_top := n \<rparr>) s else Inr s) (\<lambda>s.
         InsertFreeChunkIntoBin n
           (s\<lparr> chunks := AList.update (add64 (c_memptr ch) sz) n (chunks s) \<rparr>)))))))"

definition merge_chunks :: "cptr \<Rightarrow> cptr \<Rightarrow> pool \<Rightarrow> pool res" where
  "merge_chunks c1 c2 s =
     bindR (deref s c2) (\<lambda>k2.
     if c_event_count k2 > 0 \<or> c_stream_uses k2 \<noteq> [] then Inr s else
     bindR (deref s c1) (\<lambda>k1.
     if c_used k1 \<or> c_used k2 then Inl Fatal else
     if c_prev k2 \<noteq> c1 then Inl Fatal else
     if add64 (c_memptr k1) (c_size k1) \<noteq> c_memptr k2 then Inl Fatal else
     bindR (deref_pool s) (\<lambda>p.
     bindR (if pl_top p = c2 then upd_pool (\<lambda>p. p\<lparr> pl_top := c1 \<rparr>) s else Inr s) (\<lambda>s.
     bindR (upd_chunk c1 (\<lambda>k. k\<lparr> c_next := c_next k2 \<rparr>) s) (\<lambda>s.
     bindR (if c_next k2 \<noteq> 0 then upd_chunk (c_next k2) (\<lambda>k. k\<lparr> c_prev := c1 \<rparr>) s
            else Inr s) (\<lambda>s.
     bindR (upd_chunk c1 (\<lambda>k. k\<lparr> c_size := add64 (c_size k) (c_size k2),
               c_freed_counter := max (c_freed_counter k) (c_freed_counter k2) \<rparr>) s) (\<lambda>s.
       Inr (s\<lparr> chunks := AList.delete (c_memptr k2) (chunks s),
               chunk_heap := (chunk_heap s)(c2 := None) \<rparr>))))))))"

text \<open>The two halves of \<open>try_to_merge\<close>: with the chunk after, then with the one before.\<close>

definition merge_with_next :: "cptr \<Rightarrow> pool \<Rightarrow> pool res" where
  "merge_with_next c s =
     bindR (deref s c) (\<lambda>k.
       if c_next k \<noteq> 0 then
         bindR (deref s (c_next k)) (\<lambda>nx.
           if \<not> c_used nx then
             bindR (RemoveFreeChunkFromBin (c_next k) s) (merge_chunks c (c_next k))
           else Inr s)
       else Inr s)"

definition merge_with_prev :: "cptr \<Rightarrow> pool \<Rightarrow> (cptr \<times> pool) res" where
  "merge_with_prev c s =
     bindR (deref s c) (\<lambda>k.
       if c_prev k \<noteq> 0 then
         bindR (deref s (c_prev k)) (\<lambda>pv.
           if \<not> c_used pv then
             bindR (RemoveFreeChunkFromBin (c_prev k) s) (\<lambda>s.
             bindR (merge_chunks (c_prev k) c s) (\<lambda>s. Inr (c_prev k, s)))
           else Inr (c, s))
       else Inr (c, s))"

definition try_to_merge :: "cptr \<Rightarrow> pool \<Rightarrow> (cptr \<times> pool) res" where
  "try_to_merge c s = bindR (merge_with_next c s) (merge_with_prev c)"

section \<open>Finding a chunk\<close>

text \<open>
  \<open>DEFRAGMENT_TH(arg)\<close> is \<open>std::ceil(0.9 * (arg))\<close> in double precision; the model uses the
  exact ceiling, which the double agrees with for the sizes of a device memory.
\<close>

definition DEFRAGMENT_TH :: "nat \<Rightarrow> nat" where
  "DEFRAGMENT_TH arg = (9 * arg + 9) div 10"

definition kMaxInternalFragmentation :: nat where
  "kMaxInternalFragmentation = 128 * 2 ^ 20"

definition got_chunk :: "nat \<Rightarrow> nat \<Rightarrow> bool \<Rightarrow> chunk \<Rightarrow> bool" where
  "got_chunk num_bytes stream use_stream ch =
     (if use_stream then
        c_size ch \<ge> num_bytes \<and> (c_associated_to_stream ch \<and> stream = c_stream ch)
      else c_size ch \<ge> num_bytes)"

definition should_split :: "pool \<Rightarrow> nat \<Rightarrow> nat \<Rightarrow> bool" where
  "should_split s num_bytes chunk_size \<longleftrightarrow>
     chunk_size > num_bytes \<and>
     (chunk_size \<ge> mul64 num_bytes 2 \<or>
      sub64 chunk_size num_bytes \<ge> kMaxInternalFragmentation \<or>
      num_bytes < DEFRAGMENT_TH chunk_size \<or>
      defragmenter_state_started s)"

text \<open>The inner loop, over one bin, then the outer loop over the bins from \<open>bin_index\<close> on.\<close>

fun find_in_bin :: "pool \<Rightarrow> nat \<Rightarrow> nat \<Rightarrow> bool \<Rightarrow> cptr list \<Rightarrow> cptr option res" where
  "find_in_bin s num_bytes stream use_stream [] = Inr None"
| "find_in_bin s num_bytes stream use_stream (c # cs) =
     bindR (deref s c) (\<lambda>ch. assertR (\<not> c_used ch)
       (if got_chunk num_bytes stream use_stream ch then Inr (Some c)
        else find_in_bin s num_bytes stream use_stream cs))"

fun find_in_bins ::
  "pool \<Rightarrow> nat \<Rightarrow> nat \<Rightarrow> bool \<Rightarrow> nat list \<Rightarrow> (nat \<times> cptr) option res" where
  "find_in_bins s num_bytes stream use_stream [] = Inr None"
| "find_in_bins s num_bytes stream use_stream (i # is) =
     bindR (bin_at s i) (\<lambda>b.
     bindR (find_in_bin s num_bytes stream use_stream b) (\<lambda>r.
       case r of Some c \<Rightarrow> Inr (Some (i, c))
       | None \<Rightarrow> find_in_bins s num_bytes stream use_stream is))"

definition FindChunkPtr :: "nat \<Rightarrow> nat \<Rightarrow> nat \<Rightarrow> bool \<Rightarrow> pool \<Rightarrow> (cptr \<times> pool) res" where
  "FindChunkPtr bin_index num_bytes stream use_stream s =
     bindR (find_in_bins s num_bytes stream use_stream [bin_index..<kNumBins]) (\<lambda>r.
       case r of
         None \<Rightarrow> Inr (0, s)
       | Some (i, c) \<Rightarrow>
           bindR (RemoveFreeChunkIterFromBin i c s) (\<lambda>s.
           bindR (deref s c) (\<lambda>ch.
           bindR (if should_split s num_bytes (c_size ch) then try_splitting_chunks c num_bytes s
                  else Inr s) (\<lambda>s.
           bindR (InsertFreeChunkIntoBin c s) (\<lambda>s. Inr (c, s))))))"

definition reuse_chunks :: "nat \<Rightarrow> nat \<Rightarrow> bool \<Rightarrow> pool \<Rightarrow> (cptr \<times> pool) res" where
  "reuse_chunks sz stream use_stream s =
     bindR (FindChunkPtr (BinIndexForSize s sz) sz stream use_stream s) (\<lambda>(c, s).
       if c = 0 then Inr (0, s)
       else
         bindR (RemoveFreeChunkFromBin c s) (\<lambda>s.
         bindR (upd_chunk c (\<lambda>ch. ch\<lparr> c_used := True, c_associated_to_stream := True,
                                       c_stream := stream \<rparr>) s) (\<lambda>s. Inr (c, s))))"

section \<open>Allocation and freeing\<close>

definition upd_stats :: "(mem_stats \<Rightarrow> mem_stats) \<Rightarrow> pool \<Rightarrow> pool" where
  "upd_stats f s = s\<lparr> stats := f (stats s) \<rparr>"

text \<open>The part of \<open>alloc_chunk\<close> after the small allocations have been tried.\<close>

definition alloc_large :: "nat \<Rightarrow> nat \<Rightarrow> bool \<Rightarrow> pool \<Rightarrow> (nat \<times> pool) res" where
  "alloc_large sz stream use_stream s =
     (if sz > max_pool_size s then Inr (0, s)
      else
        bindR (reuse_chunks sz stream use_stream s) (\<lambda>(c, s).
          if c = 0 then Inr (0, s)
          else
            (let s = s\<lparr> chunk_count := add64 (chunk_count s) 1 \<rparr> in
             bindR (upd_chunk c (\<lambda>ch. ch\<lparr> c_extra_space := sub64 (c_size ch) sz \<rparr>) s) (\<lambda>s.
             bindR (deref s c) (\<lambda>ch.
               Inr (c_memptr ch,
                    upd_stats (UpdateStats (c_size ch) True False)
                      (s\<lparr> bytes_in_use := add64 (bytes_in_use s) (c_size ch) \<rparr>)))))))"

definition alloc_chunk :: "nat \<Rightarrow> nat \<Rightarrow> bool \<Rightarrow> pool \<Rightarrow> (nat \<times> pool) res" where
  "alloc_chunk sz stream use_stream s =
     (if alignment s = 0 then Inl Undefined
      else if sz mod alignment s \<noteq> 0 then Inl Fatal
      else
        bindR (case small_allocs s of
                 Some sa \<Rightarrow>
                   if stream = 0 then
                     bindR (sa_Allocate sa sz) (\<lambda>(p, sa). Inr (p, s\<lparr> small_allocs := Some sa \<rparr>))
                   else Inr (0, s)
               | None \<Rightarrow> Inr (0, s)) (\<lambda>(ptr, s).
          if ptr \<noteq> 0 then
            Inr (ptr, upd_stats (\<lambda>st. st\<lparr> num_allocs := add64 (num_allocs st) 1,
                                          total_allocs := add64 (total_allocs st) 1 \<rparr>) s)
          else alloc_large sz stream use_stream s))"

definition is_small_alloc :: "pool \<Rightarrow> nat \<Rightarrow> bool res" where
  "is_small_alloc s ptr =
     (case small_allocs s of None \<Rightarrow> Inr False | Some sa \<Rightarrow> sa_IsAllocated sa ptr)"

definition lookup_chunk :: "pool \<Rightarrow> nat \<Rightarrow> cptr res" where
  "lookup_chunk s ptr =
     (case map_of (chunks s) ptr of None \<Rightarrow> Inl Assert_failed | Some c \<Rightarrow> Inr c)"

text \<open>The part of \<open>delete_chunk\<close> that returns a chunk of the pool.\<close>

definition delete_large :: "cptr \<Rightarrow> pool \<Rightarrow> pool res" where
  "delete_large c s =
     bindR (deref s c) (\<lambda>ch. assertR (c_used ch)
      (bindR (upd_chunk c (\<lambda>ch. ch\<lparr> c_used := False, c_bin_index := kInvalidBinNum,
                                     c_extra_space := 0 \<rparr>) s) (\<lambda>s.
        (let s = upd_stats (UpdateStats (c_size ch) False False)
                   (s\<lparr> chunk_count := sub64 (chunk_count s) 1,
                       bytes_in_use := sub64 (bytes_in_use s) (c_size ch) \<rparr>) in
         bindR (try_to_merge c s) (\<lambda>(m, s).
         bindR (InsertFreeChunkIntoBin m s) (\<lambda>s.
         bindR (deref_pool s) (\<lambda>p.
           Inr (if pl_top p \<noteq> 0 \<and> pl_top p = c then s\<lparr> high_memory_allocated := False \<rparr>
                else s))))))))"

definition delete_chunk :: "nat \<Rightarrow> pool \<Rightarrow> pool res" where
  "delete_chunk ptr s =
     (if ptr = 0 then Inr s
      else
        bindR (is_small_alloc s ptr) (\<lambda>small.
          if small then
            (case small_allocs s of
               None \<Rightarrow> Inl Bad_pointer
             | Some sa \<Rightarrow>
                 bindR (sa_Deallocate sa ptr) (\<lambda>sa.
                   Inr (upd_stats (\<lambda>st. st\<lparr> num_frees := add64 (num_frees st) 1,
                                            total_frees := add64 (total_frees st) 1 \<rparr>)
                          (s\<lparr> small_allocs := Some sa \<rparr>))))
          else bindR (lookup_chunk s ptr) (\<lambda>c. delete_large c s)))"

section \<open>Streams and events\<close>

text \<open>\<open>hpu_events[stream].emplace_back(event, chunk)\<close>\<close>

definition push_event :: "nat \<Rightarrow> nat \<Rightarrow> cptr \<Rightarrow> pool \<Rightarrow> pool" where
  "push_event stream ev c s =
     s\<lparr> hpu_events := AList.update stream
          ((case map_of (hpu_events s) stream of None \<Rightarrow> [] | Some q \<Rightarrow> q) @ [(ev, c)])
          (hpu_events s) \<rparr>"

fun insert_events_loop :: "dev_env \<Rightarrow> cptr \<Rightarrow> nat list \<Rightarrow> pool \<Rightarrow> pool res" where
  "insert_events_loop env c [] s = Inr s"
| "insert_events_loop env c (stream # streams) s =
     bindR (get_free_handle env (dev_events s)) (\<lambda>(ev, ec).
       if \<not> de_event_record env ev (de_stream env stream) then Inl Fatal
       else
         bindR (upd_chunk c (\<lambda>ch. ch\<lparr> c_event_count := c_event_count ch + 1 \<rparr>)
                 (s\<lparr> dev_events := ec \<rparr>)) (\<lambda>s.
         insert_events_loop env c streams (push_event stream ev c s)))"

definition insert_events :: "dev_env \<Rightarrow> cptr \<Rightarrow> pool \<Rightarrow> pool res" where
  "insert_events env c s =
     bindR (deref s c) (\<lambda>ch.
     bindR (upd_chunk c (\<lambda>ch. ch\<lparr> c_stream_uses := [] \<rparr>) s) (\<lambda>s.
       insert_events_loop env c (c_stream_uses ch) s))"

definition decrement_event :: "cptr \<Rightarrow> pool \<Rightarrow> pool res" where
  "decrement_event c s =
     bindR (upd_chunk c (\<lambda>ch. ch\<lparr> c_event_count := c_event_count ch - 1 \<rparr>) s) (\<lambda>s.
     bindR (deref s c) (\<lambda>ch.
       if c_event_count ch = 0 then delete_chunk c s else Inr s))"

text \<open>
  Both event loops call \<open>delete_chunk(chunk)\<close> with the \<open>Chunk*\<close> itself, which converts to
  \<open>void*\<close>: the argument of \<^const>\<open>delete_chunk\<close> in \<^const>\<open>decrement_event\<close> is the host address of
  the chunk, not its \<open>memptr\<close>. The first function is the inner \<open>while\<close> of \<open>process_events\<close>;
  what it returns is the rest of the queue.
\<close>

fun process_queue ::
  "dev_env \<Rightarrow> (nat \<times> cptr) list \<Rightarrow> pool \<Rightarrow> ((nat \<times> cptr) list \<times> pool) res" where
  "process_queue env [] s = Inr ([], s)"
| "process_queue env ((ev, c) # q) s =
     (if \<not> de_event_query env ev then Inr ((ev, c) # q, s)
      else
        bindR (release_handle ev (dev_events s)) (\<lambda>ec.
        bindR (decrement_event c (s\<lparr> dev_events := ec \<rparr>)) (\<lambda>s.
          process_queue env q s)))"

fun process_events_loop ::
  "dev_env \<Rightarrow> (nat \<times> (nat \<times> cptr) list) list \<Rightarrow> pool
    \<Rightarrow> ((nat \<times> (nat \<times> cptr) list) list \<times> pool) res" where
  "process_events_loop env [] s = Inr ([], s)"
| "process_events_loop env ((stream, q) # es) s =
     bindR (process_queue env q s) (\<lambda>(q, s).
     bindR (process_events_loop env es s) (\<lambda>(es, s).
       Inr (if q = [] then es else (stream, q) # es, s)))"

definition process_events :: "dev_env \<Rightarrow> pool \<Rightarrow> pool res" where
  "process_events env s =
     bindR (process_events_loop env (hpu_events s) s) (\<lambda>(es, s). Inr (s\<lparr> hpu_events := es \<rparr>))"

fun synchronize_loop :: "dev_env \<Rightarrow> (nat \<times> cptr) list \<Rightarrow> pool \<Rightarrow> pool res" where
  "synchronize_loop env [] s = Inr s"
| "synchronize_loop env ((ev, c) # q) s =
     (if \<not> de_event_sync env ev then Inl Fatal
      else
        bindR (decrement_event c s) (\<lambda>s.
        bindR (release_handle ev (dev_events s)) (\<lambda>ec.
          synchronize_loop env q (s\<lparr> dev_events := ec \<rparr>))))"

definition synchronize_and_free_events :: "dev_env \<Rightarrow> pool \<Rightarrow> pool res" where
  "synchronize_and_free_events env s =
     bindR (synchronize_loop env (concat (map snd (hpu_events s))) s) (\<lambda>s.
       Inr (s\<lparr> hpu_events := [] \<rparr>))"

definition is_stream_uses_empty :: "nat \<Rightarrow> pool \<Rightarrow> bool res" where
  "is_stream_uses_empty ptr s =
     (if ptr = 0 then Inr True
      else
        bindR (is_small_alloc s ptr) (\<lambda>small.
          if small then Inr True
          else
            bindR (lookup_chunk s ptr) (\<lambda>c.
            bindR (deref s c) (\<lambda>ch. Inr (c_stream_uses ch = [])))))"

definition record_stream :: "dev_env \<Rightarrow> nat \<Rightarrow> nat \<Rightarrow> pool \<Rightarrow> pool res" where
  "record_stream env ptr stream s =
     (if ptr = 0 then Inr s
      else
        bindR (is_small_alloc s ptr) (\<lambda>small.
          if small then Inr s
          else
            bindR (lookup_chunk s ptr) (\<lambda>c.
            bindR (deref s c) (\<lambda>ch. assertR (c_used ch)
              (if de_stream env stream = de_stream env (c_stream ch) then Inr s
               else upd_chunk c (\<lambda>ch. ch\<lparr> c_stream_uses := List.insert stream (c_stream_uses ch) \<rparr>)
                      s)))))"

definition pool_alloc_chunk ::
  "dev_env \<Rightarrow> nat \<Rightarrow> nat \<Rightarrow> bool \<Rightarrow> pool \<Rightarrow> (nat \<times> pool) res" where
  "pool_alloc_chunk env sz stream use_stream s =
     bindR (process_events env s) (alloc_chunk sz stream use_stream)"

definition pool_alloc_workspace :: "dev_env \<Rightarrow> nat \<Rightarrow> pool \<Rightarrow> (nat \<times> pool) res" where
  "pool_alloc_workspace env sz s = bindR (process_events env s) (alloc_chunk sz 0 False)"

definition pool_free_chunk :: "dev_env \<Rightarrow> nat \<Rightarrow> pool \<Rightarrow> pool res" where
  "pool_free_chunk env ptr s =
     (if ptr = 0 then Inr s
      else
        bindR (is_small_alloc s ptr) (\<lambda>small.
          if small then delete_chunk ptr s
          else
            bindR (lookup_chunk s ptr) (\<lambda>c.
            bindR (deref s c) (\<lambda>ch.
              if c_stream_uses ch \<noteq> [] then insert_events env c s else delete_chunk ptr s))))"

section \<open>The workspace at the high end of memory\<close>

text \<open>
  Four pieces of \<open>extend_high_memory_allocation\<close>: giving the old workspace back to the tail,
  cutting the new one off the free chunk \<open>t\<close> at the tail, the accounting, and the two last put together.
\<close>

definition release_workspace :: "cptr \<Rightarrow> pool \<Rightarrow> pool res" where
  "release_workspace t s =
     bindR (upd_chunk t (\<lambda>k. k\<lparr> c_used := False \<rparr>) s) (\<lambda>s.
     bindR (try_to_merge t s) (\<lambda>(m, s). InsertFreeChunkIntoBin m s))"

definition cut_workspace :: "nat \<Rightarrow> cptr \<Rightarrow> pool \<Rightarrow> (cptr \<times> pool) res" where
  "cut_workspace sz t s =
     bindR (deref s t) (\<lambda>tail.
       (let size_left = sub64 (c_size tail) sz in
        if c_bin_index tail = kInvalidBinNum then Inl Fatal
        else if size_left > 0 then
          bindR (bin_at s (c_bin_index tail)) (\<lambda>b.
            case bin_find (chunk_heap s) t b of
              None \<Rightarrow> Inl Undefined
            | Some c \<Rightarrow>
                bindR (RemoveFreeChunkIterFromBin (c_bin_index tail) c s) (\<lambda>s.
                bindR (try_splitting_chunks t size_left s) (\<lambda>s.
                bindR (InsertFreeChunkIntoBin t s) (\<lambda>s.
                bindR (deref s t) (\<lambda>k. Inr (c_next k, s))))))
        else Inr (t, s)))"

definition account_workspace :: "nat \<Rightarrow> cptr \<Rightarrow> pool \<Rightarrow> (nat \<times> pool) res" where
  "account_workspace current_ws_size t s =
     bindR (deref s t) (\<lambda>tail.
       (let d = sub64 (c_size tail) current_ws_size in
        Inr (c_memptr tail,
             upd_stats (\<lambda>st. st\<lparr> scratch_mem_in_use := c_size tail \<rparr>)
              (upd_stats (UpdateStats d True False)
                (s\<lparr> bytes_in_use := add64 (bytes_in_use s) d \<rparr>)))))"

text \<open>From the free tail on: too small, or cut, marked used and accounted.\<close>

definition grab_workspace :: "nat \<Rightarrow> nat \<Rightarrow> pool \<Rightarrow> (nat \<times> pool) res" where
  "grab_workspace sz current_ws_size s =
     bindR (deref_pool s) (\<lambda>p.
     let t = pl_top p in
     bindR (deref s t) (\<lambda>tail.
     if c_size tail < sz then
       bindR (RemoveFreeChunkFromBin t s) (\<lambda>s.
       bindR (upd_chunk t (\<lambda>k. k\<lparr> c_used := True \<rparr>) s) (\<lambda>s. Inr (0, s)))
     else
       bindR (cut_workspace sz t (s\<lparr> high_memory_allocated := True \<rparr>)) (\<lambda>(t, s).
       bindR (RemoveFreeChunkFromBin t s) (\<lambda>s.
       bindR (upd_chunk t (\<lambda>k. k\<lparr> c_used := True \<rparr>) s) (\<lambda>s.
         account_workspace current_ws_size t s)))))"

definition extend_high_memory_allocation ::
  "nat \<Rightarrow> nat \<Rightarrow> pool \<Rightarrow> (nat \<times> pool) res" where
  "extend_high_memory_allocation sz current_ws_size s =
     (if sz > max_pool_size s then Inr (0, s)
      else if prealloc_pool s = Null_pool then Inl Fatal
      else
        bindR (deref_pool s) (\<lambda>p.
        if pl_top p = 0 then Inl Fatal else
        bindR (deref s (pl_top p)) (\<lambda>tail.
        if \<not> high_memory_allocated s \<and> c_used tail then Inr (0, s)
        else if high_memory_allocated s \<and> sz \<le> c_size tail \<and> c_used tail then
          Inr (c_memptr tail, s)
        else
          bindR (if high_memory_allocated s then release_workspace (pl_top p) s
                 else Inr s) (grab_workspace sz current_ws_size))))"

end
