(* ===== verification/Pool_Life.thy ===== *)
theory Pool_Life
  imports Pool_Ops
begin

text \<open>
  Construction, \<open>pool_create\<close> and \<open>pool_destroy\<close> of \<open>CoalescedStringentPooling\<close>, and the methods
  that read its state.
\<close>

section \<open>Construction, creation and destruction\<close>

text \<open>
  \<open>kMinAllocationBits\<close> is \<open>std::log2(alignment) + 1\<close> converted to \<open>size_t\<close>: the floor of the
  logarithm plus one. \<open>h\<close> is the first host address \<open>new\<close> will return and \<open>ec\<close> the device's
  event handle cache.
\<close>

definition pool_new :: "nat \<Rightarrow> cptr \<Rightarrow> event_cache \<Rightarrow> pool" where
  "pool_new al h ec = \<lparr> chunk_heap = (\<lambda>_. None), next_host = h, chunks = [], bins = [],
     pool_id = 0, max_pool_size = default_pool_size, chunk_count = 0, free_chunks = 0,
     free_chunks_size = 0, bytes_in_use = 0, prealloc_pool = Null_pool,
     high_memory_allocated = False, defragmenter_state_started = False,
     stats = MemoryStats_init, alignment = al,
     kMinAllocationBits = Log2FloorNonZero al + 1,
     kMinAllocationSize = 2 ^ (Log2FloorNonZero al + 1),
     header_bytes = al, small_allocs = None, hpu_events = [], dev_events = ec \<rparr>"

definition set_defragmenter_state :: "bool \<Rightarrow> pool \<Rightarrow> pool" where
  "set_defragmenter_state started s = s\<lparr> defragmenter_state_started := started \<rparr>"

text \<open>
  The size taken when the caller asked for the default or for more than there is: a percentage
  of the free memory less the HCCL allowance. The code computes it in double precision and
  converts to \<open>uint64_t\<close>, which is undefined for values of \<open>-1\<close> and less.
\<close>

definition acquire_size :: "dev_env \<Rightarrow> nat res" where
  "acquire_size env =
     (let perc = (if de_mem_acquire_perc env > 100 then 100 else de_mem_acquire_perc env);
          x = perc * de_free_mem env;
          h = de_hccl_allowance env
      in if 100 * h \<ge> x + 100 then Inl Undefined else Inr (x div 100 - h))"

definition bin_check :: "pool \<Rightarrow> nat \<Rightarrow> bool" where
  "bin_check s b \<longleftrightarrow>
     (let bin_size = BinNumToSize s b in
      BinIndexForSize s bin_size = b \<and>
      BinIndexForSize s (add64 bin_size 255) = b \<and>
      BinIndexForSize s (sub64 (mul64 bin_size 2) 1) = b \<and>
      (b + 1 < kNumBins \<longrightarrow> BinIndexForSize s (mul64 bin_size 2) \<noteq> b))"

text \<open>
  \<open>pool_create\<close> in three pieces: the size, the pool with its first chunk and the bins with the
  checks of their boundaries, and the region for small allocations.
\<close>

definition create_size :: "dev_env \<Rightarrow> nat \<Rightarrow> pool \<Rightarrow> (nat \<times> pool) res" where
  "create_size env sz s =
     (if sz > de_free_mem env \<or> sz = default_pool_size then
        bindR (acquire_size env) (\<lambda>sz.
          Inr (sz, upd_stats (\<lambda>st. st\<lparr> pre_allocate_size :=
                     add64 (pre_allocate_size st) (de_hccl_allowance env) \<rparr>) s))
      else Inr (sz, s))"

definition create_chunk :: "nat \<Rightarrow> nat \<Rightarrow> pool \<Rightarrow> pool res" where
  "create_chunk base sz s =
     (let p = \<lparr> pl_next = add64 base (header_bytes s), pl_end = add64 base sz,
                pl_start = 0, pl_top = 0, pl_memptr = add64 base (header_bytes s),
                pl_basememptr = base \<rparr>;
          s = s\<lparr> bins := replicate kNumBins [] \<rparr>
      in assertR (list_all (bin_check s) [0..<kNumBins])
       (let (c, s) = new_chunk (Chunk_new\<lparr> c_memptr := pl_next p,
                        c_size := sub64 (max_pool_size s) (header_bytes s) \<rparr>) s
        in InsertFreeChunkIntoBin c
             (s\<lparr> prealloc_pool := Live_pool (p\<lparr> pl_start := c, pl_top := c,
                                        pl_next := add64 (pl_next p) sz \<rparr>),
                 chunks := AList.update (pl_next p) c (chunks s) \<rparr>)))"

definition small_setup :: "nat \<Rightarrow> pool \<Rightarrow> pool res" where
  "small_setup k s =
     bindR (alloc_chunk k 0 False s) (\<lambda>(chunk_ptr, s).
     bindR (sa_new chunk_ptr (alignment s) (BinNumToSize s 0) k)
      (\<lambda>sa. Inr (upd_stats (\<lambda>st. st\<lparr> num_allocs := 0,
                   ms_bytes_in_use := add64 (ms_bytes_in_use st) k \<rparr>)
             (s\<lparr> small_allocs := Some sa, bytes_in_use := add64 (bytes_in_use s) k \<rparr>))))"

definition pool_create :: "dev_env \<Rightarrow> nat \<Rightarrow> nat \<Rightarrow> pool \<Rightarrow> pool res" where
  "pool_create env deviceID sz s =
     bindR (create_size env sz (s\<lparr> pool_id := deviceID \<rparr>)) (\<lambda>(sz, s).
     let s = s\<lparr> max_pool_size := sz \<rparr> in
     case de_malloc env sz of
       None \<Rightarrow> Inl Fatal
     | Some base \<Rightarrow>
         bindR (create_chunk base sz s) (\<lambda>s.
           small_setup (mul64 (6 * 1024) (alignment s))
             (upd_stats (\<lambda>st. st\<lparr> ms_pool_id := deviceID, memory_limit := max_pool_size s,
                 ms_bytes_in_use := add64 (ms_bytes_in_use st) (header_bytes s),
                 pre_allocate_size := add64 (pre_allocate_size st) (header_bytes s) \<rparr>)
               (s\<lparr> bytes_in_use := add64 (bytes_in_use s) (header_bytes s) \<rparr>))))"

fun delete_all :: "cptr list \<Rightarrow> (cptr \<Rightarrow> chunk option) \<Rightarrow> cptr \<Rightarrow> chunk option" where
  "delete_all [] h = h"
| "delete_all (c # cs) h = delete_all cs (h(c := None))"

text \<open>
  \<open>pool_destroy\<close> deletes the pool but not \<open>prealloc_pool\<close>'s value, and resets neither
  \<open>stats\<close> nor \<open>hpu_events\<close>. Returning the memory to the Synapse library has no effect on the
  state here.
\<close>

definition pool_destroy :: "pool \<Rightarrow> pool res" where
  "pool_destroy s =
     bindR (if prealloc_pool s = Null_pool then Inr s
            else
              bindR (case small_allocs s of
                       None \<Rightarrow> Inr s
                     | Some sa \<Rightarrow>
                         bindR (sa_Reset sa) (\<lambda>(p, sa).
                         let s = s\<lparr> small_allocs := Some sa \<rparr> in
                         bindR (case p of None \<Rightarrow> Inr s | Some ptr \<Rightarrow> delete_chunk ptr s) (\<lambda>s.
                           Inr (s\<lparr> small_allocs := None \<rparr>)))) (\<lambda>s.
              bindR (deref_pool s) (\<lambda>_.
                Inr (s\<lparr> bins := [],
                        chunk_heap := delete_all (map snd (chunks s)) (chunk_heap s),
                        chunks := [], prealloc_pool := Dangling_pool \<rparr>)))) (\<lambda>s.
       Inr (s\<lparr> pool_id := 0, chunk_count := 0, bytes_in_use := 0, free_chunks := 0,
               free_chunks_size := 0, max_pool_size := default_pool_size,
               high_memory_allocated := False \<rparr>))"

section \<open>Queries\<close>

definition is_memory_available :: "nat \<Rightarrow> pool \<Rightarrow> bool" where
  "is_memory_available sz s = (if add64 sz (bytes_in_use s) > max_pool_size s then False else True)"

definition is_memory_available_ws :: "nat \<Rightarrow> nat \<Rightarrow> nat \<Rightarrow> pool \<Rightarrow> bool" where
  "is_memory_available_ws persistant_size curr_ws_size new_ws_size s =
     (if add64 (add64 persistant_size new_ws_size) (sub64 (bytes_in_use s) curr_ws_size)
           > max_pool_size s
      then False else True)"

definition isChunkContigous :: "chunk \<Rightarrow> chunk \<Rightarrow> bool" where
  "isChunkContigous k1 k2 \<longleftrightarrow> add64 (c_memptr k1) (c_size k1) = c_memptr k2"

text \<open>
  The two loops of \<open>getContigousChunkSize\<close>: over the free chunks before and after the given one.
  The fuel bounds the chunks visited; the number of chunks in the pool is enough.
\<close>

fun contig_prev :: "nat \<Rightarrow> pool \<Rightarrow> cptr \<Rightarrow> nat \<Rightarrow> nat res" where
  "contig_prev 0 s t acc = Inl No_return"
| "contig_prev (Suc fuel) s t acc =
     bindR (deref s t) (\<lambda>k.
       if c_prev k = 0 then Inr acc
       else bindR (deref s (c_prev k)) (\<lambda>pv.
         if \<not> c_used pv \<and> isChunkContigous pv k
         then contig_prev fuel s (c_prev k) (add64 acc (c_size pv)) else Inr acc))"

fun contig_next :: "nat \<Rightarrow> pool \<Rightarrow> cptr \<Rightarrow> nat \<Rightarrow> nat res" where
  "contig_next 0 s t acc = Inl No_return"
| "contig_next (Suc fuel) s t acc =
     bindR (deref s t) (\<lambda>k.
       if c_next k = 0 then Inr acc
       else bindR (deref s (c_next k)) (\<lambda>nx.
         if \<not> c_used nx \<and> isChunkContigous k nx
         then contig_next fuel s (c_next k) (add64 acc (c_size nx)) else Inr acc))"

definition getContigousChunkSize :: "pool \<Rightarrow> cptr \<Rightarrow> nat res" where
  "getContigousChunkSize s c =
     bindR (contig_prev (Suc (length (chunks s))) s c 0) (\<lambda>acc.
     bindR (contig_next (Suc (length (chunks s))) s c acc) (\<lambda>acc.
     bindR (deref s c) (\<lambda>k. Inr (add64 acc (c_size k)))))"

text \<open>\<open>chunks_ordered\<close>: the chunks in the order of their addresses.\<close>

definition chunks_ordered :: "pool \<Rightarrow> cptr list" where
  "chunks_ordered s = map snd (sort_key fst (chunks s))"

fun max_cntgs_loop :: "pool \<Rightarrow> cptr list \<Rightarrow> nat \<Rightarrow> nat res" where
  "max_cntgs_loop s [] mx = Inr mx"
| "max_cntgs_loop s (c # cs) mx =
     bindR (deref s c) (\<lambda>k.
       if \<not> c_used k \<and> c_size k \<noteq> 0 then
         bindR (getContigousChunkSize s c) (\<lambda>n. max_cntgs_loop s cs (if mx < n then n else mx))
       else max_cntgs_loop s cs mx)"

definition get_max_cntgs_chunk_size :: "pool \<Rightarrow> nat res" where
  "get_max_cntgs_chunk_size s = max_cntgs_loop s (chunks_ordered s) 0"

definition get_memory_info :: "pool \<Rightarrow> (nat \<times> nat) list res" where
  "get_memory_info s =
     bindR (deref_pool s) (\<lambda>p.
     bindR (deref s (pl_start p)) (\<lambda>k.
       Inr [(c_memptr k, sub64 (max_pool_size s) (header_bytes s))]))"

definition get_tail_chunk_info :: "pool \<Rightarrow> (nat \<times> nat) res" where
  "get_tail_chunk_info s =
     bindR (deref_pool s) (\<lambda>p.
       if pl_top p = 0 then Inr (0, 0)
       else bindR (deref s (pl_top p)) (\<lambda>k. Inr (c_memptr k, c_size k)))"

definition get_small_alloc_info :: "pool \<Rightarrow> nat \<times> nat \<times> nat" where
  "get_small_alloc_info s =
     (case small_allocs s of None \<Rightarrow> (0, 0, 0)
      | Some sa \<Rightarrow> (sa_chunk_ptr sa, kSize sa, kThreshold sa))"

definition allocated_size :: "nat \<Rightarrow> pool \<Rightarrow> nat res" where
  "allocated_size ptr s =
     bindR (is_small_alloc s ptr) (\<lambda>small.
       if small then (case small_allocs s of None \<Rightarrow> Inl Bad_pointer | Some sa \<Rightarrow> sa_Size sa ptr)
       else bindR (lookup_chunk s ptr) (\<lambda>c. bindR (deref s c) (\<lambda>k. Inr (c_size k))))"

fun occupied_loop :: "pool \<Rightarrow> cptr list \<Rightarrow> (nat \<times> nat) list res" where
  "occupied_loop s [] = Inr []"
| "occupied_loop s (c # cs) =
     bindR (deref s c) (\<lambda>k. bindR (occupied_loop s cs) (\<lambda>r.
       Inr (if c_size k = 0 then r
            else if c_used k then (c_memptr k, c_size k) # r else r)))"

definition get_occupied_chunk_map :: "pool \<Rightarrow> (nat \<times> nat) list res" where
  "get_occupied_chunk_map s = occupied_loop s (chunks_ordered s)"

fun memory_mask_loop :: "pool \<Rightarrow> cptr list \<Rightarrow> nat list res" where
  "memory_mask_loop s [] = Inr []"
| "memory_mask_loop s (c # cs) =
     bindR (deref s c) (\<lambda>k. bindR (memory_mask_loop s cs) (\<lambda>r.
       Inr ((if c_used k then 1 else 0) # c_size k # r)))"

definition get_memory_mask :: "pool \<Rightarrow> nat list res" where
  "get_memory_mask s = memory_mask_loop s (chunks_ordered s)"

text \<open>
  The statistics of \<open>get_stats\<close> when \<open>PT_HPU_POOL_LOG_FRAGMENTATION_INFO\<close> is set. The
  percentage is computed in double precision; \<open>frag m a\<close> is what the code's expression
  \<open>100 * (1 - ((double)m / a))\<close> gives as an integer.
\<close>

fun stats_loop :: "pool \<Rightarrow> cptr list \<Rightarrow> mem_stats \<Rightarrow> mem_stats res" where
  "stats_loop s [] st = Inr st"
| "stats_loop s (c # cs) st =
     bindR (deref s c) (\<lambda>k.
       if c_size k = 0 then stats_loop s cs st
       else
         (let st = st\<lparr> total_chunks := total_chunks st + 1,
                       total_size := add64 (total_size st) (c_size k) \<rparr>;
              st = (if min_chunk_size st = 0 then st\<lparr> min_chunk_size := c_size k \<rparr> else st);
              st = st\<lparr> min_chunk_size := min (min_chunk_size st) (c_size k),
                       max_chunk_size := max (max_chunk_size st) (c_size k) \<rparr>;
              st = (if c_extra_space k \<noteq> 0 \<and> c_used k
                    then st\<lparr> total_extra_spaced_chunks := total_extra_spaced_chunks st + 1,
                             total_extra_size := add64 (total_extra_size st) (c_extra_space k) \<rparr>
                    else st)
          in if \<not> c_used k then
               bindR (getContigousChunkSize s c) (\<lambda>n.
                 stats_loop s cs
                   (st\<lparr> ms_free_chunks := ms_free_chunks st + 1,
                        ms_free_chunks_size := add64 (ms_free_chunks_size st) (c_size k),
                        max_cntgs_free_chunks_size :=
                          (if max_cntgs_free_chunks_size st < n then n
                           else max_cntgs_free_chunks_size st) \<rparr>))
             else
               stats_loop s cs
                 (st\<lparr> occupied_chunks := occupied_chunks st + 1,
                      occupied_size := add64 (occupied_size st) (c_size k) \<rparr>)))"

definition get_stats ::
  "(nat \<Rightarrow> nat \<Rightarrow> nat) \<Rightarrow> bool \<Rightarrow> pool \<Rightarrow> (mem_stats \<times> pool) res" where
  "get_stats frag log_fragmentation_info s =
     (if log_fragmentation_info then
        bindR (stats_loop s (chunks_ordered s)
                 ((stats s)\<lparr> total_chunks := 0, total_size := header_bytes s,
                    occupied_chunks := 0, occupied_size := header_bytes s,
                    ms_free_chunks := 0, ms_free_chunks_size := 0,
                    max_cntgs_free_chunks_size := 0, total_extra_spaced_chunks := 0,
                    total_extra_size := 0, min_chunk_size := 0, max_chunk_size := 0 \<rparr>)) (\<lambda>st.
        let st = st\<lparr> fragmentation_percent :=
                       frag (max_cntgs_free_chunks_size st) (ms_free_chunks_size st) \<rparr> in
          Inr (st, s\<lparr> stats := st \<rparr>))
      else Inr (stats s, s))"

definition clear_stats :: "pool \<Rightarrow> pool" where
  "clear_stats = upd_stats (\<lambda>st. st\<lparr> num_allocs := 0, num_frees := 0,
     peak_bytes_in_use := ms_bytes_in_use st, largest_alloc_size := 0,
     fragmentation_percent := 0 \<rparr>)"

definition reset_peak_mem_stats :: "pool \<Rightarrow> pool" where
  "reset_peak_mem_stats = upd_stats (\<lambda>st. st\<lparr> peak_bytes_in_use := 0 \<rparr>)"

end
