(* ===== verification/Pool_Inv.thy ===== *)
theory Pool_Inv
  imports Pool_Life
begin

text \<open>
  The invariant of the pool: the chunks on the heap form one doubly linked list that tiles the
  pool's memory without gap or overlap, the hash map, the \<open>start\<close> and \<open>top\<close> pointers and the
  bins agree with that list. The invariant is stated for a list \<open>ids\<close> of chunk pointers in
  address order and a set \<open>X\<close> of chunks the operation holds in its hands: free, but in no bin.
\<close>

section \<open>Bin numbers\<close>

lemma log2_loop_acc: "log2_loop n r = r + log2_loop n 0"
proof (induction n arbitrary: r rule: less_induct)
  case (less n)
  show ?case
  proof (cases "n > 0")
    case True
    then have "n div 2 < n" by simp
    with less [of "n div 2" "r + 1"] less [of "n div 2" 1] True show ?thesis
      by (simp add: log2_loop.simps [of n r] log2_loop.simps [of n 0])
  next
    case False
    then show ?thesis by (simp add: log2_loop.simps)
  qed
qed

lemma log2_loop_bounds:
  "0 < n \<Longrightarrow> 0 < log2_loop n 0 \<and> 2 ^ (log2_loop n 0 - 1) \<le> n \<and> n < 2 ^ log2_loop n 0"
proof (induction n rule: less_induct)
  case (less n)
  let ?l = "log2_loop (n div 2) 0"
  have step: "log2_loop n 0 = Suc ?l"
    using less.prems log2_loop_acc [of "n div 2" 1] by (simp add: log2_loop.simps [of n 0])
  show ?case
  proof (cases "n = 1")
    case True
    then show ?thesis using step by (simp add: log2_loop.simps)
  next
    case False
    then have "0 < n div 2" "n div 2 < n" using less.prems by auto
    from less.IH [OF this(2) this(1)]
    have ih: "0 < ?l" "2 ^ (?l - 1) \<le> n div 2" "n div 2 < 2 ^ ?l" by auto
    then have p: "(2::nat) ^ ?l = 2 * 2 ^ (?l - 1)" by (cases ?l) auto
    have "2 * (n div 2) \<le> n" "n < 2 * (n div 2) + 2" by auto
    then have "2 ^ ?l \<le> n" "n < 2 * 2 ^ ?l" using ih p by linarith+
    then show ?thesis using step by simp
  qed
qed

lemma Log2FloorNonZero_bounds:
  assumes "0 < n" "n < u64_lim"
  shows "2 ^ Log2FloorNonZero n \<le> n \<and> n < 2 ^ (Log2FloorNonZero n + 1)"
proof -
  let ?l = "log2_loop n 0"
  have b: "0 < ?l" "2 ^ (?l - 1) \<le> n" "n < 2 ^ ?l" using log2_loop_bounds [OF assms(1)] by auto
  then have "(2::nat) ^ (?l - 1) < 2 ^ 64" using assms(2) by (simp add: u64_lim_def)
  then have "?l - 1 < 64" by (rule power_less_imp_less_exp [rotated]) simp
  then have "?l < u64_lim" by (simp add: u64_lim_def)
  then have "Log2FloorNonZero n = ?l - 1" using b by (simp add: Log2FloorNonZero_def sub64_exact)
  then show ?thesis using b by simp
qed

lemma Log2FloorNonZero_unique:
  assumes "2 ^ k \<le> n" "n < 2 ^ (k + 1)" "n < u64_lim"
  shows "Log2FloorNonZero n = k"
proof -
  have "0 < n" using assms(1) by (cases n) simp_all
  from Log2FloorNonZero_bounds [OF this assms(3)]
  have "(2::nat) ^ Log2FloorNonZero n < 2 ^ (k + 1)" "(2::nat) ^ k < 2 ^ (Log2FloorNonZero n + 1)"
    using assms by linarith+
  then have "Log2FloorNonZero n < k + 1" "k < Log2FloorNonZero n + 1"
    by (simp_all only: power_strict_increasing_iff one_less_numeral_iff semiring_norm)
  then show ?thesis by simp
qed

lemma Log2FloorNonZero_mono:
  assumes "0 < m" "m \<le> n" "n < u64_lim"
  shows "Log2FloorNonZero m \<le> Log2FloorNonZero n"
proof -
  have "(2::nat) ^ Log2FloorNonZero m < 2 ^ (Log2FloorNonZero n + 1)"
    using Log2FloorNonZero_bounds [of m] Log2FloorNonZero_bounds [of n] assms by linarith
  then have "Log2FloorNonZero m < Log2FloorNonZero n + 1"
    by (simp only: power_strict_increasing_iff one_less_numeral_iff semiring_norm)
  then show ?thesis by simp
qed

lemma kNumBins_pos [simp]: "0 < kNumBins"
  by (simp add: kNumBins_def)

lemma bin_index_for_less [simp]: "bin_index_for a b n < kNumBins"
  by (simp add: bin_index_for_def Let_def kNumBins_def)

lemma bin_index_for_valid [simp]:
  "bin_index_for a b n \<noteq> kInvalidBinNum" "kInvalidBinNum \<noteq> bin_index_for a b n"
proof -
  have "kNumBins < kInvalidBinNum" by (simp add: kNumBins_def kInvalidBinNum_def u64_lim_def)
  then show "bin_index_for a b n \<noteq> kInvalidBinNum" "kInvalidBinNum \<noteq> bin_index_for a b n"
    using bin_index_for_less [of a b n] by (metis less_asym)+
qed

text \<open>A larger request never maps to a smaller bin, so the search may start at its own bin.\<close>

lemma bin_index_for_mono:
  assumes "min_size = 2 ^ b" "m \<le> n" "n < u64_lim" "min_size < u64_lim"
  shows "bin_index_for min_size b m \<le> bin_index_for min_size b n"
proof -
  let ?v = "\<lambda>x. max x min_size div 2 ^ b"
  have "2 ^ b div 2 ^ b \<le> ?v m" using assms(1) by (intro div_le_mono) simp
  then have "0 < ?v m" by simp
  moreover have "?v m \<le> ?v n" using assms(2) by (intro div_le_mono) simp
  moreover have "?v n < u64_lim"
    using assms(3,4) by (meson div_le_dividend le_less_trans max_less_iff_conj)
  ultimately show ?thesis
    using Log2FloorNonZero_mono [of "?v m" "?v n"] by (auto simp: bin_index_for_def Let_def min_def)
qed

section \<open>The order inside a bin\<close>

lemma key_less_irrefl [simp]: "\<not> key_less a a"
  by (simp add: key_less_def)

lemma key_less_trans: "key_less a b \<Longrightarrow> key_less b c \<Longrightarrow> key_less a c"
  by (auto simp: key_less_def split: if_splits)

lemma key_less_total: "key_less a b \<or> a = b \<or> key_less b a"
  by (auto simp: key_less_def prod_eq_iff split: if_splits)

definition bin_sorted :: "(cptr \<Rightarrow> chunk option) \<Rightarrow> cptr list \<Rightarrow> bool" where
  "bin_sorted h b \<longleftrightarrow> sorted_wrt (\<lambda>x y. key_less (chunk_key h x) (chunk_key h y)) b"

lemma bin_sorted_distinct: "bin_sorted h b \<Longrightarrow> distinct b"
  unfolding bin_sorted_def by (induction b) auto

lemma bin_insert_set:
  "(\<And>x. x \<in> set b \<Longrightarrow> chunk_key h x \<noteq> chunk_key h c) \<Longrightarrow>
   set (bin_insert h c b) = insert c (set b)"
proof (induction b)
  case (Cons x xs)
  have ne: "chunk_key h x \<noteq> chunk_key h c" using Cons.prems [of x] by simp
  have ih: "set (bin_insert h c xs) = insert c (set xs)"
    using Cons.prems by (intro Cons.IH) simp
  show ?case using ne ih key_less_total [of "chunk_key h c" "chunk_key h x"] by auto
qed simp

lemma bin_insert_subset: "set (bin_insert h c b) \<subseteq> insert c (set b)"
  by (induction b) auto

lemma bin_insert_sorted: "bin_sorted h b \<Longrightarrow> bin_sorted h (bin_insert h c b)"
  unfolding bin_sorted_def
proof (induction b)
  case (Cons x xs)
  then show ?case
    using bin_insert_subset [of h c xs] by (auto dest: key_less_trans)
qed simp

lemma bin_sorted_cong:
  "(\<And>x. x \<in> set b \<Longrightarrow> chunk_key h' x = chunk_key h x) \<Longrightarrow> bin_sorted h' b = bin_sorted h b"
  unfolding bin_sorted_def by (induction b) auto

lemma bin_insert_cong:
  "(\<And>x. x \<in> insert c (set b) \<Longrightarrow> chunk_key h' x = chunk_key h x) \<Longrightarrow>
   bin_insert h' c b = bin_insert h c b"
  by (induction b) auto

section \<open>The chunk list\<close>

text \<open>
  \<open>seg h p a cs nx e\<close>: the chunks \<open>cs\<close> are linked, the first one's \<open>prev\<close> is \<open>p\<close> and the last
  one's \<open>next\<close> is \<open>nx\<close>, and they cover the addresses from \<open>a\<close> to \<open>e\<close> one after the other.
\<close>

fun seg :: "(cptr \<Rightarrow> chunk option) \<Rightarrow> cptr \<Rightarrow> nat \<Rightarrow> cptr list \<Rightarrow> cptr \<Rightarrow> nat \<Rightarrow> bool" where
  "seg h p a [] nx e \<longleftrightarrow> a = e"
| "seg h p a (c # cs) nx e \<longleftrightarrow>
     (case h c of None \<Rightarrow> False
      | Some k \<Rightarrow> c \<noteq> 0 \<and> c_prev k = p \<and> c_memptr k = a \<and> 0 < c_size k \<and>
          c_next k = (if cs = [] then nx else hd cs) \<and> seg h c (a + c_size k) cs nx e)"

lemma seg_split:
  "seg h p a (xs @ c # ys) nx e \<longleftrightarrow>
   (\<exists>k. h c = Some k \<and> c \<noteq> 0 \<and> seg h p a xs c (c_memptr k) \<and>
        c_prev k = (if xs = [] then p else last xs) \<and> 0 < c_size k \<and>
        c_next k = (if ys = [] then nx else hd ys) \<and>
        seg h c (c_memptr k + c_size k) ys nx e)"
proof (induction xs arbitrary: p a)
  case Nil
  then show ?case by (auto split: option.splits)
next
  case (Cons x xs)
  show ?case
  proof (cases "h x")
    case (Some k)
    then show ?thesis using Cons [of x "a + c_size k"] by (cases xs) auto
  qed simp
qed

lemma seg_frame: "(\<And>c. c \<in> set cs \<Longrightarrow> h' c = h c) \<Longrightarrow> seg h' p a cs nx e = seg h p a cs nx e"
  by (induction cs arbitrary: p a) (auto split: option.splits)

lemma seg_le: "seg h p a cs nx e \<Longrightarrow> a \<le> e"
  by (induction cs arbitrary: p a) (auto split: option.splits dest: add_leD1)

lemma seg_in:
  "seg h p a cs nx e \<Longrightarrow> c \<in> set cs \<Longrightarrow>
   \<exists>k. h c = Some k \<and> c \<noteq> 0 \<and> 0 < c_size k \<and> a \<le> c_memptr k \<and> c_memptr k + c_size k \<le> e"
proof (induction cs arbitrary: p a)
  case (Cons x xs)
  then obtain k where k: "h x = Some k" "x \<noteq> 0" "0 < c_size k" "c_memptr k = a"
    and s: "seg h x (a + c_size k) xs nx e" by (auto split: option.splits)
  show ?case
  proof (cases "c = x")
    case True
    then show ?thesis using k seg_le [OF s] by auto
  next
    case False
    then show ?thesis using Cons.IH [OF s] Cons.prems by force
  qed
qed simp

lemma seg_sorted:
  "seg h p a cs nx e \<Longrightarrow>
   sorted_wrt (\<lambda>c d. c_memptr (the (h c)) + c_size (the (h c)) \<le> c_memptr (the (h d))) cs"
proof (induction cs arbitrary: p a)
  case (Cons x xs)
  then obtain k where k: "h x = Some k" "c_memptr k = a"
    and s: "seg h x (a + c_size k) xs nx e" by (auto split: option.splits)
  have "c_memptr (the (h x)) + c_size (the (h x)) \<le> c_memptr (the (h d))" if "d \<in> set xs" for d
    using seg_in [OF s that] k by auto
  then show ?case using Cons.IH [OF s] by simp
qed simp

lemma seg_ordered:
  assumes "seg h p a cs nx e" "c \<in> set cs" "d \<in> set cs" "c \<noteq> d"
    "h c = Some k" "h d = Some l"
  shows "c_memptr k + c_size k \<le> c_memptr l \<or> c_memptr l + c_size l \<le> c_memptr k"
proof -
  from assms(2,3) obtain i j where ij: "i < length cs" "j < length cs" "c = cs ! i" "d = cs ! j"
    by (auto simp: in_set_conv_nth)
  with assms(4) have "i < j \<or> j < i" by (metis linorder_neqE_nat)
  then show ?thesis
    using seg_sorted [OF assms(1)] ij assms(5,6) by (auto dest: sorted_wrt_nth_less)
qed

lemma seg_memptr_inj:
  assumes "seg h p a cs nx e" "c \<in> set cs" "d \<in> set cs" "h c = Some k" "h d = Some l"
    "c_memptr k = c_memptr l"
  shows "c = d"
proof (rule ccontr)
  assume "c \<noteq> d"
  then show False
    using seg_ordered [OF assms(1-3) _ assms(4,5)] seg_in [OF assms(1,2)] seg_in [OF assms(1,3)] assms
    by force
qed

lemma seg_distinct: "seg h p a cs nx e \<Longrightarrow> distinct cs"
proof (induction cs arbitrary: p a)
  case (Cons x xs)
  then obtain k where k: "h x = Some k" "c_memptr k = a" "0 < c_size k"
    and s: "seg h x (a + c_size k) xs nx e" by (auto split: option.splits)
  have "x \<notin> set xs" using seg_in [OF s, of x] k by auto
  then show ?case using Cons.IH [OF s] by simp
qed simp

text \<open>Changing the predecessor of the first chunk.\<close>

lemma seg_reprev:
  assumes "seg h p a ys nx e" "ys \<noteq> [] \<Longrightarrow> h' (hd ys) = Some ((the (h (hd ys)))\<lparr> c_prev := q \<rparr>)"
    "\<And>c. c \<in> set (tl ys) \<Longrightarrow> h' c = h c"
  shows "seg h' q a ys nx e"
proof (cases ys)
  case (Cons y zs)
  with assms obtain k where k: "h y = Some k" "y \<noteq> 0" "c_memptr k = a" "0 < c_size k"
     "c_next k = (if zs = [] then nx else hd zs)" "seg h y (a + c_size k) zs nx e"
    by (auto split: option.splits)
  have "seg h' y (a + c_size k) zs nx e"
    using k(6) seg_frame [of zs h' h] assms(3) Cons by simp
  then show ?thesis using k assms(2) Cons by simp
qed (use assms in simp)

end
