(* ===== verification/Pool_Steps.thy ===== *)
theory Pool_Steps
  imports Pool_Inv
begin

text \<open>
  The invariant \<open>pinv X ids s\<close> of the pool and one lemma for each of the steps its operations
  are made of: taking a chunk out of its bin, putting it in, marking it used or free,
  splitting and merging. Each says that the step succeeds, how the list of chunks changes and
  that nothing else does.
\<close>

section \<open>The invariant\<close>

definition cfg_ok :: "pool \<Rightarrow> bool" where
  "cfg_ok s \<longleftrightarrow> kMinAllocationSize s = 2 ^ kMinAllocationBits s \<and> kMinAllocationBits s < 64"

definition links_ok :: "cptr list \<Rightarrow> pool \<Rightarrow> bool" where
  "links_ok ids s \<longleftrightarrow>
     (case prealloc_pool s of
        Live_pool sp \<Rightarrow>
          ids \<noteq> [] \<and> pl_start sp = hd ids \<and> pl_top sp = last ids \<and>
          seg (chunk_heap s) 0 (pl_memptr sp) ids 0 (pl_end sp) \<and>
          0 < pl_memptr sp \<and> pl_end sp < u64_lim
      | _ \<Rightarrow> False) \<and>
     dom (chunk_heap s) = set ids \<and> (\<forall>c\<in>set ids. c < next_host s) \<and>
     distinct (map fst (chunks s)) \<and>
     (\<forall>a c. map_of (chunks s) a = Some c \<longleftrightarrow>
        (\<exists>k. chunk_heap s c = Some k \<and> c_memptr k = a))"

definition bins_ok :: "cptr set \<Rightarrow> pool \<Rightarrow> bool" where
  "bins_ok X s \<longleftrightarrow>
     length (bins s) = kNumBins \<and>
     (\<forall>i<kNumBins. bin_sorted (chunk_heap s) (bins s ! i) \<and>
        (\<forall>c. c \<in> set (bins s ! i) \<longleftrightarrow>
           (\<exists>k. chunk_heap s c = Some k \<and> \<not> c_used k \<and> c \<notin> X \<and> c_bin_index k = i)))"

definition flags_ok :: "cptr set \<Rightarrow> pool \<Rightarrow> bool" where
  "flags_ok X s \<longleftrightarrow>
     (\<forall>c k. chunk_heap s c = Some k \<longrightarrow>
        c_bin_index k = (if c_used k \<or> c \<in> X then kInvalidBinNum
                         else BinIndexForSize s (c_size k)) \<and>
        (\<not> c_used k \<longrightarrow> c_stream_uses k = [] \<and> c_event_count k = 0)) \<and>
     (\<forall>c\<in>X. \<exists>k. chunk_heap s c = Some k \<and> \<not> c_used k)"

definition pinv :: "cptr set \<Rightarrow> cptr list \<Rightarrow> pool \<Rightarrow> bool" where
  "pinv X ids s \<longleftrightarrow> cfg_ok s \<and> links_ok ids s \<and> bins_ok X s \<and> flags_ok X s"

text \<open>
  What the users of the pool can see of a chunk, the list of all chunks in address order, and
  the part of the state that is not the chunk structure.
\<close>

record block =
  b_id :: cptr
  b_addr :: nat
  b_size :: nat
  b_used :: bool
  b_extra :: nat
  b_stream :: nat
  b_assoc :: bool
  b_uses :: "nat list"
  b_events :: int

definition block_of :: "pool \<Rightarrow> cptr \<Rightarrow> block" where
  "block_of s c =
     (let k = the (chunk_heap s c) in
      \<lparr> b_id = c, b_addr = c_memptr k, b_size = c_size k, b_used = c_used k,
        b_extra = c_extra_space k, b_stream = c_stream k, b_assoc = c_associated_to_stream k,
        b_uses = c_stream_uses k, b_events = c_event_count k \<rparr>)"

definition blocks_of :: "pool \<Rightarrow> cptr list \<Rightarrow> block list" where
  "blocks_of s ids = map (block_of s) ids"

definition rest_of :: "pool \<Rightarrow> pool" where
  "rest_of s = s\<lparr> chunk_heap := (\<lambda>_. None), next_host := 0, chunks := [], bins := [],
     prealloc_pool := (case prealloc_pool s of
        Live_pool p \<Rightarrow> Live_pool (p\<lparr> pl_start := 0, pl_top := 0 \<rparr>) | q \<Rightarrow> q) \<rparr>"

section \<open>Basic consequences\<close>

lemma pinvD:
  assumes "pinv X ids s"
  shows "\<exists>sp. prealloc_pool s = Live_pool sp \<and> ids \<noteq> [] \<and> pl_start sp = hd ids \<and>
    pl_top sp = last ids \<and> seg (chunk_heap s) 0 (pl_memptr sp) ids 0 (pl_end sp) \<and>
    0 < pl_memptr sp \<and> pl_end sp < u64_lim"
  using assms unfolding pinv_def links_ok_def by (auto split: pool_ptr.splits)

lemma pinv_dom: "pinv X ids s \<Longrightarrow> dom (chunk_heap s) = set ids"
  by (simp add: pinv_def links_ok_def)

lemma pinv_next_host: "pinv X ids s \<Longrightarrow> c \<in> set ids \<Longrightarrow> c < next_host s"
  by (simp add: pinv_def links_ok_def)

lemma pinv_chunk:
  assumes "pinv X ids s" "c \<in> set ids"
  obtains k where "chunk_heap s c = Some k" "deref s c = Inr k" "c \<noteq> 0" "0 < c_size k"
    "0 < c_memptr k" "c_memptr k + c_size k < u64_lim"
proof -
  obtain sp :: simple_pool where sp: "seg (chunk_heap s) 0 (pl_memptr sp) ids 0 (pl_end sp)"
    "0 < pl_memptr sp" "pl_end sp < u64_lim" using pinvD [OF assms(1)] by auto
  from seg_in [OF sp(1) assms(2)] sp(2,3) that show ?thesis by (auto simp: deref_def)
qed

lemma pinv_heap_ids: "pinv X ids s \<Longrightarrow> chunk_heap s c = Some k \<Longrightarrow> c \<in> set ids"
  using pinv_dom by blast

lemma pinv_distinct: "pinv X ids s \<Longrightarrow> distinct ids"
  using pinvD seg_distinct by blast

lemma pinv_memptr_inj:
  assumes "pinv X ids s" "chunk_heap s c = Some k" "chunk_heap s d = Some l"
    "c_memptr k = c_memptr l"
  shows "c = d"
proof -
  obtain sp :: simple_pool where "seg (chunk_heap s) 0 (pl_memptr sp) ids 0 (pl_end sp)"
    using pinvD [OF assms(1)] by auto
  then show ?thesis
    using seg_memptr_inj pinv_heap_ids [OF assms(1)] assms(2-4) by metis
qed

lemma pinv_key_inj:
  assumes "pinv X ids s" "c \<in> set ids" "d \<in> set ids" "c \<noteq> d"
  shows "chunk_key (chunk_heap s) c \<noteq> chunk_key (chunk_heap s) d"
proof -
  obtain k where k: "chunk_heap s c = Some k" using pinv_chunk [OF assms(1,2)] by metis
  obtain l where l: "chunk_heap s d = Some l" using pinv_chunk [OF assms(1,3)] by metis
  show ?thesis using pinv_memptr_inj [OF assms(1) k l] assms(4) by (auto simp: chunk_key_def k l)
qed

lemma pinv_lookup:
  "pinv X ids s \<Longrightarrow> map_of (chunks s) a = Some c \<longleftrightarrow> (\<exists>k. chunk_heap s c = Some k \<and> c_memptr k = a)"
  by (simp add: pinv_def links_ok_def)

lemma block_of_simps [simp]:
  "chunk_heap s c = Some k \<Longrightarrow> b_addr (block_of s c) = c_memptr k"
  "chunk_heap s c = Some k \<Longrightarrow> b_size (block_of s c) = c_size k"
  "chunk_heap s c = Some k \<Longrightarrow> b_used (block_of s c) = c_used k"
  "chunk_heap s c = Some k \<Longrightarrow> b_uses (block_of s c) = c_stream_uses k"
  "chunk_heap s c = Some k \<Longrightarrow> b_events (block_of s c) = c_event_count k"
  "b_id (block_of s c) = c"
  by (simp_all add: block_of_def Let_def)

lemma blocks_of_cong:
  "(\<And>c. c \<in> set ids \<Longrightarrow> block_of s' c = block_of s c) \<Longrightarrow> blocks_of s' ids = blocks_of s ids"
  by (simp add: blocks_of_def)

text \<open>The fields that only count, and those of other components, are not part of the invariant.\<close>

lemma pinv_fields [simp]:
  "pinv X ids (s\<lparr> stats := st \<rparr>) = pinv X ids s"
  "pinv X ids (s\<lparr> bytes_in_use := n \<rparr>) = pinv X ids s"
  "pinv X ids (s\<lparr> chunk_count := n \<rparr>) = pinv X ids s"
  "pinv X ids (s\<lparr> high_memory_allocated := b \<rparr>) = pinv X ids s"
  "pinv X ids (s\<lparr> defragmenter_state_started := b \<rparr>) = pinv X ids s"
  "pinv X ids (s\<lparr> small_allocs := sa \<rparr>) = pinv X ids s"
  "pinv X ids (s\<lparr> hpu_events := es \<rparr>) = pinv X ids s"
  "pinv X ids (s\<lparr> dev_events := ec \<rparr>) = pinv X ids s"
  by (simp_all add: pinv_def cfg_ok_def links_ok_def bins_ok_def flags_ok_def BinIndexForSize_def
      cong: pool_ptr.case_cong)

lemma block_of_fields [simp]:
  "block_of (s\<lparr> stats := st \<rparr>) = block_of s"
  "block_of (s\<lparr> bytes_in_use := n \<rparr>) = block_of s"
  "block_of (s\<lparr> chunk_count := n \<rparr>) = block_of s"
  "block_of (s\<lparr> high_memory_allocated := b \<rparr>) = block_of s"
  "block_of (s\<lparr> defragmenter_state_started := b \<rparr>) = block_of s"
  "block_of (s\<lparr> small_allocs := sa \<rparr>) = block_of s"
  "block_of (s\<lparr> hpu_events := es \<rparr>) = block_of s"
  "block_of (s\<lparr> dev_events := ec \<rparr>) = block_of s"
  by (simp_all add: block_of_def fun_eq_iff)

section \<open>Changing one chunk in place\<close>

text \<open>An update that keeps the links, the address and the size keeps the list.\<close>

definition same_geom :: "chunk \<Rightarrow> chunk \<Rightarrow> bool" where
  "same_geom k k' \<longleftrightarrow> c_prev k' = c_prev k \<and> c_next k' = c_next k \<and>
     c_memptr k' = c_memptr k \<and> c_size k' = c_size k"

lemma seg_upd_geom:
  "h c = Some k \<Longrightarrow> same_geom k k' \<Longrightarrow> seg (h(c \<mapsto> k')) p a cs nx e = seg h p a cs nx e"
proof (induction cs arbitrary: p a)
  case (Cons x xs)
  then show ?case by (cases "x = c") (auto simp: same_geom_def split: option.splits)
qed simp

lemma chunk_key_upd_geom:
  "h c = Some k \<Longrightarrow> same_geom k k' \<Longrightarrow> chunk_key (h(c \<mapsto> k')) = chunk_key h"
  by (auto simp: chunk_key_def same_geom_def fun_eq_iff)

lemma links_ok_upd_geom:
  assumes "chunk_heap s c = Some k" "same_geom k k'"
  shows "links_ok ids (s\<lparr> chunk_heap := (chunk_heap s)(c \<mapsto> k') \<rparr>) = links_ok ids s"
proof -
  have "dom ((chunk_heap s)(c \<mapsto> k')) = dom (chunk_heap s)" using assms(1) by auto
  moreover have "(\<exists>l. ((chunk_heap s)(c \<mapsto> k')) d = Some l \<and> c_memptr l = a) =
      (\<exists>l. chunk_heap s d = Some l \<and> c_memptr l = a)" for d a
    using assms by (auto simp: same_geom_def)
  ultimately show ?thesis
    unfolding links_ok_def
    by (simp add: seg_upd_geom [of "chunk_heap s" c k k', OF assms] split: pool_ptr.splits
        del: fun_upd_apply)
qed

lemma BinIndexForSize_fields [simp]:
  "BinIndexForSize (s\<lparr> chunk_heap := h \<rparr>) = BinIndexForSize s"
  "BinIndexForSize (s\<lparr> bins := b \<rparr>) = BinIndexForSize s"
  "BinIndexForSize (s\<lparr> chunks := cs \<rparr>) = BinIndexForSize s"
  "BinIndexForSize (s\<lparr> next_host := n \<rparr>) = BinIndexForSize s"
  "BinIndexForSize (s\<lparr> prealloc_pool := p \<rparr>) = BinIndexForSize s"
  by (simp_all add: BinIndexForSize_def fun_eq_iff)

text \<open>The general step: one chunk changes its flags, the bins change with it.\<close>

lemma pinv_upd:
  assumes inv: "pinv X ids s" and k: "chunk_heap s c = Some k" and geom: "same_geom k k'"
    and X': "X' - {c} = X - {c}"
    and bi: "c_bin_index k' = (if c_used k' \<or> c \<in> X' then kInvalidBinNum
                               else BinIndexForSize s (c_size k))"
    and ev: "\<not> c_used k' \<Longrightarrow> c_stream_uses k' = [] \<and> c_event_count k' = 0"
    and cX: "c \<in> X' \<Longrightarrow> \<not> c_used k'"
    and bl: "length bs = kNumBins"
    and bo: "\<And>i. i < kNumBins \<Longrightarrow> bin_sorted (chunk_heap s) (bs ! i) \<and>
        (\<forall>d. d \<in> set (bs ! i) \<longleftrightarrow>
          (if d = c then \<not> c_used k' \<and> c \<notin> X' \<and> i = BinIndexForSize s (c_size k)
           else d \<in> set (bins s ! i)))"
  shows "pinv X' ids (s\<lparr> chunk_heap := (chunk_heap s)(c \<mapsto> k'), bins := bs \<rparr>)"
proof -
  let ?s = "s\<lparr> chunk_heap := (chunk_heap s)(c \<mapsto> k'), bins := bs \<rparr>"
  have eqX: "d \<in> X' \<longleftrightarrow> d \<in> X" if "d \<noteq> c" for d using X' that by blast
  have "links_ok ids (s\<lparr> chunk_heap := (chunk_heap s)(c \<mapsto> k') \<rparr>)"
    using inv by (simp add: links_ok_upd_geom [OF k geom] pinv_def)
  then have l: "links_ok ids ?s" by (simp add: links_ok_def split: pool_ptr.splits)
  have f: "flags_ok X' ?s"
    using inv k bi ev cX eqX geom
    by (auto simp: pinv_def flags_ok_def same_geom_def)
  have b: "bins_ok X' ?s"
    unfolding bins_ok_def
  proof (intro conjI allI impI)
    fix i assume i: "i < kNumBins"
    show "bin_sorted (chunk_heap ?s) (bins ?s ! i)"
      using bo [OF i] bin_sorted_cong [of "bs ! i" "(chunk_heap s)(c \<mapsto> k')" "chunk_heap s"]
      by (simp add: chunk_key_upd_geom [of "chunk_heap s" c k k', OF k geom])
    fix d
    have old: "d \<in> set (bins s ! i) \<longleftrightarrow>
        (\<exists>k. chunk_heap s d = Some k \<and> \<not> c_used k \<and> d \<notin> X \<and> c_bin_index k = i)"
      using inv i by (simp add: pinv_def bins_ok_def)
    show "d \<in> set (bins ?s ! i) \<longleftrightarrow>
        (\<exists>k. chunk_heap ?s d = Some k \<and> \<not> c_used k \<and> d \<notin> X' \<and> c_bin_index k = i)"
      using bo [OF i] old bi eqX by auto
  qed (simp add: bl)
  show ?thesis using inv l f b by (simp add: pinv_def cfg_ok_def)
qed

section \<open>Taking chunks out of the bins and putting them in\<close>

lemma pinv_bins:
  assumes "pinv X ids s" "i < kNumBins"
  shows "i < length (bins s)" "bin_sorted (chunk_heap s) (bins s ! i)" "distinct (bins s ! i)"
    "c \<in> set (bins s ! i) \<longleftrightarrow>
       (\<exists>k. chunk_heap s c = Some k \<and> \<not> c_used k \<and> c \<notin> X \<and> c_bin_index k = i)"
  using assms bin_sorted_distinct by (auto simp: pinv_def bins_ok_def)

lemma pinv_flags:
  assumes "pinv X ids s" "chunk_heap s c = Some k"
  shows "c_bin_index k = (if c_used k \<or> c \<in> X then kInvalidBinNum
                          else BinIndexForSize s (c_size k))"
    "\<not> c_used k \<Longrightarrow> c_stream_uses k = [] \<and> c_event_count k = 0"
    "c \<in> X \<Longrightarrow> \<not> c_used k"
  using assms by (auto simp: pinv_def flags_ok_def)

lemma BinIndexForSize_less [simp]: "BinIndexForSize s n < kNumBins"
  by (simp add: BinIndexForSize_def)

lemma BinIndexForSize_valid [simp]:
  "BinIndexForSize s n \<noteq> kInvalidBinNum" "kInvalidBinNum \<noteq> BinIndexForSize s n"
  by (simp_all add: BinIndexForSize_def)

lemma pinv_X_heap: "pinv X ids s \<Longrightarrow> c \<in> X \<Longrightarrow> \<exists>k. chunk_heap s c = Some k \<and> \<not> c_used k"
  by (auto simp: pinv_def flags_ok_def)

text \<open>Steps that only touch bins and bin indices.\<close>

definition bin_step :: "pool \<Rightarrow> pool \<Rightarrow> bool" where
  "bin_step s s' \<longleftrightarrow> rest_of s' = rest_of s \<and> (\<forall>c. block_of s' c = block_of s c) \<and>
     dom (chunk_heap s') = dom (chunk_heap s) \<and> next_host s' = next_host s \<and>
     prealloc_pool s' = prealloc_pool s"

lemma bin_step_refl [simp]: "bin_step s s"
  by (simp add: bin_step_def)

lemma bin_step_trans: "bin_step s t \<Longrightarrow> bin_step t u \<Longrightarrow> bin_step s u"
  by (simp add: bin_step_def)

lemma bin_step_upd:
  "chunk_heap s c = Some k \<Longrightarrow>
   bin_step s (s\<lparr> chunk_heap := (chunk_heap s)(c \<mapsto> k\<lparr> c_bin_index := i \<rparr>), bins := bs \<rparr>)"
  by (auto simp: bin_step_def rest_of_def block_of_def Let_def)

lemma bin_step_blocks: "bin_step s s' \<Longrightarrow> blocks_of s' ids = blocks_of s ids"
  by (simp add: bin_step_def blocks_of_def)

lemma Insert_step:
  assumes inv: "pinv X ids s" and c: "c \<in> X"
  shows "\<exists>s'. InsertFreeChunkIntoBin c s = Inr s' \<and> pinv (X - {c}) ids s' \<and> bin_step s s'"
proof -
  obtain k where k: "chunk_heap s c = Some k" "\<not> c_used k" using pinv_X_heap [OF assms] by auto
  let ?i = "BinIndexForSize s (c_size k)"
  let ?k = "k\<lparr> c_bin_index := ?i \<rparr>"
  let ?h = "(chunk_heap s)(c \<mapsto> ?k)"
  let ?bs = "(bins s)[?i := bin_insert ?h c (bins s ! ?i)]"
  have geom: "same_geom k ?k" by (simp add: same_geom_def)
  have bi: "c_bin_index k = kInvalidBinNum" using pinv_flags(1) [OF inv k(1)] c by simp
  have il: "?i < length (bins s)" using pinv_bins(1) [OF inv, of ?i] by simp
  have run: "InsertFreeChunkIntoBin c s = Inr (s\<lparr> chunk_heap := ?h, bins := ?bs \<rparr>)"
    using k bi il by (simp add: InsertFreeChunkIntoBin_def deref_def upd_chunk_def bin_at_def Let_def)
  have ck: "chunk_key ?h = chunk_key (chunk_heap s)"
    using chunk_key_upd_geom [of "chunk_heap s" c k ?k, OF k(1) geom] .
  have bc: "bin_insert ?h c (bins s ! ?i) = bin_insert (chunk_heap s) c (bins s ! ?i)"
    by (rule bin_insert_cong) (simp only: ck)
  have keys: "chunk_key (chunk_heap s) d \<noteq> chunk_key (chunk_heap s) c"
    if "d \<in> set (bins s ! ?i)" for d
  proof -
    from that pinv_bins(4) [OF inv, of ?i d] obtain l where l: "chunk_heap s d = Some l" "d \<notin> X"
      by auto
    then show ?thesis using pinv_key_inj [OF inv, of d c] pinv_heap_ids [OF inv] k(1) c by blast
  qed
  have "pinv (X - {c}) ids (s\<lparr> chunk_heap := ?h, bins := ?bs \<rparr>)"
  proof (rule pinv_upd [OF inv k(1) geom])
    fix i assume i: "i < kNumBins"
    show "bin_sorted (chunk_heap s) (?bs ! i) \<and> (\<forall>d. d \<in> set (?bs ! i) \<longleftrightarrow>
        (if d = c then \<not> c_used ?k \<and> c \<notin> X - {c} \<and> i = ?i else d \<in> set (bins s ! i)))"
    proof (cases "i = ?i")
      case True
      then show ?thesis
        using pinv_bins(2) [OF inv i] bin_insert_sorted bin_insert_set [of "bins s ! ?i", OF keys] il k
        by (auto simp: bc)
    next
      case False
      moreover have "c \<notin> set (bins s ! i)" using pinv_bins(4) [OF inv i] c by auto
      ultimately show ?thesis using pinv_bins(2) [OF inv i] by auto
    qed
  qed (use inv k pinv_flags [OF inv k(1)] in \<open>auto simp: pinv_def bins_ok_def\<close>)
  then show ?thesis using run bin_step_upd [OF k(1)] by blast
qed

text \<open>Inserting a chunk that is used, or already in a bin, does nothing.\<close>

lemma Insert_skip:
  assumes "pinv X ids s" "c \<in> set ids" "c \<notin> X"
  shows "InsertFreeChunkIntoBin c s = Inr s"
proof -
  obtain k where k: "chunk_heap s c = Some k" "deref s c = Inr k" by (rule pinv_chunk [OF assms(1,2)])
  then show ?thesis
    using pinv_flags(1) [OF assms(1) k(1)] assms(3) by (auto simp: InsertFreeChunkIntoBin_def)
qed

text \<open>Both ways of taking a chunk out of its bin do the same.\<close>

lemma bin_erase_eq_remove1:
  assumes "pinv X ids s" "c \<in> set ids" "i < kNumBins"
  shows "bin_erase (chunk_heap s) c (bins s ! i) = remove1 c (bins s ! i)"
proof -
  have ne: "chunk_key (chunk_heap s) d = chunk_key (chunk_heap s) c \<longleftrightarrow> d = c"
    if "d \<in> set (bins s ! i)" for d
  proof -
    from that pinv_bins(4) [OF assms(1,3), of d] obtain l where "chunk_heap s d = Some l" by auto
    then show ?thesis using pinv_key_inj [OF assms(1) _ assms(2)] pinv_heap_ids [OF assms(1)] by blast
  qed
  have "remove1 c (bins s ! i) = filter (\<lambda>d. d \<noteq> c) (bins s ! i)"
    using pinv_bins(3) [OF assms(1,3)] by (simp add: distinct_remove1_removeAll removeAll_filter_not_eq
        eq_commute)
  also have "\<dots> = filter (\<lambda>d. chunk_key (chunk_heap s) d \<noteq> chunk_key (chunk_heap s) c) (bins s ! i)"
    by (rule filter_cong) (simp_all add: ne)
  finally show ?thesis by (simp add: bin_erase_def)
qed

lemma remove_step:
  assumes inv: "pinv X ids s" and k: "chunk_heap s c = Some k" "\<not> c_used k" "c \<notin> X"
  defines "s' \<equiv> s\<lparr> chunk_heap := (chunk_heap s)(c \<mapsto> k\<lparr> c_bin_index := kInvalidBinNum \<rparr>),
     bins := (bins s)[c_bin_index k := remove1 c (bins s ! c_bin_index k)] \<rparr>"
  shows "pinv (insert c X) ids s'"
  unfolding s'_def
proof (rule pinv_upd [OF inv k(1)])
  fix i assume i: "i < kNumBins"
  let ?j = "c_bin_index k"
  have j: "?j = BinIndexForSize s (c_size k)" using pinv_flags(1) [OF inv k(1)] k by simp
  have jl: "?j < length (bins s)" using pinv_bins(1) [OF inv, of ?j] j by simp
  let ?bs = "(bins s)[?j := remove1 c (bins s ! ?j)]"
  have srt: "bin_sorted (chunk_heap s) (remove1 c (bins s ! i))"
    using pinv_bins(2,3) [OF inv i] unfolding bin_sorted_def
    by (simp add: distinct_remove1_removeAll removeAll_filter_not_eq sorted_wrt_filter)
  show "bin_sorted (chunk_heap s) (?bs ! i) \<and> (\<forall>d. d \<in> set (?bs ! i) \<longleftrightarrow>
      (if d = c then \<not> c_used (k\<lparr> c_bin_index := kInvalidBinNum \<rparr>) \<and> c \<notin> insert c X \<and>
         i = BinIndexForSize s (c_size k)
       else d \<in> set (bins s ! i)))"
  proof (cases "i = ?j")
    case True
    then show ?thesis using srt pinv_bins(3) [OF inv i] jl by auto
  next
    case False
    moreover have "c \<notin> set (bins s ! i)" using pinv_bins(4) [OF inv i, of c] k False by auto
    ultimately show ?thesis using pinv_bins(2) [OF inv i] by auto
  qed
qed (use inv k pinv_flags [OF inv k(1)] in \<open>auto simp: pinv_def bins_ok_def same_geom_def\<close>)

lemma Remove_step:
  assumes inv: "pinv X ids s" and c: "c \<in> set ids" "c \<notin> X" "\<not> b_used (block_of s c)"
  shows "\<exists>s'. RemoveFreeChunkFromBin c s = Inr s' \<and> pinv (insert c X) ids s' \<and> bin_step s s'"
proof -
  obtain k where k: "chunk_heap s c = Some k" "deref s c = Inr k" by (rule pinv_chunk [OF inv c(1)])
  with c have u: "\<not> c_used k" by simp
  then have j: "c_bin_index k = BinIndexForSize s (c_size k)" using pinv_flags(1) [OF inv k(1)] c by simp
  then have "c_bin_index k < length (bins s)" using pinv_bins(1) [OF inv, of "c_bin_index k"] by simp
  then have "RemoveFreeChunkFromBin c s =
     Inr (s\<lparr> chunk_heap := (chunk_heap s)(c \<mapsto> k\<lparr> c_bin_index := kInvalidBinNum \<rparr>),
             bins := (bins s)[c_bin_index k := remove1 c (bins s ! c_bin_index k)] \<rparr>)"
    using k u j bin_erase_eq_remove1 [OF inv c(1), of "c_bin_index k"]
    by (simp add: RemoveFreeChunkFromBin_def upd_chunk_def deref_def bin_at_def)
  then show ?thesis using remove_step [OF inv k(1) u c(2)] bin_step_upd [OF k(1)] by blast
qed

lemma Remove_skip:
  assumes inv: "pinv X ids s" and c: "c \<in> set ids" "c \<in> X \<or> b_used (block_of s c)"
  shows "RemoveFreeChunkFromBin c s = Inr s"
proof -
  obtain k where k: "chunk_heap s c = Some k" "deref s c = Inr k" by (rule pinv_chunk [OF inv c(1)])
  then show ?thesis
    using pinv_flags(1) [OF inv k(1)] c(2) by (auto simp: RemoveFreeChunkFromBin_def)
qed

lemma RemoveIter_step:
  assumes inv: "pinv X ids s" and c: "i < kNumBins" "c \<in> set (bins s ! i)"
  shows "\<exists>s'. RemoveFreeChunkIterFromBin i c s = Inr s' \<and> pinv (insert c X) ids s' \<and> bin_step s s'"
proof -
  obtain k where k: "chunk_heap s c = Some k" "\<not> c_used k" "c \<notin> X" "c_bin_index k = i"
    using pinv_bins(4) [OF inv c(1), of c] c(2) by auto
  have "i \<noteq> kInvalidBinNum" using pinv_flags(1) [OF inv k(1)] k by auto
  then have "RemoveFreeChunkIterFromBin i c s =
     Inr (s\<lparr> chunk_heap := (chunk_heap s)(c \<mapsto> k\<lparr> c_bin_index := kInvalidBinNum \<rparr>),
             bins := (bins s)[c_bin_index k := remove1 c (bins s ! c_bin_index k)] \<rparr>)"
    using k pinv_bins(1) [OF inv c(1)]
    by (simp add: RemoveFreeChunkIterFromBin_def upd_chunk_def deref_def bin_at_def)
  then show ?thesis using remove_step [OF inv k(1-3)] bin_step_upd [OF k(1)] by blast
qed

end
