(* ===== verification/Pool_Split_Merge.thy ===== *)
theory Pool_Split_Merge
  imports Pool_Steps
begin

text \<open>
  The steps that change the list of chunks: marking a chunk used or free, splitting a chunk in
  two and merging two neighbours.
\<close>

section \<open>Marking\<close>

lemma pool_bins_id: "s\<lparr> chunk_heap := h, bins := bins s \<rparr> = s\<lparr> chunk_heap := h \<rparr>"
  by (cases s) simp

text \<open>A chunk that is in no bin changes its flags and stays out of the bins.\<close>

lemma pinv_flag_upd:
  assumes inv: "pinv X ids s" and k: "chunk_heap s c = Some k" and geom: "same_geom k k'"
    and out: "c_used k \<or> c \<in> X" and X': "X' - {c} = X - {c}" "c \<in> X' \<longleftrightarrow> \<not> c_used k'"
    and bi: "c_bin_index k' = kInvalidBinNum"
    and ev: "\<not> c_used k' \<Longrightarrow> c_stream_uses k' = [] \<and> c_event_count k' = 0"
  shows "pinv X' ids (s\<lparr> chunk_heap := (chunk_heap s)(c \<mapsto> k') \<rparr>)"
proof -
  have "pinv X' ids (s\<lparr> chunk_heap := (chunk_heap s)(c \<mapsto> k'), bins := bins s \<rparr>)"
  proof (rule pinv_upd [OF inv k geom X'(1)])
    fix i assume i: "i < kNumBins"
    have "c \<notin> set (bins s ! i)" using pinv_bins(4) [OF inv i, of c] k out by auto
    then show "bin_sorted (chunk_heap s) (bins s ! i) \<and> (\<forall>d. d \<in> set (bins s ! i) \<longleftrightarrow>
        (if d = c then \<not> c_used k' \<and> c \<notin> X' \<and> i = BinIndexForSize s (c_size k)
         else d \<in> set (bins s ! i)))"
      using pinv_bins(2) [OF inv i] X'(2) by auto
  qed (use inv X' bi ev in \<open>auto simp: pinv_def bins_ok_def\<close>)
  then show ?thesis by (simp add: pool_bins_id)
qed

lemma block_of_upd:
  "block_of (s\<lparr> chunk_heap := (chunk_heap s)(c \<mapsto> k') \<rparr>) d =
     (if d = c then \<lparr> b_id = c, b_addr = c_memptr k', b_size = c_size k', b_used = c_used k',
        b_extra = c_extra_space k', b_stream = c_stream k', b_assoc = c_associated_to_stream k',
        b_uses = c_stream_uses k', b_events = c_event_count k' \<rparr>
      else block_of s d)"
  by (simp add: block_of_def Let_def)

lemma rest_of_heap [simp]: "rest_of (s\<lparr> chunk_heap := h \<rparr>) = rest_of s"
  by (simp add: rest_of_def)

section \<open>Splitting\<close>

text \<open>The heap after a split: \<open>n\<close> is the new chunk, \<open>c\<close> the shrunk one, \<open>y\<close> the one after it.\<close>

definition split_heap ::
  "(cptr \<Rightarrow> chunk option) \<Rightarrow> cptr \<Rightarrow> chunk \<Rightarrow> cptr \<Rightarrow> chunk \<Rightarrow> nat \<Rightarrow> cptr \<Rightarrow> chunk option" where
  "split_heap h c k n kn sz d =
     (if d = n then Some kn
      else if d = c then Some (k\<lparr> c_size := sz, c_next := n \<rparr>)
      else if d = c_next k then map_option (\<lambda>l. l\<lparr> c_prev := n \<rparr>) (h d) else h d)"

definition split_new :: "cptr \<Rightarrow> chunk \<Rightarrow> nat \<Rightarrow> chunk" where
  "split_new c k sz = Chunk_new\<lparr> c_memptr := c_memptr k + sz, c_size := c_size k - sz,
     c_stream := c_stream k, c_associated_to_stream := c_associated_to_stream k,
     c_prev := c, c_next := c_next k \<rparr>"

definition split_state :: "pool \<Rightarrow> cptr \<Rightarrow> chunk \<Rightarrow> nat \<Rightarrow> simple_pool \<Rightarrow> pool" where
  "split_state s c k sz sp =
     s\<lparr> chunk_heap := split_heap (chunk_heap s) c k (next_host s) (split_new c k sz) sz,
         next_host := next_host s + 1,
         prealloc_pool := Live_pool
           (if pl_top sp = c then sp\<lparr> pl_top := next_host s \<rparr> else sp),
         chunks := AList.update (c_memptr k + sz) (next_host s) (chunks s) \<rparr>"

lemma links_okI:
  assumes "prealloc_pool s = Live_pool sp" "ids \<noteq> []" "pl_start sp = hd ids" "pl_top sp = last ids"
    "seg (chunk_heap s) 0 (pl_memptr sp) ids 0 (pl_end sp)" "0 < pl_memptr sp" "pl_end sp < u64_lim"
    "dom (chunk_heap s) = set ids" "\<forall>c\<in>set ids. c < next_host s" "distinct (map fst (chunks s))"
    "\<And>a c. map_of (chunks s) a = Some c \<longleftrightarrow> (\<exists>k. chunk_heap s c = Some k \<and> c_memptr k = a)"
  shows "links_ok ids s"
  using assms by (simp add: links_ok_def)

lemma flags_okI:
  assumes "\<And>c k. chunk_heap s c = Some k \<Longrightarrow>
      c_bin_index k = (if c_used k \<or> c \<in> X then kInvalidBinNum
                       else BinIndexForSize s (c_size k)) \<and>
      (\<not> c_used k \<longrightarrow> c_stream_uses k = [] \<and> c_event_count k = 0)"
    and "\<And>c. c \<in> X \<Longrightarrow> \<exists>k. chunk_heap s c = Some k \<and> \<not> c_used k"
  shows "flags_ok X s"
  using assms unfolding flags_ok_def by blast

text \<open>What is known of a chunk at a given place in the list, gathered once.\<close>

lemma pinv_at:
  assumes inv: "pinv X (xs @ c # ys) s"
  shows "\<exists>k sp. chunk_heap s c = Some k \<and> prealloc_pool s = Live_pool sp \<and>
     c \<noteq> 0 \<and> c \<notin> set xs \<and> c \<notin> set ys \<and> distinct xs \<and> distinct ys \<and> set xs \<inter> set ys = {} \<and>
     seg (chunk_heap s) 0 (pl_memptr sp) xs c (c_memptr k) \<and> 0 < c_size k \<and>
     c_prev k = (if xs = [] then 0 else last xs) \<and> c_next k = (if ys = [] then 0 else hd ys) \<and>
     seg (chunk_heap s) c (c_memptr k + c_size k) ys 0 (pl_end sp) \<and>
     pl_start sp = hd (xs @ c # ys) \<and> pl_top sp = last (c # ys) \<and> 0 < pl_memptr sp \<and>
     pl_memptr sp \<le> c_memptr k \<and> c_memptr k + c_size k \<le> pl_end sp \<and> pl_end sp < u64_lim"
proof -
  obtain sp :: simple_pool where sp: "prealloc_pool s = Live_pool sp"
    "pl_start sp = hd (xs @ c # ys)" "pl_top sp = last (xs @ c # ys)" "0 < pl_memptr sp"
    "seg (chunk_heap s) 0 (pl_memptr sp) (xs @ c # ys) 0 (pl_end sp)" "pl_end sp < u64_lim"
    using pinvD [OF inv] by auto
  from sp(5) obtain k where k: "chunk_heap s c = Some k"
    "c \<noteq> 0" "seg (chunk_heap s) 0 (pl_memptr sp) xs c (c_memptr k)" "0 < c_size k"
    "c_prev k = (if xs = [] then 0 else last xs)" "c_next k = (if ys = [] then 0 else hd ys)"
    "seg (chunk_heap s) c (c_memptr k + c_size k) ys 0 (pl_end sp)"
    unfolding seg_split by auto
  moreover have "pl_memptr sp \<le> c_memptr k" "c_memptr k + c_size k \<le> pl_end sp"
    using seg_in [OF sp(5), of c] k(1) by auto
  ultimately show ?thesis using sp pinv_distinct [OF inv] by auto
qed

lemma pinv_fresh:
  assumes "pinv X ids s"
  shows "chunk_heap s (next_host s) = None" "next_host s \<notin> set ids" "next_host s \<noteq> 0"
proof -
  show n: "next_host s \<notin> set ids" using pinv_next_host [OF assms] by blast
  then show "chunk_heap s (next_host s) = None" using pinv_dom [OF assms] by (metis domIff)
  have "ids \<noteq> []" using pinvD [OF assms] by auto
  then have "hd ids < next_host s" using pinv_next_host [OF assms] by simp
  then show "next_host s \<noteq> 0" by simp
qed

lemma pinv_zero: "pinv X ids s \<Longrightarrow> chunk_heap s 0 = None"
proof -
  assume inv: "pinv X ids s"
  have "0 \<notin> set ids" using pinv_chunk [OF inv, of 0] by blast
  then show ?thesis using pinv_dom [OF inv] by (metis domIff)
qed

lemma split_pinv:
  assumes inv: "pinv X (xs @ c # ys) s" and cX: "c \<in> X"
    and k: "chunk_heap s c = Some k" and sp: "prealloc_pool s = Live_pool sp"
    and sz: "0 < sz" "sz < c_size k"
  shows "pinv (insert (next_host s) X) (xs @ c # next_host s # ys) (split_state s c k sz sp)"
proof -
  let ?n = "next_host s" and ?h = "chunk_heap s"
  let ?kn = "split_new c k sz"
  let ?h' = "split_heap ?h c k ?n ?kn sz"
  let ?ids = "xs @ c # ys" and ?ids' = "xs @ c # ?n # ys"
  from pinv_at [OF inv] k sp have at: "c \<noteq> 0" "c \<notin> set xs" "c \<notin> set ys" "distinct ys"
    "set xs \<inter> set ys = {}" "seg ?h 0 (pl_memptr sp) xs c (c_memptr k)"
    "c_prev k = (if xs = [] then 0 else last xs)" "c_next k = (if ys = [] then 0 else hd ys)"
    "seg ?h c (c_memptr k + c_size k) ys 0 (pl_end sp)"
    "pl_start sp = hd ?ids" "pl_top sp = last (c # ys)" "0 < pl_memptr sp" "pl_end sp < u64_lim"
    by auto
  note fr = pinv_fresh [OF inv]
  have nn: "?n \<noteq> c" "?n \<notin> set xs" "?n \<notin> set ys" "?n \<noteq> c_next k"
    using fr at(8) by (auto split: if_splits)
  have z: "0 \<notin> set ys" "0 \<notin> set xs" using seg_in [OF at(9)] seg_in [OF at(6)] by auto
  have "c_next k \<in> insert 0 (set ys)" using at(8) by simp
  then have nx: "c_next k \<noteq> c" "c_next k \<notin> set xs" using at(1,3,5) z by auto
  have hx: "?h' d = ?h d" if "d \<in> set xs" for d
    using that nn nx at(2) by (auto simp: split_heap_def)
  have hy: "seg ?h' ?n (c_memptr k + c_size k) ys 0 (pl_end sp)"
  proof (rule seg_reprev [OF at(9)])
    assume "ys \<noteq> []"
    then obtain l where "?h (hd ys) = Some l" using seg_in [OF at(9), of "hd ys"] by auto
    then show "?h' (hd ys) = Some ((the (?h (hd ys)))\<lparr> c_prev := ?n \<rparr>)"
      using \<open>ys \<noteq> []\<close> at(3,8) nn by (auto simp: split_heap_def)
  next
    fix d assume d: "d \<in> set (tl ys)"
    then have "d \<in> set ys" "d \<noteq> c_next k"
      using at(4,8) by (cases ys; auto)+
    then show "?h' d = ?h d" using nn at(3) by (auto simp: split_heap_def)
  qed
  have sg: "seg ?h' 0 (pl_memptr sp) ?ids' 0 (pl_end sp)"
    unfolding seg_split
    using at hy nn sz k seg_frame [of xs ?h' ?h, OF hx] fr(3)
    by (auto simp: split_heap_def split_new_def)
  have dm: "dom ?h' = set ?ids'"
  proof -
    have "?h' d \<noteq> None \<longleftrightarrow> d = ?n \<or> ?h d \<noteq> None" for d using k by (simp add: split_heap_def)
    then have "dom ?h' = insert ?n (dom ?h)" by (simp add: dom_def set_eq_iff)
    then show ?thesis using pinv_dom [OF inv] by auto
  qed
  have old: "map_of (chunks s) a = Some d \<longleftrightarrow> (\<exists>l. ?h d = Some l \<and> c_memptr l = a)" for a d
    by (rule pinv_lookup [OF inv])
  have noaddr: "c_memptr l \<noteq> c_memptr k + sz" if "?h d = Some l" for d l
  proof (cases "d = c")
    case True
    then show ?thesis using that k sz by simp
  next
    case False
    obtain sp' :: simple_pool where "seg ?h 0 (pl_memptr sp') ?ids 0 (pl_end sp')"
      using pinvD [OF inv] by auto
    from seg_ordered [OF this _ _ False that k] seg_in [OF this pinv_heap_ids [OF inv that]]
    show ?thesis using pinv_heap_ids [OF inv that] that sz by auto
  qed
  have links: "links_ok ?ids' (split_state s c k sz sp)"
  proof -
    have "map_of (AList.update (c_memptr k + sz) ?n (chunks s)) a = Some d \<longleftrightarrow>
       (\<exists>l. ?h' d = Some l \<and> c_memptr l = a)" for a d
      using old noaddr fr(1) k sz(1)
      by (auto simp: update_conv' split_heap_def split_new_def split: if_splits)
    moreover have "distinct (map fst (AList.update (c_memptr k + sz) ?n (chunks s)))"
      using inv by (simp add: pinv_def links_ok_def distinct_update)
    moreover have "\<forall>d\<in>set ?ids'. d < ?n + 1" using pinv_next_host [OF inv] by fastforce
    moreover have "last (xs @ c # ?n # ys) = (if ys = [] then ?n else last ys)" by simp
    moreover have "last ys \<noteq> c" if "ys \<noteq> []" using that at(3) by (metis last_in_set)
    ultimately show ?thesis
      using sg dm at(10-13)
      by (intro links_okI [where sp = "if pl_top sp = c then sp\<lparr> pl_top := ?n \<rparr> else sp"])
        (auto simp: split_state_def hd_append)
  qed
  have key: "chunk_key ?h' d = chunk_key ?h d" if "d \<noteq> c" "d \<noteq> ?n" for d
    using that by (auto simp: chunk_key_def split_heap_def split: option.splits)
  have bins: "bins_ok (insert ?n X) (split_state s c k sz sp)"
    unfolding bins_ok_def
  proof (intro conjI allI impI)
    show "length (bins (split_state s c k sz sp)) = kNumBins"
      using inv by (simp add: pinv_def bins_ok_def split_state_def)
    fix i assume i: "i < kNumBins"
    have nin: "c \<notin> set (bins s ! i)" "?n \<notin> set (bins s ! i)"
      using pinv_bins(4) [OF inv i] cX fr(1) by auto
    show "bin_sorted (chunk_heap (split_state s c k sz sp)) (bins (split_state s c k sz sp) ! i)"
    proof -
      have "bin_sorted ?h' (bins s ! i) = bin_sorted ?h (bins s ! i)"
        by (rule bin_sorted_cong, rule key) (use nin in auto)
      then show ?thesis using pinv_bins(2) [OF inv i] by (simp add: split_state_def)
    qed
    fix d
    show "d \<in> set (bins (split_state s c k sz sp) ! i) \<longleftrightarrow>
      (\<exists>l. chunk_heap (split_state s c k sz sp) d = Some l \<and> \<not> c_used l \<and> d \<notin> insert ?n X \<and>
           c_bin_index l = i)"
      using pinv_bins(4) [OF inv i, of d] cX nin by (auto simp: split_state_def split_heap_def)
  qed
  have flags: "flags_ok (insert ?n X) (split_state s c k sz sp)"
  proof (rule flags_okI)
    fix d l assume "chunk_heap (split_state s c k sz sp) d = Some l"
    then have "?h' d = Some l" by (simp add: split_state_def)
    then consider "d = ?n" "l = ?kn" | "d = c" "d \<noteq> ?n" "l = k\<lparr> c_size := sz, c_next := ?n \<rparr>"
      | l0 where "d \<noteq> ?n" "d \<noteq> c" "?h d = Some l0" "l = l0 \<or> l = l0\<lparr> c_prev := ?n \<rparr>"
      by (auto simp: split_heap_def split: if_splits)
    then show "c_bin_index l = (if c_used l \<or> d \<in> insert ?n X then kInvalidBinNum
          else BinIndexForSize (split_state s c k sz sp) (c_size l)) \<and>
        (\<not> c_used l \<longrightarrow> c_stream_uses l = [] \<and> c_event_count l = 0)"
    proof cases
      case 1
      then show ?thesis by (simp add: split_new_def Chunk_new_def)
    next
      case 2
      then show ?thesis using pinv_flags [OF inv k] cX by simp
    next
      case 3
      then show ?thesis using pinv_flags [OF inv 3(3)]
        by (auto simp: split_state_def BinIndexForSize_def)
    qed
  next
    fix d assume "d \<in> insert ?n X"
    then show "\<exists>l. chunk_heap (split_state s c k sz sp) d = Some l \<and> \<not> c_used l"
      using pinv_X_heap [OF inv, of d] k
      by (auto simp: split_state_def split_heap_def split_new_def Chunk_new_def)
  qed
  show ?thesis using inv links bins flags by (simp add: pinv_def cfg_ok_def split_state_def)
qed

text \<open>The new block that a split of block \<open>b\<close> at \<open>sz\<close> makes.\<close>

definition tail_block :: "cptr \<Rightarrow> nat \<Rightarrow> block \<Rightarrow> block" where
  "tail_block n sz b = \<lparr> b_id = n, b_addr = b_addr b + sz, b_size = b_size b - sz,
     b_used = False, b_extra = 0, b_stream = b_stream b, b_assoc = b_assoc b,
     b_uses = [], b_events = 0 \<rparr>"

lemma split_run:
  assumes inv: "pinv X (xs @ c # ys) s" and cX: "c \<in> X"
    and k: "chunk_heap s c = Some k" and sp: "prealloc_pool s = Live_pool sp"
    and sz: "0 < sz" "sz < c_size k"
  shows "try_splitting_chunks c sz s =
           InsertFreeChunkIntoBin (next_host s) (split_state s c k sz sp)"
proof -
  let ?n = "next_host s"
  let ?kn = "Chunk_new\<lparr> c_memptr := c_memptr k + sz, c_size := c_size k - sz,
     c_stream := c_stream k, c_associated_to_stream := c_associated_to_stream k,
     c_prev := c, c_next := c_next k \<rparr>"
  from pinv_at [OF inv] k sp have at: "c \<noteq> 0" "c \<notin> set ys"
    "c_next k = (if ys = [] then 0 else hd ys)" "0 < c_size k"
    "c_memptr k + c_size k \<le> pl_end sp" "pl_end sp < u64_lim" by auto
  note fr = pinv_fresh [OF inv]
  have ar: "add64 (c_memptr k) sz = c_memptr k + sz" "sub64 (c_size k) sz = c_size k - sz"
    using at sz by (simp_all add: add64_exact sub64_exact)
  have u: "\<not> c_used k" "c_bin_index k = kInvalidBinNum" using pinv_flags [OF inv k] cX by auto
  have nn: "?n \<noteq> c" "c_next k \<noteq> c" "c_next k \<noteq> ?n"
    using fr at by (cases ys; auto)+
  have nxt: "\<exists>l. chunk_heap s (c_next k) = Some l" if "c_next k \<noteq> 0"
  proof -
    have "c_next k \<in> set (xs @ c # ys)" using that at(3) by (simp split: if_splits)
    then show ?thesis using pinv_dom [OF inv] by blast
  qed
  have hp: "split_heap (chunk_heap s) c k ?n (split_new c k sz) sz =
      (let h = (chunk_heap s)(?n \<mapsto> ?kn, c \<mapsto> k\<lparr> c_size := sz, c_next := ?n \<rparr>) in
       if c_next k \<noteq> 0 then h(c_next k \<mapsto> (the (h (c_next k)))\<lparr> c_prev := ?n \<rparr>) else h)"
  proof (cases "c_next k = 0")
    case True
    then show ?thesis using pinv_zero [OF inv] nn at(1) fr
      by (auto simp: split_heap_def split_new_def Chunk_new_def fun_eq_iff)
  next
    case False
    then show ?thesis using nxt nn
      by (auto simp: split_heap_def split_new_def Chunk_new_def fun_eq_iff)
  qed
  show ?thesis
  proof (cases "c_next k = 0")
    case True
    then show ?thesis using u ar nn k sp hp
      by (cases s) (simp add: try_splitting_chunks_def deref_def upd_chunk_def new_chunk_def
          deref_pool_def upd_pool_def split_state_def Chunk_new_def fun_upd_twist)
  next
    case False
    then obtain l where "chunk_heap s (c_next k) = Some l" using nxt by auto
    then show ?thesis using False u ar nn k sp hp
      by (cases s) (simp add: try_splitting_chunks_def deref_def upd_chunk_def new_chunk_def
          deref_pool_def upd_pool_def split_state_def Chunk_new_def fun_upd_twist)
  qed
qed

lemma Split_step:
  assumes inv: "pinv X (xs @ c # ys) s" and cX: "c \<in> X"
    and sz: "0 < sz" "sz < b_size (block_of s c)"
  shows "\<exists>s'. try_splitting_chunks c sz s = Inr s' \<and> pinv X (xs @ c # next_host s # ys) s' \<and>
     rest_of s' = rest_of s \<and>
     (\<forall>d. d \<noteq> c \<longrightarrow> d \<noteq> next_host s \<longrightarrow> block_of s' d = block_of s d) \<and>
     block_of s' c = (block_of s c)\<lparr> b_size := sz \<rparr> \<and>
     block_of s' (next_host s) = tail_block (next_host s) sz (block_of s c)"
proof -
  obtain k sp where k: "chunk_heap s c = Some k" and sp: "prealloc_pool s = Live_pool sp"
    using pinv_at [OF inv] by auto
  let ?t = "split_state s c k sz sp" and ?n = "next_host s"
  have sz': "sz < c_size k" using sz(2) k by simp
  have nX: "?n \<notin> X" using pinv_X_heap [OF inv] pinv_fresh(1) [OF inv] by fastforce
  have nc: "?n \<noteq> c" using pinv_fresh(2) [OF inv] by auto
  obtain s' where s': "InsertFreeChunkIntoBin ?n ?t = Inr s'"
      "pinv (insert ?n X - {?n}) (xs @ c # ?n # ys) s'" "bin_step ?t s'"
    using Insert_step [OF split_pinv [OF inv cX k sp sz(1) sz'], of ?n] by auto
  have "insert ?n X - {?n} = X" using nX by auto
  moreover have "rest_of ?t = rest_of s" using sp by (simp add: rest_of_def split_state_def)
  moreover have "block_of ?t d = block_of s d" if "d \<noteq> c" "d \<noteq> ?n" for d
  proof (cases "chunk_heap s d")
    case None
    then have "chunk_heap ?t d = None" using that by (auto simp: split_state_def split_heap_def)
    then show ?thesis using None by (simp add: block_of_def)
  next
    case (Some l)
    then show ?thesis using that by (auto simp: split_state_def split_heap_def block_of_def Let_def)
  qed
  moreover have "block_of ?t c = (block_of s c)\<lparr> b_size := sz \<rparr>"
    using k nc by (simp add: split_state_def split_heap_def block_of_def)
  moreover have "block_of ?t ?n = tail_block ?n sz (block_of s c)"
    using k by (simp add: split_state_def split_heap_def block_of_def tail_block_def split_new_def
        Chunk_new_def)
  ultimately show ?thesis
    using s' split_run [OF inv cX k sp sz(1) sz'] by (auto simp: bin_step_def)
qed

section \<open>Merging\<close>

definition merge_heap ::
  "(cptr \<Rightarrow> chunk option) \<Rightarrow> cptr \<Rightarrow> chunk \<Rightarrow> cptr \<Rightarrow> chunk \<Rightarrow> cptr \<Rightarrow> chunk option" where
  "merge_heap h c1 k1 c2 k2 d =
     (if d = c2 then None
      else if d = c1 then Some (k1\<lparr> c_next := c_next k2, c_size := c_size k1 + c_size k2,
             c_freed_counter := max (c_freed_counter k1) (c_freed_counter k2) \<rparr>)
      else if d = c_next k2 then map_option (\<lambda>l. l\<lparr> c_prev := c1 \<rparr>) (h d) else h d)"

definition merge_state ::
  "pool \<Rightarrow> cptr \<Rightarrow> chunk \<Rightarrow> cptr \<Rightarrow> chunk \<Rightarrow> simple_pool \<Rightarrow> pool" where
  "merge_state s c1 k1 c2 k2 sp =
     s\<lparr> chunk_heap := merge_heap (chunk_heap s) c1 k1 c2 k2,
         prealloc_pool := Live_pool (if pl_top sp = c2 then sp\<lparr> pl_top := c1 \<rparr> else sp),
         chunks := AList.delete (c_memptr k2) (chunks s) \<rparr>"

lemma merge_at:
  assumes inv: "pinv X (xs @ c1 # c2 # ys) s" and X: "c1 \<in> X" "c2 \<in> X"
  shows "\<exists>k1 k2 sp. chunk_heap s c1 = Some k1 \<and> chunk_heap s c2 = Some k2 \<and>
     prealloc_pool s = Live_pool sp \<and> c1 \<noteq> 0 \<and> c2 \<noteq> 0 \<and> c1 \<noteq> c2 \<and>
     c1 \<notin> set xs \<and> c1 \<notin> set ys \<and> c2 \<notin> set xs \<and> c2 \<notin> set ys \<and> distinct ys \<and>
     set xs \<inter> set ys = {} \<and> 0 \<notin> set xs \<and> 0 \<notin> set ys \<and>
     seg (chunk_heap s) 0 (pl_memptr sp) xs c1 (c_memptr k1) \<and> 0 < c_size k1 \<and> 0 < c_size k2 \<and>
     c_prev k1 = (if xs = [] then 0 else last xs) \<and> c_next k1 = c2 \<and> c_prev k2 = c1 \<and>
     c_memptr k2 = c_memptr k1 + c_size k1 \<and> c_next k2 = (if ys = [] then 0 else hd ys) \<and>
     seg (chunk_heap s) c2 (c_memptr k2 + c_size k2) ys 0 (pl_end sp) \<and>
     pl_start sp = hd (xs @ c1 # ys) \<and> pl_top sp = last (c2 # ys) \<and> 0 < pl_memptr sp \<and>
     c_memptr k2 + c_size k2 \<le> pl_end sp \<and> pl_end sp < u64_lim \<and>
     \<not> c_used k1 \<and> \<not> c_used k2 \<and> c_stream_uses k2 = [] \<and> c_event_count k2 = 0 \<and>
     c_next k2 \<noteq> c1 \<and> c_next k2 \<noteq> c2 \<and> c_next k2 \<notin> set xs"
proof -
  from pinv_at [OF inv] obtain k1 sp where k1: "chunk_heap s c1 = Some k1"
    "prealloc_pool s = Live_pool sp" "c1 \<noteq> 0" "c1 \<notin> set xs" "c1 \<notin> set (c2 # ys)"
    "distinct (c2 # ys)" "set xs \<inter> set (c2 # ys) = {}"
    "seg (chunk_heap s) 0 (pl_memptr sp) xs c1 (c_memptr k1)" "0 < c_size k1"
    "c_prev k1 = (if xs = [] then 0 else last xs)" "c_next k1 = c2"
    "seg (chunk_heap s) c1 (c_memptr k1 + c_size k1) (c2 # ys) 0 (pl_end sp)"
    "pl_start sp = hd (xs @ c1 # c2 # ys)" "pl_top sp = last (c2 # ys)" "0 < pl_memptr sp"
    "pl_end sp < u64_lim" by auto
  from k1(12) obtain k2 where k2: "chunk_heap s c2 = Some k2" "c2 \<noteq> 0" "c_prev k2 = c1"
    "c_memptr k2 = c_memptr k1 + c_size k1" "0 < c_size k2"
    "c_next k2 = (if ys = [] then 0 else hd ys)"
    "seg (chunk_heap s) c2 (c_memptr k2 + c_size k2) ys 0 (pl_end sp)"
    by (auto split: option.splits)
  have z: "0 \<notin> set xs" "0 \<notin> set ys" using seg_in [OF k1(8)] seg_in [OF k2(7)] by auto
  have le: "c_memptr k2 + c_size k2 \<le> pl_end sp" using seg_le [OF k2(7)] .
  have "c_next k2 \<in> insert 0 (set ys)" using k2(6) by simp
  then have "c_next k2 \<noteq> c1" "c_next k2 \<noteq> c2" "c_next k2 \<notin> set xs" using k1 k2 z by auto
  then show ?thesis
    using k1 k2 z le pinv_flags [OF inv k1(1)] pinv_flags [OF inv k2(1)] X
    by (intro exI [of _ k1] exI [of _ k2] exI [of _ sp]) (simp add: hd_append)
qed

lemma merge_pinv:
  assumes inv: "pinv X (xs @ c1 # c2 # ys) s" and X: "c1 \<in> X" "c2 \<in> X"
    and k1: "chunk_heap s c1 = Some k1" and k2: "chunk_heap s c2 = Some k2"
    and sp: "prealloc_pool s = Live_pool sp"
  shows "pinv (X - {c2}) (xs @ c1 # ys) (merge_state s c1 k1 c2 k2 sp)"
proof -
  let ?h = "chunk_heap s" and ?h' = "merge_heap (chunk_heap s) c1 k1 c2 k2"
  let ?t = "merge_state s c1 k1 c2 k2 sp" and ?ids = "xs @ c1 # c2 # ys"
  from merge_at [OF inv X] k1 k2 sp have at: "c1 \<noteq> 0" "c2 \<noteq> 0" "c1 \<noteq> c2"
    "c1 \<notin> set xs" "c1 \<notin> set ys" "c2 \<notin> set xs" "c2 \<notin> set ys" "distinct ys"
    "seg ?h 0 (pl_memptr sp) xs c1 (c_memptr k1)" "0 < c_size k1" "0 < c_size k2"
    "c_prev k1 = (if xs = [] then 0 else last xs)" "c_memptr k2 = c_memptr k1 + c_size k1"
    "c_next k2 = (if ys = [] then 0 else hd ys)"
    "seg ?h c2 (c_memptr k2 + c_size k2) ys 0 (pl_end sp)"
    "pl_start sp = hd (xs @ c1 # ys)" "pl_top sp = last (c2 # ys)" "0 < pl_memptr sp"
    "pl_end sp < u64_lim" "\<not> c_used k1" "c_next k2 \<noteq> c1" "c_next k2 \<noteq> c2" "c_next k2 \<notin> set xs"
    by auto
  have hx: "?h' d = ?h d" if "d \<in> set xs" for d
    using that at by (auto simp: merge_heap_def)
  have hy: "seg ?h' c1 (c_memptr k2 + c_size k2) ys 0 (pl_end sp)"
  proof (rule seg_reprev [OF at(15)])
    assume "ys \<noteq> []"
    then obtain l where "?h (hd ys) = Some l" using seg_in [OF at(15), of "hd ys"] by auto
    then show "?h' (hd ys) = Some ((the (?h (hd ys)))\<lparr> c_prev := c1 \<rparr>)"
      using \<open>ys \<noteq> []\<close> at(14,21,22) by (simp add: merge_heap_def)
  next
    fix d assume d: "d \<in> set (tl ys)"
    then have "d \<in> set ys" "d \<noteq> c_next k2" using at(8,14) by (cases ys; auto)+
    then show "?h' d = ?h d" using at(5,7) by (auto simp: merge_heap_def)
  qed
  have sg: "seg ?h' 0 (pl_memptr sp) (xs @ c1 # ys) 0 (pl_end sp)"
    unfolding seg_split
    using at hy seg_frame [of xs ?h' ?h, OF hx] by (auto simp: merge_heap_def add.assoc)
  have dm: "dom ?h' = set (xs @ c1 # ys)"
  proof -
    have "?h' d \<noteq> None \<longleftrightarrow> d \<noteq> c2 \<and> ?h d \<noteq> None" for d
      using k1 by (simp add: merge_heap_def)
    then have "dom ?h' = dom ?h - {c2}" by (auto simp: dom_def)
    then show ?thesis using pinv_dom [OF inv] at(3,6,7) by auto
  qed
  have old: "map_of (chunks s) a = Some d \<longleftrightarrow> (\<exists>l. ?h d = Some l \<and> c_memptr l = a)" for a d
    by (rule pinv_lookup [OF inv])
  have links: "links_ok (xs @ c1 # ys) ?t"
  proof -
    have "map_of (AList.delete (c_memptr k2) (chunks s)) a = Some d \<longleftrightarrow>
       (\<exists>l. ?h' d = Some l \<and> c_memptr l = a)" for a d
    proof -
      have "c_memptr l \<noteq> c_memptr k2" if "?h d = Some l" "d \<noteq> c2" for d l
        using pinv_memptr_inj [OF inv that(1) k2] that(2) by blast
      then show ?thesis using old k1 k2
        by (auto simp: delete_conv' merge_heap_def split: if_splits)
    qed
    moreover have "distinct (map fst (AList.delete (c_memptr k2) (chunks s)))"
      using inv by (simp add: pinv_def links_ok_def distinct_delete)
    moreover have "\<forall>d\<in>set (xs @ c1 # ys). d < next_host s" using pinv_next_host [OF inv] by fastforce
    moreover have "last ys \<noteq> c2" if "ys \<noteq> []" using that at(7) by (metis last_in_set)
    ultimately show ?thesis
      using sg dm at(16-19)
      by (intro links_okI [where sp = "if pl_top sp = c2 then sp\<lparr> pl_top := c1 \<rparr> else sp"])
        (auto simp: merge_state_def)
  qed
  have key: "chunk_key ?h' d = chunk_key ?h d" if "d \<noteq> c1" "d \<noteq> c2" for d
    using that by (auto simp: chunk_key_def merge_heap_def split: option.splits)
  have bins: "bins_ok (X - {c2}) ?t"
    unfolding bins_ok_def
  proof (intro conjI allI impI)
    show "length (bins ?t) = kNumBins"
      using inv by (simp add: pinv_def bins_ok_def merge_state_def)
    fix i assume i: "i < kNumBins"
    have nin: "c1 \<notin> set (bins s ! i)" "c2 \<notin> set (bins s ! i)"
      using pinv_bins(4) [OF inv i] X by auto
    show "bin_sorted (chunk_heap ?t) (bins ?t ! i)"
    proof -
      have "bin_sorted ?h' (bins s ! i) = bin_sorted ?h (bins s ! i)"
        by (rule bin_sorted_cong, rule key) (use nin in auto)
      then show ?thesis using pinv_bins(2) [OF inv i] by (simp add: merge_state_def)
    qed
    fix d
    show "d \<in> set (bins ?t ! i) \<longleftrightarrow> (\<exists>l. chunk_heap ?t d = Some l \<and> \<not> c_used l \<and>
        d \<notin> X - {c2} \<and> c_bin_index l = i)"
      using pinv_bins(4) [OF inv i, of d] X nin by (auto simp: merge_state_def merge_heap_def)
  qed
  have flags: "flags_ok (X - {c2}) ?t"
  proof (rule flags_okI)
    fix d l assume "chunk_heap ?t d = Some l"
    then have "?h' d = Some l" by (simp add: merge_state_def)
    then consider "d = c1" "c_used l = c_used k1" "c_bin_index l = c_bin_index k1"
        "c_stream_uses l = c_stream_uses k1" "c_event_count l = c_event_count k1"
      | l0 where "d \<noteq> c1" "d \<noteq> c2" "?h d = Some l0" "l = l0 \<or> l = l0\<lparr> c_prev := c1 \<rparr>"
      by (auto simp: merge_heap_def split: if_splits)
    then show "c_bin_index l = (if c_used l \<or> d \<in> X - {c2} then kInvalidBinNum
          else BinIndexForSize ?t (c_size l)) \<and>
        (\<not> c_used l \<longrightarrow> c_stream_uses l = [] \<and> c_event_count l = 0)"
    proof cases
      case 1
      then show ?thesis using pinv_flags [OF inv k1] X(1) at(3) by simp
    next
      case 2
      then show ?thesis using pinv_flags [OF inv 2(3)]
        by (auto simp: merge_state_def BinIndexForSize_def)
    qed
  next
    fix d assume "d \<in> X - {c2}"
    then show "\<exists>l. chunk_heap ?t d = Some l \<and> \<not> c_used l"
      using pinv_X_heap [OF inv, of d] at(20)
      by (auto simp: merge_state_def merge_heap_def)
  qed
  show ?thesis using inv links bins flags by (simp add: pinv_def cfg_ok_def merge_state_def)
qed

lemma Merge_step:
  assumes inv: "pinv X (xs @ c1 # c2 # ys) s" and X: "c1 \<in> X" "c2 \<in> X"
  shows "\<exists>s'. merge_chunks c1 c2 s = Inr s' \<and> pinv (X - {c2}) (xs @ c1 # ys) s' \<and>
     rest_of s' = rest_of s \<and> next_host s' = next_host s \<and>
     (\<forall>d. d \<noteq> c1 \<longrightarrow> d \<noteq> c2 \<longrightarrow> block_of s' d = block_of s d) \<and>
     block_of s' c1 =
       (block_of s c1)\<lparr> b_size := b_size (block_of s c1) + b_size (block_of s c2) \<rparr>"
proof -
  from merge_at [OF inv X] obtain k1 k2 sp where at: "chunk_heap s c1 = Some k1"
    "chunk_heap s c2 = Some k2" "prealloc_pool s = Live_pool sp" "c1 \<noteq> c2" "c_prev k2 = c1"
    "c_memptr k2 = c_memptr k1 + c_size k1" "c_memptr k2 + c_size k2 \<le> pl_end sp"
    "pl_end sp < u64_lim" "\<not> c_used k1" "\<not> c_used k2" "c_stream_uses k2 = []"
    "c_event_count k2 = 0" "c_next k2 \<noteq> c1" "c_next k2 \<noteq> c2" "c2 \<noteq> 0"
    "c_next k2 = (if ys = [] then 0 else hd ys)"
    by auto
  let ?t = "merge_state s c1 k1 c2 k2 sp"
  have ar: "add64 (c_memptr k1) (c_size k1) = c_memptr k2"
    "add64 (c_size k1) (c_size k2) = c_size k1 + c_size k2"
    using at by (simp_all add: add64_exact)
  have hp: "merge_heap (chunk_heap s) c1 k1 c2 k2 =
      (if c_next k2 = 0 then (chunk_heap s)(c1 \<mapsto> k1\<lparr> c_next := c_next k2,
           c_size := c_size k1 + c_size k2,
           c_freed_counter := max (c_freed_counter k1) (c_freed_counter k2) \<rparr>, c2 := None)
       else (chunk_heap s)(c1 \<mapsto> k1\<lparr> c_next := c_next k2,
           c_size := c_size k1 + c_size k2,
           c_freed_counter := max (c_freed_counter k1) (c_freed_counter k2) \<rparr>,
           c_next k2 \<mapsto> (the (chunk_heap s (c_next k2)))\<lparr> c_prev := c1 \<rparr>, c2 := None)) \<and>
      (c_next k2 \<noteq> 0 \<longrightarrow> (\<exists>l. chunk_heap s (c_next k2) = Some l))"
  proof (cases "c_next k2 = 0")
    case True
    then show ?thesis using pinv_zero [OF inv] at by (auto simp: merge_heap_def fun_eq_iff)
  next
    case False
    then have "c_next k2 \<in> set (xs @ c1 # c2 # ys)" using at(16) by (simp split: if_splits)
    then obtain l where "chunk_heap s (c_next k2) = Some l" using pinv_dom [OF inv] by blast
    then show ?thesis using False at by (auto simp: merge_heap_def fun_eq_iff)
  qed
  have run: "merge_chunks c1 c2 s = Inr ?t"
  proof (cases "c_next k2 = 0")
    case True
    then show ?thesis using at ar hp
      by (cases s) (simp add: merge_chunks_def deref_def upd_chunk_def deref_pool_def upd_pool_def
          merge_state_def)
  next
    case False
    then obtain l where "chunk_heap s (c_next k2) = Some l" using hp by auto
    then show ?thesis using False at ar hp
      by (cases s) (simp add: merge_chunks_def deref_def upd_chunk_def deref_pool_def upd_pool_def
          merge_state_def fun_upd_twist)
  qed
  have "block_of ?t d = block_of s d" if "d \<noteq> c1" "d \<noteq> c2" for d
  proof (cases "chunk_heap s d")
    case None
    then have "chunk_heap ?t d = None" using that by (auto simp: merge_state_def merge_heap_def)
    then show ?thesis using None by (simp add: block_of_def)
  next
    case (Some l)
    then show ?thesis using that by (auto simp: merge_state_def merge_heap_def block_of_def Let_def)
  qed
  moreover have "block_of ?t c1 =
      (block_of s c1)\<lparr> b_size := b_size (block_of s c1) + b_size (block_of s c2) \<rparr>"
    using at by (simp add: merge_state_def merge_heap_def block_of_def)
  moreover have "rest_of ?t = rest_of s" using at(3) by (simp add: rest_of_def merge_state_def)
  ultimately show ?thesis
    using run merge_pinv [OF inv X at(1-3)] by (auto simp: merge_state_def)
qed

end
