(* ===== verification/Pool_Coalesce.thy ===== *)
theory Pool_Coalesce
  imports Pool_Split_Merge
begin

text \<open>
  What \<open>try_to_merge\<close> does to the list of blocks: a block that became free is joined with the
  free block after it and with the free block before it. \<open>absorb\<close> and \<open>coalesce\<close> say so on
  lists, without pointers, bins or hash map.
\<close>

fun absorb :: "block \<Rightarrow> block list \<Rightarrow> block list" where
  "absorb b [] = [b]"
| "absorb b (n # bs) =
     (if b_used n then b # n # bs else b\<lparr> b_size := b_size b + b_size n \<rparr> # bs)"

definition coalesce :: "block list \<Rightarrow> block \<Rightarrow> block list \<Rightarrow> block list" where
  "coalesce xs b ys =
     (if xs = [] \<or> b_used (last xs) then xs @ absorb b ys
      else butlast xs @ absorb (last xs) (absorb b ys))"

section \<open>Coalesced lists\<close>

text \<open>A list of blocks is coalesced when no two free blocks are neighbours.\<close>

definition coalesced :: "block list \<Rightarrow> bool" where
  "coalesced bs \<longleftrightarrow> \<not> adjacent_free (\<lambda>b. \<not> b_used b) bs"

lemma coalesced_Nil [simp]: "coalesced []"
  by (simp add: coalesced_def)

lemma coalesced_Cons:
  "coalesced (b # bs) \<longleftrightarrow> coalesced bs \<and> (bs = [] \<or> b_used b \<or> b_used (hd bs))"
  by (auto simp: coalesced_def adjacent_free_Cons)

lemma coalesced_append:
  "coalesced (xs @ ys) \<longleftrightarrow> coalesced xs \<and> coalesced ys \<and>
     (xs = [] \<or> ys = [] \<or> b_used (last xs) \<or> b_used (hd ys))"
  by (auto simp: coalesced_def adjacent_free_append)

lemma hd_absorb_used [simp]: "b_used (hd (absorb b ys)) = b_used b"
  by (cases ys) auto

lemma absorb_not_Nil [simp]: "absorb b ys \<noteq> []"
  by (cases ys) auto

lemma coalesced_absorb:
  "\<not> b_used b \<Longrightarrow> coalesced ys \<Longrightarrow> coalesced (absorb b ys)"
  by (cases ys) (auto simp: coalesced_Cons)

lemma coalesced_coalesce:
  assumes "coalesced xs" "coalesced ys" "\<not> b_used b"
  shows "coalesced (coalesce xs b ys)"
proof (cases "xs = [] \<or> b_used (last xs)")
  case True
  then show ?thesis
    using assms coalesced_absorb [of b ys] by (auto simp: coalesce_def coalesced_append)
next
  case False
  then obtain zs z where xs: "xs = zs @ [z]" "\<not> b_used z" by (cases xs rule: rev_cases) auto
  obtain b' bs where a: "absorb b ys = b' # bs" "\<not> b_used b'" "coalesced (b' # bs)"
    using coalesced_absorb [of b ys] assms
    by (metis absorb_not_Nil hd_absorb_used list.exhaust_sel)
  then show ?thesis
    using assms(1) xs by (auto simp: coalesce_def coalesced_append coalesced_Cons)
qed

text \<open>Joining blocks keeps the addresses they cover.\<close>

definition blocks_size :: "block list \<Rightarrow> nat" where
  "blocks_size bs = sum_list (map b_size bs)"

lemma blocks_size_simps [simp]:
  "blocks_size [] = 0" "blocks_size (b # bs) = b_size b + blocks_size bs"
  "blocks_size (xs @ ys) = blocks_size xs + blocks_size ys"
  by (simp_all add: blocks_size_def)

lemma blocks_size_absorb [simp]: "blocks_size (absorb b ys) = b_size b + blocks_size ys"
  by (cases ys) auto

lemma blocks_size_coalesce: "blocks_size (coalesce xs b ys) = blocks_size (xs @ b # ys)"
  by (cases xs rule: rev_cases) (auto simp: coalesce_def)

definition used_blocks :: "block list \<Rightarrow> block list" where
  "used_blocks bs = filter b_used bs"

lemma used_blocks_simps [simp]:
  "used_blocks [] = []" "used_blocks (b # bs) = (if b_used b then b # used_blocks bs else used_blocks bs)"
  "used_blocks (xs @ ys) = used_blocks xs @ used_blocks ys"
  by (simp_all add: used_blocks_def)

lemma used_blocks_absorb [simp]:
  "\<not> b_used b \<Longrightarrow> used_blocks (absorb b ys) = used_blocks ys"
  by (cases ys) auto

lemma used_blocks_coalesce:
  assumes "\<not> b_used b"
  shows "used_blocks (coalesce xs b ys) = used_blocks xs @ used_blocks ys"
proof (cases xs rule: rev_cases)
  case Nil
  then show ?thesis using assms by (simp add: coalesce_def)
next
  case (snoc zs z)
  then show ?thesis using assms by (auto simp: coalesce_def)
qed

section \<open>The two halves of \<open>try_to_merge\<close>\<close>

lemma blocks_of_simps [simp]:
  "blocks_of s [] = []" "blocks_of s (c # cs) = block_of s c # blocks_of s cs"
  "blocks_of s (xs @ ys) = blocks_of s xs @ blocks_of s ys"
  by (simp_all add: blocks_of_def)

lemma blocks_of_Nil_iff [simp]: "blocks_of s xs = [] \<longleftrightarrow> xs = []"
  by (simp add: blocks_of_def)

lemma last_blocks_of: "xs \<noteq> [] \<Longrightarrow> last (blocks_of s xs) = block_of s (last xs)"
  by (simp add: blocks_of_def last_map)

lemma butlast_blocks_of: "butlast (blocks_of s xs) = blocks_of s (butlast xs)"
  by (simp add: blocks_of_def map_butlast)

lemma Merge_next_step:
  assumes inv: "pinv {c} (xs @ c # ys) s"
  shows "\<exists>ys' s'. merge_with_next c s = Inr s' \<and>
     pinv {c} (xs @ c # ys') s' \<and> rest_of s' = rest_of s \<and> next_host s' = next_host s \<and>
     blocks_of s' xs = blocks_of s xs \<and>
     blocks_of s' (c # ys') = absorb (block_of s c) (blocks_of s ys)"
proof -
  from pinv_chunk [OF inv, of c] obtain k where k: "chunk_heap s c = Some k" "deref s c = Inr k"
    by auto
  note run = merge_with_next_def k(2)
  show ?thesis
  proof (cases ys)
    case Nil
    then have "c_next k = 0" using pinv_at [OF inv] k(1) by auto
    then show ?thesis using inv Nil by (intro exI [of _ "[]"] exI [of _ s]) (simp add: run)
  next
    case (Cons n zs)
    have n: "c_next k = n" "n \<in> set (xs @ c # ys)" "n \<noteq> c"
      using pinv_at [OF inv] k(1) Cons by auto
    from pinv_chunk [OF inv n(2)] obtain l where l: "chunk_heap s n = Some l"
      "deref s n = Inr l" "n \<noteq> 0" by metis
    show ?thesis
    proof (cases "c_used l")
      case True
      then show ?thesis using inv Cons n l
        by (intro exI [of _ ys] exI [of _ s]) (simp add: run)
    next
      case False
      obtain t where t: "RemoveFreeChunkFromBin n s = Inr t"
        "pinv {n, c} (xs @ c # n # zs) t" "bin_step s t"
        using Remove_step [OF inv n(2)] n(3) l False Cons by auto
      from Merge_step [OF t(2)] obtain s' where s': "merge_chunks c n t = Inr s'"
        "pinv {c} (xs @ c # zs) s'" "rest_of s' = rest_of t" "next_host s' = next_host t"
        "\<forall>d. d \<noteq> c \<longrightarrow> d \<noteq> n \<longrightarrow> block_of s' d = block_of t d"
        "block_of s' c = (block_of t c)\<lparr> b_size := b_size (block_of t c) + b_size (block_of t n) \<rparr>"
        using n(3) by (auto simp: insert_Diff_if)
      have "distinct (xs @ c # n # zs)" using pinv_distinct [OF t(2)] .
      then have fr: "c \<notin> set xs" "n \<notin> set xs" "c \<notin> set zs" "n \<notin> set zs" by auto
      have eq: "block_of t d = block_of s d" for d using t(3) by (simp add: bin_step_def)
      have "blocks_of s' xs = blocks_of s xs" "blocks_of s' zs = blocks_of s zs"
        using s'(5) eq fr by (auto intro!: blocks_of_cong) metis+
      moreover have "rest_of s' = rest_of s" "next_host s' = next_host s"
        using s'(3,4) t(3) by (simp_all add: bin_step_def)
      ultimately show ?thesis using s' l n eq False Cons t(1)
        by (intro exI [of _ zs] exI [of _ s']) (simp add: run)
    qed
  qed
qed

lemma Merge_prev_step:
  assumes inv: "pinv {c} (xs @ c # ys) s"
  shows "\<exists>m xs' s'. merge_with_prev c s = Inr (m, s') \<and>
     pinv {m} (xs' @ m # ys) s' \<and> rest_of s' = rest_of s \<and> next_host s' = next_host s \<and>
     blocks_of s' (xs' @ m # ys) =
       (if xs = [] \<or> b_used (last (blocks_of s xs)) then blocks_of s (xs @ c # ys)
        else butlast (blocks_of s xs) @ absorb (last (blocks_of s xs)) (blocks_of s (c # ys))) \<and>
     m = (if xs = [] \<or> b_used (last (blocks_of s xs)) then c else last xs) \<and>
     (c \<in> set (xs' @ m # ys) \<longrightarrow> m = c)"
proof -
  from pinv_chunk [OF inv, of c] obtain k where k: "chunk_heap s c = Some k" "deref s c = Inr k"
    by auto
  note run = merge_with_prev_def k(2)
  show ?thesis
  proof (cases xs rule: rev_cases)
    case Nil
    then have "c_prev k = 0" using pinv_at [OF inv] k(1) by auto
    then show ?thesis using inv Nil
      by (intro exI [of _ c] exI [of _ "[]"] exI [of _ s]) (simp add: run)
  next
    case (snoc zs p)
    have p: "c_prev k = p" "p \<in> set (xs @ c # ys)" "p \<noteq> c"
      using pinv_at [OF inv] k(1) snoc by auto
    from pinv_chunk [OF inv p(2)] obtain l where l: "chunk_heap s p = Some l"
      "deref s p = Inr l" "p \<noteq> 0" by metis
    show ?thesis
    proof (cases "c_used l")
      case True
      then show ?thesis using inv snoc p l
        by (intro exI [of _ c] exI [of _ xs] exI [of _ s]) (simp add: run)
    next
      case False
      have inv': "pinv {c} (zs @ p # c # ys) s" using inv snoc by simp
      obtain t where t: "RemoveFreeChunkFromBin p s = Inr t"
        "pinv {p, c} (zs @ p # c # ys) t" "bin_step s t"
        using Remove_step [OF inv', of p] p(3) l False by auto
      from Merge_step [OF t(2)] obtain s' where s': "merge_chunks p c t = Inr s'"
        "pinv {p} (zs @ p # ys) s'" "rest_of s' = rest_of t" "next_host s' = next_host t"
        "\<forall>d. d \<noteq> p \<longrightarrow> d \<noteq> c \<longrightarrow> block_of s' d = block_of t d"
        "block_of s' p = (block_of t p)\<lparr> b_size := b_size (block_of t p) + b_size (block_of t c) \<rparr>"
        using p(3) by (auto simp: insert_Diff_if insert_commute)
      have "distinct (zs @ p # c # ys)" using pinv_distinct [OF t(2)] .
      then have fr: "p \<notin> set zs" "c \<notin> set zs" "p \<notin> set ys" "c \<notin> set ys" by auto
      have eq: "block_of t d = block_of s d" for d using t(3) by (simp add: bin_step_def)
      have "blocks_of s' zs = blocks_of s zs" "blocks_of s' ys = blocks_of s ys"
        using s'(5) eq fr by (auto intro!: blocks_of_cong) metis+
      moreover have "rest_of s' = rest_of s" "next_host s' = next_host s"
        using s'(3,4) t(3) by (simp_all add: bin_step_def)
      moreover have "\<not> b_used (block_of s c)" using pinv_X_heap [OF inv, of c] by auto
      ultimately show ?thesis using s' l p eq False snoc t(1) fr
        by (intro exI [of _ p] exI [of _ zs] exI [of _ s']) (simp add: run)
    qed
  qed
qed

text \<open>Together: the operation succeeds and the new list of blocks is the coalesced one.\<close>

lemma Try_to_merge_step:
  assumes inv: "pinv {c} (xs @ c # ys) s"
  shows "\<exists>m ids s'. try_to_merge c s = Inr (m, s') \<and> pinv {m} ids s' \<and> m \<in> set ids \<and>
     rest_of s' = rest_of s \<and> next_host s' = next_host s \<and>
     blocks_of s' ids = coalesce (blocks_of s xs) (block_of s c) (blocks_of s ys) \<and>
     (c \<in> set ids \<longrightarrow> m = c)"
proof -
  from Merge_next_step [OF inv] obtain ys' t where t: "merge_with_next c s = Inr t"
    "pinv {c} (xs @ c # ys') t" "rest_of t = rest_of s" "next_host t = next_host s"
    "blocks_of t xs = blocks_of s xs"
    "blocks_of t (c # ys') = absorb (block_of s c) (blocks_of s ys)" by auto
  from Merge_prev_step [OF t(2)] obtain m xs' s' where m: "merge_with_prev c t = Inr (m, s')"
    "pinv {m} (xs' @ m # ys') s'" "rest_of s' = rest_of t" "next_host s' = next_host t"
    "blocks_of s' (xs' @ m # ys') =
       (if xs = [] \<or> b_used (last (blocks_of t xs)) then blocks_of t (xs @ c # ys')
        else butlast (blocks_of t xs) @ absorb (last (blocks_of t xs)) (blocks_of t (c # ys')))"
    "c \<in> set (xs' @ m # ys') \<longrightarrow> m = c" by blast
  have "blocks_of s' (xs' @ m # ys') =
      coalesce (blocks_of s xs) (block_of s c) (blocks_of s ys)"
    using m(5) t(5,6) by (simp add: coalesce_def)
  moreover have "try_to_merge c s = Inr (m, s')" using t(1) m(1) by (simp add: try_to_merge_def)
  moreover have "rest_of s' = rest_of s" "next_host s' = next_host s" using t m by simp_all
  moreover have "m \<in> set (xs' @ m # ys')" by simp
  ultimately show ?thesis using m(2,6) by blast
qed

end
