(* ===== verification/Pool_Alloc.thy ===== *)
theory Pool_Alloc
  imports Pool_Coalesce
begin

text \<open>
  The search for a free chunk is best fit: among the free chunks that fit it returns the
  smallest, and of those the one at the lowest address; it finds one whenever there is one.
  Allocation then splits it as the code's policy says. Each operation is described on the list
  of blocks.
\<close>

section \<open>The list of chunks is determined by the state\<close>

lemma assoc_sort_unique:
  assumes d: "distinct (map fst ps)" and s: "sorted (map fst qs)" and dq: "distinct (map fst qs)"
    and e: "set qs = set ps"
  shows "sort_key fst ps = qs"
proof -
  have "map fst (sort_key fst ps) = map fst qs"
  proof (rule sorted_distinct_set_unique)
    show "sorted (map fst (sort_key fst ps))" by simp
    have "distinct ps" using d by (simp add: distinct_map)
    then show "distinct (map fst (sort_key fst ps))" using d by (simp add: distinct_map)
  qed (use s dq e in auto)
  moreover have m: "(fst p, the (map_of ps (fst p))) = p" if "p \<in> set ps" for p
    using that d by (metis map_of_eq_Some_iff option.sel prod.collapse)
  have "map (\<lambda>p. (fst p, the (map_of ps (fst p)))) (sort_key fst ps) = sort_key fst ps"
    by (rule map_idI) (simp add: m)
  moreover have "map (\<lambda>p. (fst p, the (map_of ps (fst p)))) qs = qs"
    by (rule map_idI) (simp add: m e)
  moreover have "map (\<lambda>p. (fst p, the (map_of ps (fst p)))) xs =
      map (\<lambda>a. (a, the (map_of ps a))) (map fst xs)" for xs by simp
  ultimately show ?thesis by metis
qed

lemma chunks_ordered_ids:
  assumes inv: "pinv X ids s"
  shows "chunks_ordered s = ids"
proof -
  let ?f = "\<lambda>c. (c_memptr (the (chunk_heap s c)), c)"
  obtain sp :: simple_pool where sg: "seg (chunk_heap s) 0 (pl_memptr sp) ids 0 (pl_end sp)"
    using pinvD [OF inv] by auto
  have dk: "distinct (map fst (chunks s))" using inv by (simp add: pinv_def links_ok_def)
  have "sort_key fst (chunks s) = map ?f ids"
  proof (rule assoc_sort_unique [OF dk])
    have srt: "sorted_wrt (<) (map fst (map ?f ids))"
    proof -
      have pos: "0 < c_size (the (chunk_heap s c))" if "c \<in> set ids" for c
        using seg_in [OF sg that] by auto
      have "sorted_wrt (\<lambda>c d. c_memptr (the (chunk_heap s c)) < c_memptr (the (chunk_heap s d))) ids"
        using seg_sorted [OF sg]
        by (rule sorted_wrt_mono_rel [rotated]) (use pos in fastforce)
      then show ?thesis by (simp add: sorted_wrt_map comp_def)
    qed
    then show "sorted (map fst (map ?f ids))" "distinct (map fst (map ?f ids))"
      using strict_sorted_iff by blast+
    show "set (map ?f ids) = set (chunks s)"
    proof -
      have "p \<in> set (chunks s) \<longleftrightarrow> p \<in> set (map ?f ids)" for p
      proof -
        have "p \<in> set (chunks s) \<longleftrightarrow> map_of (chunks s) (fst p) = Some (snd p)"
          using dk by (simp add: map_of_eq_Some_iff)
        also have "\<dots> \<longleftrightarrow> (\<exists>k. chunk_heap s (snd p) = Some k \<and> c_memptr k = fst p)"
          by (rule pinv_lookup [OF inv])
        also have "\<dots> \<longleftrightarrow> snd p \<in> set ids \<and> p = ?f (snd p)"
        proof (cases "chunk_heap s (snd p)")
          case None
          then show ?thesis using pinv_dom [OF inv] by (metis domIff option.distinct(1))
        next
          case (Some k)
          then show ?thesis using pinv_heap_ids [OF inv Some] by (cases p) auto
        qed
        finally show ?thesis by auto
      qed
      then show ?thesis by blast
    qed
  qed
  then show ?thesis by (simp add: chunks_ordered_def comp_def)
qed

definition pool_blocks :: "pool \<Rightarrow> block list" where
  "pool_blocks s = blocks_of s (chunks_ordered s)"

lemma pool_blocks_eq: "pinv X ids s \<Longrightarrow> pool_blocks s = blocks_of s ids"
  by (simp add: pool_blocks_def chunks_ordered_ids)

section \<open>Best fit\<close>

definition fits :: "nat \<Rightarrow> nat \<Rightarrow> bool \<Rightarrow> block \<Rightarrow> bool" where
  "fits num_bytes stream use_stream b \<longleftrightarrow> \<not> b_used b \<and> num_bytes \<le> b_size b \<and>
     (use_stream \<longrightarrow> b_assoc b \<and> stream = b_stream b)"

definition block_key :: "block \<Rightarrow> nat \<times> nat" where
  "block_key b = (b_size b, b_addr b)"

lemma chunk_key_block:
  "chunk_heap s c = Some k \<Longrightarrow> chunk_key (chunk_heap s) c = block_key (block_of s c)"
  by (simp add: chunk_key_def block_key_def)

lemma got_chunk_fits:
  "chunk_heap s c = Some k \<Longrightarrow> \<not> c_used k \<Longrightarrow>
   got_chunk n st us k = fits n st us (block_of s c)"
  by (auto simp: got_chunk_def fits_def block_of_def Let_def)

lemma find_in_bin_find:
  assumes "\<And>c. c \<in> set cs \<Longrightarrow> \<exists>k. chunk_heap s c = Some k \<and> \<not> c_used k"
  shows "find_in_bin s n st us cs = Inr (find (\<lambda>c. fits n st us (block_of s c)) cs)"
  using assms
proof (induction cs)
  case (Cons c cs)
  from Cons.prems [of c] obtain k where k: "chunk_heap s c = Some k" "\<not> c_used k" by auto
  then show ?case using Cons got_chunk_fits [OF k] by (simp add: deref_def)
qed simp

text \<open>The search of the bins is one search of the bins put together.\<close>

definition search_result ::
  "pool \<Rightarrow> nat \<Rightarrow> nat \<Rightarrow> bool \<Rightarrow> nat list \<Rightarrow> (nat \<times> cptr) option \<Rightarrow> bool" where
  "search_result s n st us is r \<longleftrightarrow>
     (case r of
        None \<Rightarrow> \<forall>i\<in>set is. \<forall>c\<in>set (bins s ! i). \<not> fits n st us (block_of s c)
      | Some (i, c) \<Rightarrow> \<exists>is1 is2 cs1 cs2. is = is1 @ i # is2 \<and> bins s ! i = cs1 @ c # cs2 \<and>
          fits n st us (block_of s c) \<and> (\<forall>d\<in>set cs1. \<not> fits n st us (block_of s d)) \<and>
          (\<forall>j\<in>set is1. \<forall>d\<in>set (bins s ! j). \<not> fits n st us (block_of s d)))"

lemma find_in_bins_Inr:
  assumes "\<And>i. i \<in> set is \<Longrightarrow> i < length (bins s)"
    "\<And>i c. i \<in> set is \<Longrightarrow> c \<in> set (bins s ! i) \<Longrightarrow> \<exists>k. chunk_heap s c = Some k \<and> \<not> c_used k"
  shows "\<exists>r. find_in_bins s n st us is = Inr r \<and> search_result s n st us is r"
  using assms
proof (induction "is")
  case (Cons i "is")
  have b: "bin_at s i = Inr (bins s ! i)" using Cons.prems(1) [of i] by (simp add: bin_at_def)
  have f: "find_in_bin s n st us (bins s ! i) =
      Inr (find (\<lambda>c. fits n st us (block_of s c)) (bins s ! i))"
    using Cons.prems(2) [of i] by (intro find_in_bin_find) simp
  show ?case
  proof (cases "find (\<lambda>c. fits n st us (block_of s c)) (bins s ! i)")
    case None
    have "\<exists>r. find_in_bins s n st us is = Inr r \<and> search_result s n st us is r"
      by (rule Cons.IH) (use Cons.prems in auto)
    then obtain r where r: "find_in_bins s n st us is = Inr r" "search_result s n st us is r" by auto
    have no: "\<forall>c\<in>set (bins s ! i). \<not> fits n st us (block_of s c)"
      using None by (simp add: find_None_iff)
    have "search_result s n st us (i # is) r"
    proof (cases r)
      case None
      then show ?thesis using r no by (simp add: search_result_def)
    next
      case (Some q)
      obtain j c where q: "q = (j, c)" by (cases q)
      from r(2) Some q obtain is1 is2 cs1 cs2 where "is = is1 @ j # is2"
         "bins s ! j = cs1 @ c # cs2" "fits n st us (block_of s c)"
         "\<forall>d\<in>set cs1. \<not> fits n st us (block_of s d)"
         "\<forall>j\<in>set is1. \<forall>d\<in>set (bins s ! j). \<not> fits n st us (block_of s d)"
        by (auto simp: search_result_def)
      then have "\<exists>is1 is2 cs1 cs2. i # is = is1 @ j # is2 \<and> bins s ! j = cs1 @ c # cs2 \<and>
         fits n st us (block_of s c) \<and> (\<forall>d\<in>set cs1. \<not> fits n st us (block_of s d)) \<and>
         (\<forall>j\<in>set is1. \<forall>d\<in>set (bins s ! j). \<not> fits n st us (block_of s d))"
        using no by (intro exI [of _ "i # is1"] exI [of _ is2] exI [of _ cs1] exI [of _ cs2]) auto
      then show ?thesis using Some q by (simp add: search_result_def)
    qed
    then show ?thesis using r f b None by simp
  next
    case (Some c)
    then obtain j where j: "j < length (bins s ! i)" "fits n st us (block_of s c)"
      "c = bins s ! i ! j" "\<forall>l<j. \<not> fits n st us (block_of s (bins s ! i ! l))"
      by (auto simp: find_Some_iff)
    have "\<exists>is1 is2 cs1 cs2. i # is = is1 @ i # is2 \<and> bins s ! i = cs1 @ c # cs2 \<and>
         fits n st us (block_of s c) \<and> (\<forall>d\<in>set cs1. \<not> fits n st us (block_of s d)) \<and>
         (\<forall>j\<in>set is1. \<forall>d\<in>set (bins s ! j). \<not> fits n st us (block_of s d))"
      using j id_take_nth_drop [OF j(1)]
      by (intro exI [of _ "[]"] exI [of _ "is"] exI [of _ "take j (bins s ! i)"]
          exI [of _ "drop (Suc j) (bins s ! i)"]) (auto simp: in_set_conv_nth)
    then show ?thesis using f b Some by (simp add: search_result_def)
  qed
qed (simp add: search_result_def)

lemma find_in_bins_best:
  assumes inv: "pinv {} ids s" and n: "n < u64_lim"
  shows "\<exists>r. find_in_bins s n st us [BinIndexForSize s n..<kNumBins] = Inr r \<and>
    (case r of
       None \<Rightarrow> \<forall>c\<in>set ids. \<not> fits n st us (block_of s c)
     | Some (i, c) \<Rightarrow> i < kNumBins \<and> c \<in> set (bins s ! i) \<and> c \<in> set ids \<and>
         fits n st us (block_of s c) \<and>
         (\<forall>d\<in>set ids. fits n st us (block_of s d) \<longrightarrow> d \<noteq> c \<longrightarrow>
            key_less (block_key (block_of s c)) (block_key (block_of s d))))"
proof -
  let ?is = "[BinIndexForSize s n..<kNumBins]"
  have mono: "BinIndexForSize s a \<le> BinIndexForSize s b" if "a \<le> b" "b < u64_lim" for a b
  proof -
    have c: "kMinAllocationSize s = 2 ^ kMinAllocationBits s" "kMinAllocationBits s < 64"
      using inv by (auto simp: pinv_def cfg_ok_def)
    then have "kMinAllocationSize s < u64_lim"
      unfolding u64_lim_def by (metis power_strict_increasing one_less_numeral_iff semiring_norm(76))
    then show ?thesis using that c(1) unfolding BinIndexForSize_def by (intro bin_index_for_mono)
  qed
  have free: "\<exists>k. chunk_heap s d = Some k \<and> \<not> c_used k \<and> c_bin_index k = BinIndexForSize s (c_size k)
       \<and> d \<in> set (bins s ! BinIndexForSize s (c_size k)) \<and> n \<le> c_size k \<and> c_size k < u64_lim \<and>
       BinIndexForSize s n \<le> BinIndexForSize s (c_size k)"
    if d: "d \<in> set ids" "fits n st us (block_of s d)" for d
  proof -
    from pinv_chunk [OF inv d(1)] obtain k where k: "chunk_heap s d = Some k"
      "c_memptr k + c_size k < u64_lim" by metis
    have u: "\<not> c_used k" "n \<le> c_size k" using d(2) k by (auto simp: fits_def)
    moreover have b: "c_bin_index k = BinIndexForSize s (c_size k)"
      using pinv_flags(1) [OF inv k(1)] u by simp
    ultimately show ?thesis
      using k pinv_bins(4) [OF inv, of "BinIndexForSize s (c_size k)" d] mono [of n "c_size k"] by auto
  qed
  have "\<exists>r. find_in_bins s n st us ?is = Inr r \<and> search_result s n st us ?is r"
    by (rule find_in_bins_Inr) (use pinv_bins(1,4) [OF inv] in auto)
  then obtain r where r: "find_in_bins s n st us ?is = Inr r" and
    R: "search_result s n st us ?is r" by auto
  show ?thesis
  proof (cases r)
    case None
    have "\<not> fits n st us (block_of s c)" if "c \<in> set ids" for c
    proof
      assume "fits n st us (block_of s c)"
      from free [OF that this] obtain k :: chunk where "c \<in> set (bins s ! BinIndexForSize s (c_size k))"
        "BinIndexForSize s n \<le> BinIndexForSize s (c_size k)" by auto
      then show False
        using R None \<open>fits n st us (block_of s c)\<close> BinIndexForSize_less [of s "c_size k"]
        by (auto simp: search_result_def simp del: BinIndexForSize_less)
    qed
    then show ?thesis using r None by simp
  next
    case (Some q)
    obtain i c where q: "q = (i, c)" by (cases q)
    from R Some q obtain is1 is2 cs1 cs2 where sp: "?is = is1 @ i # is2"
      "bins s ! i = cs1 @ c # cs2" "fits n st us (block_of s c)"
      "\<forall>d\<in>set cs1. \<not> fits n st us (block_of s d)"
      "\<forall>j\<in>set is1. \<forall>d\<in>set (bins s ! j). \<not> fits n st us (block_of s d)"
      by (auto simp: search_result_def)
    have i: "i < kNumBins" "i \<in> set ?is" using arg_cong [OF sp(1), of set] by auto
    have before: "j \<in> set is1" if "BinIndexForSize s n \<le> j" "j < i" for j
    proof -
      have "sorted ?is" "j \<in> set ?is" using that i by auto
      then show ?thesis using that sp(1) by (auto simp: sorted_append)
    qed
    have ci: "c \<in> set (bins s ! i)" using sp(2) by simp
    then obtain k where k: "chunk_heap s c = Some k" "\<not> c_used k" "c_bin_index k = i"
      using pinv_bins(4) [OF inv i(1)] by auto
    have cids: "c \<in> set ids" using pinv_heap_ids [OF inv k(1)] .
    have ib: "i = BinIndexForSize s (c_size k)" using pinv_flags(1) [OF inv k(1)] k by simp
    have best: "key_less (block_key (block_of s c)) (block_key (block_of s d))"
      if d: "d \<in> set ids" "fits n st us (block_of s d)" "d \<noteq> c" for d
    proof -
      from free [OF d(1,2)] obtain l where l: "chunk_heap s d = Some l"
        "d \<in> set (bins s ! BinIndexForSize s (c_size l))" "c_size l < u64_lim"
        "BinIndexForSize s n \<le> BinIndexForSize s (c_size l)" by auto
      let ?j = "BinIndexForSize s (c_size l)"
      have "\<not> ?j < i" using before [OF l(4)] sp(5) l(2) d(2) by blast
      then consider "?j = i" | "i < ?j" by linarith
      then show ?thesis
      proof cases
        case 1
        then have "d \<in> set (cs1 @ c # cs2)" using l(2) sp(2) by simp
        then have "d \<in> set cs2" using d sp(4) by auto
        then have "key_less (chunk_key (chunk_heap s) c) (chunk_key (chunk_heap s) d)"
          using pinv_bins(2) [OF inv i(1)] sp(2) by (simp add: bin_sorted_def sorted_wrt_append)
        then show ?thesis using k(1) l(1) by (simp add: chunk_key_block)
      next
        case 2
        have cl: "c_size k < u64_lim" using pinv_chunk [OF inv cids] k(1) by force
        have "c_size k < c_size l"
        proof (rule ccontr)
          assume "\<not> c_size k < c_size l"
          then have "?j \<le> i" using mono [of "c_size l" "c_size k"] cl ib by simp
          then show False using 2 by simp
        qed
        then show ?thesis using k(1) l(1) by (simp add: block_key_def key_less_def)
      qed
    qed
    show ?thesis using r Some q i(1) ci cids sp(3) best by simp
  qed
qed

section \<open>Allocation\<close>

text \<open>What allocation does to the block it chose.\<close>

definition place :: "nat \<Rightarrow> nat \<Rightarrow> block \<Rightarrow> block" where
  "place stream sz b =
     b\<lparr> b_size := sz, b_used := True, b_assoc := True, b_stream := stream \<rparr>"

text \<open>The size taken from block \<open>b\<close> for a request of \<open>n\<close> bytes.\<close>

definition taken :: "pool \<Rightarrow> nat \<Rightarrow> block \<Rightarrow> nat" where
  "taken s n b = (if should_split s n (b_size b) then n else b_size b)"

definition best_fit :: "nat \<Rightarrow> nat \<Rightarrow> bool \<Rightarrow> block \<Rightarrow> block list \<Rightarrow> bool" where
  "best_fit n stream use_stream b bs \<longleftrightarrow> fits n stream use_stream b \<and>
     (\<forall>d\<in>set bs. fits n stream use_stream d \<longrightarrow> d \<noteq> b \<longrightarrow> key_less (block_key b) (block_key d))"

lemma upd_chunk_Some: "chunk_heap s c = Some k \<Longrightarrow>
   upd_chunk c f s = Inr (s\<lparr> chunk_heap := (chunk_heap s)(c \<mapsto> f k) \<rparr>)"
  by (simp add: upd_chunk_def deref_def)

lemma Find_step:
  assumes inv: "pinv {} ids s" and n: "0 < n" "n < u64_lim"
  shows "(\<forall>b\<in>set (blocks_of s ids). \<not> fits n st us b) \<and>
       FindChunkPtr (BinIndexForSize s n) n st us s = Inr (0, s) \<or>
     (\<exists>xs c ys zs t. ids = xs @ c # ys \<and>
       best_fit n st us (block_of s c) (blocks_of s ids) \<and>
       FindChunkPtr (BinIndexForSize s n) n st us s = Inr (c, t) \<and> c \<noteq> 0 \<and>
       pinv {} (xs @ c # zs @ ys) t \<and> rest_of t = rest_of s \<and>
       zs = (if should_split s n (b_size (block_of s c)) then [next_host s] else []) \<and>
       (\<forall>d. d \<noteq> c \<longrightarrow> d \<notin> set zs \<longrightarrow> block_of t d = block_of s d) \<and>
       blocks_of t zs = map (\<lambda>m. tail_block m n (block_of s c)) zs \<and>
       block_of t c = (block_of s c)\<lparr> b_size := if zs = [] then b_size (block_of s c) else n \<rparr>)"
proof -
  obtain r where r: "find_in_bins s n st us [BinIndexForSize s n..<kNumBins] = Inr r" and
    R: "case r of
       None \<Rightarrow> \<forall>c\<in>set ids. \<not> fits n st us (block_of s c)
     | Some (i, c) \<Rightarrow> i < kNumBins \<and> c \<in> set (bins s ! i) \<and> c \<in> set ids \<and>
         fits n st us (block_of s c) \<and>
         (\<forall>d\<in>set ids. fits n st us (block_of s d) \<longrightarrow> d \<noteq> c \<longrightarrow>
            key_less (block_key (block_of s c)) (block_key (block_of s d)))"
    using find_in_bins_best [OF inv n(2)] by auto
  show ?thesis
  proof (cases r)
    case None
    then show ?thesis using r R by (auto simp: FindChunkPtr_def blocks_of_def)
  next
    case (Some q)
    obtain i c where q: "q = (i, c)" by (cases q)
    from R Some q have c: "i < kNumBins" "c \<in> set (bins s ! i)" "c \<in> set ids"
      "fits n st us (block_of s c)" by auto
    have best: "best_fit n st us (block_of s c) (blocks_of s ids)"
      using R Some q by (auto simp: best_fit_def blocks_of_def)
    obtain xs ys where ids: "ids = xs @ c # ys" using in_set_split [OF c(3)] by auto
    have c0: "c \<noteq> 0" using pinv_chunk [OF inv c(3)] by metis
    obtain t1 where t1: "RemoveFreeChunkIterFromBin i c s = Inr t1" "pinv {c} ids t1" "bin_step s t1"
      using RemoveIter_step [OF inv c(1,2)] by auto
    from pinv_chunk [OF t1(2) c(3)] obtain k where k: "chunk_heap t1 c = Some k" "deref t1 c = Inr k"
      by metis
    have eq: "block_of t1 d = block_of s d" for d using t1(3) by (simp add: bin_step_def)
    have ks: "c_size k = b_size (block_of s c)" using eq [of c] k(1) by (metis block_of_simps(2))
    have nh: "next_host t1 = next_host s" "rest_of t1 = rest_of s"
      using t1(3) by (simp_all add: bin_step_def)
    have "defragmenter_state_started (rest_of t1) = defragmenter_state_started (rest_of s)"
      using nh(2) by simp
    then have sp_eq: "should_split t1 = should_split s"
      by (simp add: should_split_def fun_eq_iff rest_of_def)
    show ?thesis
    proof (cases "should_split s n (b_size (block_of s c))")
      case True
      have "n < b_size (block_of t1 c)" using True eq by (simp add: should_split_def)
      with Split_step [OF t1(2) [unfolded ids] _ n(1)] obtain t2 where
        t2: "try_splitting_chunks c n t1 = Inr t2" "pinv {c} (xs @ c # next_host s # ys) t2"
        "rest_of t2 = rest_of t1"
        "\<forall>d. d \<noteq> c \<longrightarrow> d \<noteq> next_host s \<longrightarrow> block_of t2 d = block_of t1 d"
        "block_of t2 c = (block_of t1 c)\<lparr> b_size := n \<rparr>"
        "block_of t2 (next_host s) = tail_block (next_host s) n (block_of t1 c)"
        unfolding nh(1) by auto
      obtain t3 where t3: "InsertFreeChunkIntoBin c t2 = Inr t3"
        "pinv {} (xs @ c # next_host s # ys) t3" "bin_step t2 t3"
        using Insert_step [OF t2(2), of c] by auto
      have eq3: "block_of t3 d = block_of t2 d" "rest_of t3 = rest_of t2" for d
        using t3(3) by (simp_all add: bin_step_def)
      have "FindChunkPtr (BinIndexForSize s n) n st us s = Inr (c, t3)"
        using r Some q t1(1) k True ks sp_eq t2(1) t3(1) by (simp add: FindChunkPtr_def)
      then show ?thesis using True ids best c0 t3(2) t2 eq eq3 nh
        by (intro disjI2 exI [of _ xs] exI [of _ c] exI [of _ ys] exI [of _ "[next_host s]"]
            exI [of _ t3]) simp
    next
      case False
      obtain t3 where t3: "InsertFreeChunkIntoBin c t1 = Inr t3" "pinv {} ids t3" "bin_step t1 t3"
        using Insert_step [OF t1(2), of c] by auto
      have eq3: "block_of t3 d = block_of t1 d" "rest_of t3 = rest_of t1" for d
        using t3(3) by (simp_all add: bin_step_def)
      have "FindChunkPtr (BinIndexForSize s n) n st us s = Inr (c, t3)"
        using r Some q t1(1) k False ks sp_eq t3(1) by (simp add: FindChunkPtr_def)
      then show ?thesis using False ids best c0 t3(2) eq eq3 nh
        by (intro disjI2 exI [of _ xs] exI [of _ c] exI [of _ ys] exI [of _ "[]"]
            exI [of _ t3]) simp
    qed
  qed
qed

lemma Reuse_step:
  assumes inv: "pinv {} ids s" and n: "0 < n" "n < u64_lim"
  shows "(\<forall>b\<in>set (blocks_of s ids). \<not> fits n st us b) \<and> reuse_chunks n st us s = Inr (0, s) \<or>
     (\<exists>xs c ys zs t. ids = xs @ c # ys \<and>
       best_fit n st us (block_of s c) (blocks_of s ids) \<and>
       reuse_chunks n st us s = Inr (c, t) \<and> c \<noteq> 0 \<and> pinv {} (xs @ c # zs @ ys) t \<and>
       rest_of t = rest_of s \<and>
       zs = (if should_split s n (b_size (block_of s c)) then [next_host s] else []) \<and>
       blocks_of t xs = blocks_of s xs \<and> blocks_of t ys = blocks_of s ys \<and>
       blocks_of t zs = map (\<lambda>m. tail_block m n (block_of s c)) zs \<and>
       block_of t c = place st (taken s n (block_of s c)) (block_of s c))"
proof -
  from Find_step [OF inv n] consider
    (none) "\<forall>b\<in>set (blocks_of s ids). \<not> fits n st us b"
      "FindChunkPtr (BinIndexForSize s n) n st us s = Inr (0, s)"
  | (some) xs c ys zs t where "ids = xs @ c # ys"
      "best_fit n st us (block_of s c) (blocks_of s ids)"
      "FindChunkPtr (BinIndexForSize s n) n st us s = Inr (c, t)" "c \<noteq> 0"
      "pinv {} (xs @ c # zs @ ys) t" "rest_of t = rest_of s"
      "zs = (if should_split s n (b_size (block_of s c)) then [next_host s] else [])"
      "\<forall>d. d \<noteq> c \<longrightarrow> d \<notin> set zs \<longrightarrow> block_of t d = block_of s d"
      "blocks_of t zs = map (\<lambda>m. tail_block m n (block_of s c)) zs"
      "block_of t c = (block_of s c)\<lparr> b_size := if zs = [] then b_size (block_of s c) else n \<rparr>"
    by blast
  then show ?thesis
  proof cases
    case none
    then show ?thesis by (simp add: reuse_chunks_def)
  next
    case some
    let ?ids = "xs @ c # zs @ ys"
    have nu: "\<not> b_used (block_of t c)" using some(2,10) by (simp add: best_fit_def fits_def)
    obtain t1 where t1: "RemoveFreeChunkFromBin c t = Inr t1" "pinv {c} ?ids t1" "bin_step t t1"
      using Remove_step [OF some(5), of c] nu by auto
    from pinv_chunk [OF t1(2), of c] obtain k where k: "chunk_heap t1 c = Some k" by auto
    let ?k = "k\<lparr> c_used := True, c_associated_to_stream := True, c_stream := st \<rparr>"
    let ?t = "t1\<lparr> chunk_heap := (chunk_heap t1)(c \<mapsto> ?k) \<rparr>"
    have inv': "pinv {} ?ids ?t"
      by (rule pinv_flag_upd [OF t1(2) k]) (use pinv_flags [OF t1(2) k] in \<open>auto simp: same_geom_def\<close>)
    have run: "reuse_chunks n st us s = Inr (c, ?t)"
      using some(3,4) t1(1) k by (simp add: reuse_chunks_def upd_chunk_Some)
    have eq: "block_of t1 d = block_of t d" "rest_of t1 = rest_of t" for d
      using t1(3) by (simp_all add: bin_step_def)
    have fr: "c \<notin> set xs" "c \<notin> set ys" "c \<notin> set zs" "set zs \<inter> set xs = {}" "set zs \<inter> set ys = {}"
      using pinv_distinct [OF some(5)] by auto
    have other: "block_of ?t d = block_of t d" if "d \<noteq> c" for d
      using that eq by (simp add: block_of_upd)
    have same: "block_of ?t d = block_of s d" if "d \<in> set xs \<union> set ys" for d
    proof -
      have "d \<noteq> c" "d \<notin> set zs" using that fr by auto
      then show ?thesis using other some(8) by simp
    qed
    have "blocks_of ?t xs = blocks_of s xs" "blocks_of ?t ys = blocks_of s ys"
      by (rule blocks_of_cong, rule same, simp)+
    moreover have "blocks_of ?t zs = blocks_of t zs"
      by (rule blocks_of_cong, rule other) (use fr in auto)
    moreover have "block_of ?t c = place st (b_size (block_of t c)) (block_of t c)"
      using k eq(1) [of c] by (simp add: block_of_def Let_def place_def)
    moreover have "place st (b_size (block_of t c)) (block_of t c) =
        place st (taken s n (block_of s c)) (block_of s c)"
      using some(7,10) by (simp add: place_def taken_def)
    moreover have "rest_of ?t = rest_of s" using eq(2) some(6) by simp
    ultimately show ?thesis using some(1,2,4,7,9) inv' run
      by (intro disjI2 exI [of _ xs] exI [of _ c] exI [of _ ys] exI [of _ zs] exI [of _ ?t]) simp
  qed
qed

end
