(* ===== verification/Pool_Refine.thy ===== *)
theory Pool_Refine
  imports Pool_Alloc
begin

text \<open>
  The abstract specification of the pool: an allocator on the list of blocks, with no pointers,
  bins or hash map. Allocation takes the best fitting free block, freeing coalesces. The
  operations of the pool implement it: on every state that satisfies the invariant the list of
  blocks after the operation is what the specification computes from the list before.
\<close>

section \<open>The specification\<close>

fun best_block :: "(block \<Rightarrow> bool) \<Rightarrow> block list \<Rightarrow> block option" where
  "best_block P [] = None"
| "best_block P (b # bs) =
     (case best_block P bs of
        None \<Rightarrow> if P b then Some b else None
      | Some d \<Rightarrow> if P b \<and> key_less (block_key b) (block_key d) then Some b else Some d)"

definition replace_block :: "block \<Rightarrow> block list \<Rightarrow> block list \<Rightarrow> block list" where
  "replace_block b new bs = concat (map (\<lambda>d. if d = b then new else [d]) bs)"

definition allocated :: "nat \<Rightarrow> nat \<Rightarrow> nat \<Rightarrow> block \<Rightarrow> block" where
  "allocated n stream sz b = (place stream sz b)\<lparr> b_extra := sz - n \<rparr>"

definition alloc_parts :: "pool \<Rightarrow> nat \<Rightarrow> nat \<Rightarrow> block \<Rightarrow> block list" where
  "alloc_parts s n stream b =
     allocated n stream (taken s n b) b #
       (if should_split s n (b_size b) then [tail_block (next_host s) n b] else [])"

definition alloc_blocks ::
  "pool \<Rightarrow> nat \<Rightarrow> nat \<Rightarrow> bool \<Rightarrow> block list \<Rightarrow> (block \<times> block list) option" where
  "alloc_blocks s n stream use_stream bs =
     (case best_block (fits n stream use_stream) bs of
        None \<Rightarrow> None
      | Some b \<Rightarrow> Some (b, replace_block b (alloc_parts s n stream b) bs))"

definition freed :: "block \<Rightarrow> block" where
  "freed b = b\<lparr> b_used := False, b_extra := 0 \<rparr>"

definition free_block :: "nat \<Rightarrow> block list \<Rightarrow> block list option" where
  "free_block a bs =
     (case dropWhile (\<lambda>b. b_addr b \<noteq> a) bs of
        [] \<Rightarrow> None
      | b # ys \<Rightarrow> Some (coalesce (takeWhile (\<lambda>b. b_addr b \<noteq> a) bs) (freed b) ys))"

section \<open>Facts on the specification\<close>

lemma best_block_None: "best_block P bs = None \<longleftrightarrow> (\<forall>b\<in>set bs. \<not> P b)"
  by (induction bs) (auto split: option.splits)

lemma best_block_Some:
  assumes "b \<in> set bs" "P b" "\<And>d. d \<in> set bs \<Longrightarrow> P d \<Longrightarrow> d \<noteq> b \<Longrightarrow> key_less (block_key b) (block_key d)"
  shows "best_block P bs = Some b"
  using assms
proof (induction bs)
  case (Cons x xs)
  show ?case
  proof (cases "b \<in> set xs")
    case True
    then have "best_block P xs = Some b" using Cons by simp
    moreover have "\<not> (P x \<and> key_less (block_key x) (block_key b))" if "x \<noteq> b"
      using Cons.prems(3) [of x] that by (auto dest: key_less_trans)
    ultimately show ?thesis by auto
  next
    case False
    then have x: "x = b" using Cons.prems(1) by simp
    show ?thesis
    proof (cases "best_block P xs")
      case None
      then show ?thesis using x Cons.prems(2) by simp
    next
      case (Some d)
      have "d \<in> set xs \<and> P d" using Some
        by (induction xs arbitrary: d) (auto split: option.splits if_splits)
      then have "key_less (block_key b) (block_key d)" using Cons.prems(3) [of d] False by auto
      then show ?thesis using x Some Cons.prems(2) by simp
    qed
  qed
qed simp

lemma best_block_fit:
  "b \<in> set bs \<Longrightarrow> best_fit n st us b bs \<Longrightarrow> best_block (fits n st us) bs = Some b"
  by (intro best_block_Some) (auto simp: best_fit_def)

lemma replace_block_split:
  assumes "b \<notin> set xs" "b \<notin> set ys"
  shows "replace_block b new (xs @ b # ys) = xs @ new @ ys"
proof -
  have "concat (map (\<lambda>d. if d = b then new else [d]) zs) = zs" if "b \<notin> set zs" for zs
    using that by (induction zs) auto
  then show ?thesis using assms by (simp add: replace_block_def)
qed

lemma free_block_split:
  assumes "b_addr b = a" "\<And>d. d \<in> set xs \<Longrightarrow> b_addr d \<noteq> a"
  shows "free_block a (xs @ b # ys) = Some (coalesce xs (freed b) ys)"
proof -
  have "dropWhile (\<lambda>b. b_addr b \<noteq> a) (xs @ b # ys) = b # ys"
    "takeWhile (\<lambda>b. b_addr b \<noteq> a) (xs @ b # ys) = xs"
    using assms by (induction xs) auto
  then show ?thesis by (simp add: free_block_def)
qed

section \<open>The invariant of the pool\<close>

definition pool_ok :: "pool \<Rightarrow> bool" where
  "pool_ok s \<longleftrightarrow> pinv {} (chunks_ordered s) s \<and> coalesced (pool_blocks s)"

lemma pool_okI: "pinv {} ids s \<Longrightarrow> coalesced (blocks_of s ids) \<Longrightarrow> pool_ok s"
  by (simp add: pool_ok_def pool_blocks_eq chunks_ordered_ids)

lemma pool_okE:
  assumes "pool_ok s"
  obtains ids where "pinv {} ids s" "coalesced (blocks_of s ids)" "pool_blocks s = blocks_of s ids"
    "chunks_ordered s = ids"
proof (rule that)
  show inv: "pinv {} (chunks_ordered s) s" using assms by (simp add: pool_ok_def)
  show "pool_blocks s = blocks_of s (chunks_ordered s)" by (simp add: pool_blocks_def)
  then show "coalesced (blocks_of s (chunks_ordered s))" using assms by (simp add: pool_ok_def)
qed simp

lemma blocks_of_fresh:
  assumes "distinct (xs @ c # ys)"
  shows "block_of s c \<notin> set (blocks_of s xs)" "block_of s c \<notin> set (blocks_of s ys)"
proof -
  have "c \<in> set zs" if "block_of s c \<in> set (blocks_of s zs)" for zs
    using that unfolding blocks_of_def by (metis block_of_simps(6) imageE list.set_map)
  then show "block_of s c \<notin> set (blocks_of s xs)" "block_of s c \<notin> set (blocks_of s ys)"
    using assms by auto
qed

lemma rest_of_sel:
  assumes "rest_of t = rest_of s"
  shows "bytes_in_use t = bytes_in_use s" "stats t = stats s" "chunk_count t = chunk_count s"
    "max_pool_size t = max_pool_size s" "high_memory_allocated t = high_memory_allocated s"
    "small_allocs t = small_allocs s" "hpu_events t = hpu_events s" "alignment t = alignment s"
    "defragmenter_state_started t = defragmenter_state_started s" "dev_events t = dev_events s"
  using assms by (auto simp: rest_of_def dest: arg_cong [where f = bytes_in_use]
      arg_cong [where f = stats] arg_cong [where f = chunk_count]
      arg_cong [where f = max_pool_size] arg_cong [where f = high_memory_allocated]
      arg_cong [where f = small_allocs] arg_cong [where f = hpu_events]
      arg_cong [where f = alignment] arg_cong [where f = defragmenter_state_started]
      arg_cong [where f = dev_events])

text \<open>The state without the chunk structure and the counters.\<close>

definition frame_of :: "pool \<Rightarrow> pool" where
  "frame_of s = (rest_of s)\<lparr> bytes_in_use := 0, chunk_count := 0, stats := MemoryStats_init,
     high_memory_allocated := False \<rparr>"

lemma frame_of_rest: "rest_of t = rest_of s \<Longrightarrow> frame_of t = frame_of s"
  by (simp add: frame_of_def)

lemma frame_of_fields [simp]:
  "frame_of (s\<lparr> stats := st \<rparr>) = frame_of s"
  "frame_of (s\<lparr> bytes_in_use := n \<rparr>) = frame_of s"
  "frame_of (s\<lparr> chunk_count := n \<rparr>) = frame_of s"
  "frame_of (s\<lparr> high_memory_allocated := b \<rparr>) = frame_of s"
  "frame_of (s\<lparr> chunk_heap := h \<rparr>) = frame_of s"
  by (simp_all add: frame_of_def rest_of_def cong: pool_ptr.case_cong)

lemma coalesced_placed:
  assumes "coalesced (xs @ b # ys)" "\<not> b_used b" "b_used b'" "bs = [] \<or> (\<exists>d. bs = [d] \<and> \<not> b_used d)"
  shows "coalesced (xs @ (b' # bs) @ ys)"
  using assms by (cases ys) (auto simp: coalesced_append coalesced_Cons)

lemma pool_upd_comm:
  "s\<lparr> chunk_count := n, chunk_heap := h \<rparr> = s\<lparr> chunk_heap := h, chunk_count := n \<rparr>"
  by simp

section \<open>Allocation implements the specification\<close>

lemma alloc_large_step:
  assumes ok: "pool_ok s" and n: "0 < n" "n < u64_lim" "n \<le> max_pool_size s"
  shows "\<exists>p t. alloc_large n st us s = Inr (p, t) \<and> pool_ok t \<and>
     (case alloc_blocks s n st us (pool_blocks s) of
        None \<Rightarrow> p = 0 \<and> t = s
      | Some (b, bs) \<Rightarrow> p = b_addr b \<and> 0 < p \<and> b \<in> set (pool_blocks s) \<and>
          best_fit n st us b (pool_blocks s) \<and> pool_blocks t = bs \<and> frame_of t = frame_of s \<and>
          high_memory_allocated t = high_memory_allocated s \<and>
          bytes_in_use t = add64 (bytes_in_use s) (taken s n b) \<and>
          chunk_count t = add64 (chunk_count s) 1 \<and>
          stats t = UpdateStats (taken s n b) True False (stats s))"
proof -
  obtain ids where ids: "pinv {} ids s" "coalesced (blocks_of s ids)"
    "pool_blocks s = blocks_of s ids" by (rule pool_okE [OF ok])
  from Reuse_step [OF ids(1) n(1,2)] consider
    (none) "\<forall>b\<in>set (blocks_of s ids). \<not> fits n st us b" "reuse_chunks n st us s = Inr (0, s)"
  | (some) xs c ys zs t where "ids = xs @ c # ys"
      "best_fit n st us (block_of s c) (blocks_of s ids)"
      "reuse_chunks n st us s = Inr (c, t)" "c \<noteq> 0" "pinv {} (xs @ c # zs @ ys) t"
      "rest_of t = rest_of s"
      "zs = (if should_split s n (b_size (block_of s c)) then [next_host s] else [])"
      "blocks_of t xs = blocks_of s xs" "blocks_of t ys = blocks_of s ys"
      "blocks_of t zs = map (\<lambda>m. tail_block m n (block_of s c)) zs"
      "block_of t c = place st (taken s n (block_of s c)) (block_of s c)"
    by blast
  then show ?thesis
  proof cases
    case none
    then have "alloc_blocks s n st us (pool_blocks s) = None"
      using ids(3) best_block_None [of "fits n st us" "blocks_of s ids"]
      by (simp add: alloc_blocks_def)
    then show ?thesis using none(2) n(3) ok by (simp add: alloc_large_def)
  next
    case some
    let ?b = "block_of s c" and ?ids = "xs @ c # zs @ ys"
    let ?sz = "taken s n ?b"
    have fit: "fits n st us ?b" using some(2) by (simp add: best_fit_def)
    from pinv_chunk [OF some(5), of c] obtain k where k: "chunk_heap t c = Some k"
      "c_memptr k + c_size k < u64_lim" by auto
    have ksz: "c_size k = ?sz" "c_used k" "c_memptr k = b_addr ?b"
      using some(11) k(1) by (simp_all add: block_of_def Let_def place_def)
    have nle: "n \<le> ?sz" using fit by (simp add: taken_def fits_def)
    let ?k = "k\<lparr> c_extra_space := ?sz - n \<rparr>"
    let ?t = "t\<lparr> chunk_count := add64 (chunk_count s) 1, chunk_heap := (chunk_heap t)(c \<mapsto> ?k) \<rparr>"
    let ?u = "?t\<lparr> bytes_in_use := add64 (bytes_in_use s) ?sz,
                   stats := UpdateStats ?sz True False (stats s) \<rparr>"
    note rs = rest_of_sel [OF some(6)]
    have run: "alloc_large n st us s = Inr (b_addr ?b, ?u)"
      using n(3) some(3,4) k ksz nle rs sub64_exact [of n ?sz]
      by (simp add: alloc_large_def upd_chunk_Some deref_def upd_stats_def)
    have "pinv {} ?ids (t\<lparr> chunk_heap := (chunk_heap t)(c \<mapsto> ?k) \<rparr>)"
      by (rule pinv_flag_upd [OF some(5) k(1)])
        (use pinv_flags [OF some(5) k(1)] ksz(2) in \<open>auto simp: same_geom_def\<close>)
    then have inv: "pinv {} ?ids ?u"
      by (simp add: pool_upd_comm)
    have blk: "block_of ?u d = (if d = c then allocated n st ?sz ?b else block_of t d)" for d
      using k(1) some(11) by (auto simp: block_of_def Let_def allocated_def place_def)
    have fr: "c \<notin> set xs" "c \<notin> set ys" "c \<notin> set zs" using pinv_distinct [OF some(5)] by auto
    have bu: "blocks_of ?u xs = blocks_of t xs" "blocks_of ?u ys = blocks_of t ys"
      "blocks_of ?u zs = blocks_of t zs"
      using fr blk by (auto intro!: blocks_of_cong)
    have bl: "blocks_of ?u ?ids = blocks_of s xs @ alloc_parts s n st ?b @ blocks_of s ys"
      using bu blk [of c] some(7-10) by (auto simp: alloc_parts_def)
    have ds: "distinct (xs @ c # ys)" using pinv_distinct [OF ids(1)] some(1) by simp
    have best: "best_block (fits n st us) (pool_blocks s) = Some ?b"
      using best_block_fit some(1,2) ids(3) by simp
    have spec: "alloc_blocks s n st us (pool_blocks s) = Some (?b, blocks_of ?u ?ids)"
      using best replace_block_split [OF blocks_of_fresh [OF ds]] ids(3) some(1) bl
      by (simp add: alloc_blocks_def)
    have co: "coalesced (blocks_of ?u ?ids)"
      unfolding bl alloc_parts_def
      by (rule coalesced_placed [of _ ?b])
        (use ids(2) some(1) fit in \<open>auto simp: fits_def allocated_def place_def tail_block_def\<close>)
    have "pool_blocks ?u = blocks_of ?u ?ids" using pool_blocks_eq [OF inv] .
    moreover have "0 < b_addr ?b"
      using pinv_chunk [OF some(5), of c] k(1) ksz(3) by force
    moreover have "frame_of ?u = frame_of s" using frame_of_rest [OF some(6)] by simp
    moreover have "?b \<in> set (pool_blocks s)" using ids(3) some(1) by simp
    ultimately show ?thesis using run spec pool_okI [OF inv co] some(2) ids(3) rs
      by (intro exI [of _ "b_addr ?b"] exI [of _ ?u]) simp
  qed
qed


section \<open>Freeing implements the specification\<close>

lemma block_at_unique:
  assumes inv: "pinv X ids s" and "b \<in> set (blocks_of s ids)" "d \<in> set (blocks_of s ids)"
    "b_addr b = b_addr d"
  shows "b = d"
proof -
  from assms obtain c e where ce: "c \<in> set ids" "e \<in> set ids" "b = block_of s c" "d = block_of s e"
    by (auto simp: blocks_of_def)
  obtain k where k: "chunk_heap s c = Some k" using pinv_chunk [OF inv ce(1)] by metis
  obtain l where l: "chunk_heap s e = Some l" using pinv_chunk [OF inv ce(2)] by metis
  have "c_memptr k = c_memptr l" using assms(4) k l unfolding ce(3,4) by simp
  then show ?thesis using pinv_memptr_inj [OF inv k l] ce(3,4) by metis
qed

lemma lookup_chunk_block:
  assumes inv: "pinv X ids s" and "b \<in> set (blocks_of s ids)"
  shows "lookup_chunk s (b_addr b) = Inr (b_id b) \<and> b_id b \<in> set ids \<and> b = block_of s (b_id b)"
proof -
  from assms(2) obtain c where c: "c \<in> set ids" "b = block_of s c" by (auto simp: blocks_of_def)
  obtain k where k: "chunk_heap s c = Some k" using pinv_chunk [OF inv c(1)] by metis
  have "map_of (chunks s) (b_addr b) = Some c"
    unfolding pinv_lookup [OF inv] using k c(2) by simp
  moreover have "b_id b = c" using c(2) by simp
  ultimately show ?thesis using c by (simp add: lookup_chunk_def)
qed

lemma lookup_chunk_none:
  assumes inv: "pinv X ids s" and "\<And>b. b \<in> set (blocks_of s ids) \<Longrightarrow> b_addr b \<noteq> a"
  shows "lookup_chunk s a = Inl Assert_failed"
proof -
  have "map_of (chunks s) a = None"
  proof (cases "map_of (chunks s) a")
    case (Some c)
    then obtain k where k: "chunk_heap s c = Some k" "c_memptr k = a"
      using pinv_lookup [OF inv] by auto
    then have "block_of s c \<in> set (blocks_of s ids)" "b_addr (block_of s c) = a"
      using pinv_heap_ids [OF inv k(1)] by (auto simp: blocks_of_def)
    then show ?thesis using assms(2) by blast
  qed
  then show ?thesis by (simp add: lookup_chunk_def)
qed

lemma delete_large_step:
  assumes ok: "pool_ok s" and b: "b \<in> set (pool_blocks s)" "b_used b" "b_uses b = []" "b_events b = 0"
  shows "\<exists>t. delete_large (b_id b) s = Inr t \<and> pool_ok t \<and>
     free_block (b_addr b) (pool_blocks s) = Some (pool_blocks t) \<and> frame_of t = frame_of s \<and>
     high_memory_allocated t =
       (high_memory_allocated s \<and> b_id (last (pool_blocks t)) \<noteq> b_id b) \<and>
     bytes_in_use t = sub64 (bytes_in_use s) (b_size b) \<and>
     chunk_count t = sub64 (chunk_count s) 1 \<and>
     stats t = UpdateStats (b_size b) False False (stats s)"
proof -
  obtain ids where ids: "pinv {} ids s" "coalesced (blocks_of s ids)"
    "pool_blocks s = blocks_of s ids" by (rule pool_okE [OF ok])
  define c where "c = b_id b"
  have c: "c \<in> set ids" "b = block_of s c"
    using lookup_chunk_block [OF ids(1)] b(1) ids(3) by (auto simp: c_def)
  obtain xs ys where sp: "ids = xs @ c # ys" using in_set_split [OF c(1)] by auto
  obtain k where k: "chunk_heap s c = Some k" "deref s c = Inr k" using pinv_chunk [OF ids(1) c(1)] by metis
  have kb: "c_used k" "c_stream_uses k = []" "c_event_count k = 0" "c_size k = b_size b"
    using b k(1) c(2) by simp_all
  let ?k = "k\<lparr> c_used := False, c_bin_index := kInvalidBinNum, c_extra_space := 0 \<rparr>"
  let ?t = "s\<lparr> chunk_heap := (chunk_heap s)(c \<mapsto> ?k), chunk_count := sub64 (chunk_count s) 1,
      bytes_in_use := sub64 (bytes_in_use s) (b_size b),
      stats := UpdateStats (b_size b) False False (stats s) \<rparr>"
  have "pinv {c} ids (s\<lparr> chunk_heap := (chunk_heap s)(c \<mapsto> ?k) \<rparr>)"
    by (rule pinv_flag_upd [OF ids(1) k(1)]) (use kb in \<open>auto simp: same_geom_def\<close>)
  then have inv: "pinv {c} (xs @ c # ys) ?t" using sp by simp
  from Try_to_merge_step [OF inv] obtain m ids' u where u: "try_to_merge c ?t = Inr (m, u)"
    "pinv {m} ids' u" "m \<in> set ids'" "rest_of u = rest_of ?t"
    "blocks_of u ids' = coalesce (blocks_of ?t xs) (block_of ?t c) (blocks_of ?t ys)"
    "c \<in> set ids' \<longrightarrow> m = c" by blast
  obtain v where v: "InsertFreeChunkIntoBin m u = Inr v" "pinv {} ids' v" "bin_step u v"
    using Insert_step [OF u(2), of m] by auto
  obtain p where p: "prealloc_pool v = Live_pool p" "ids' \<noteq> []" "pl_top p = last ids'"
    using pinvD [OF v(2)] by auto
  have p0: "pl_top p \<noteq> 0" using pinv_chunk [OF v(2), of "last ids'"] p by auto
  let ?w = "if pl_top p = c then v\<lparr> high_memory_allocated := False \<rparr> else v"
  have run: "delete_large c s = Inr ?w"
    using k kb u(1) v(1) p p0
    by (simp add: delete_large_def upd_chunk_Some upd_stats_def Let_def deref_pool_def
        del: fun_upd_apply)
  have blk: "block_of ?t d = (if d = c then freed b else block_of s d)" for d
    using k(1) c(2) by (auto simp: block_of_def Let_def freed_def)
  moreover have fr: "c \<notin> set xs" "c \<notin> set ys" using pinv_distinct [OF ids(1)] sp by auto
  moreover have "blocks_of ?t xs = blocks_of s xs" "blocks_of ?t ys = blocks_of s ys"
    using fr blk by (auto intro!: blocks_of_cong)
  ultimately have ub: "blocks_of u ids' = coalesce (blocks_of s xs) (freed b) (blocks_of s ys)"
    using u(5) by simp
  have inw: "pinv {} ids' ?w" using v(2) by simp
  have bw: "blocks_of ?w ids' = blocks_of u ids'"
  proof -
    have "blocks_of v ids' = blocks_of u ids'" by (rule bin_step_blocks [OF v(3)])
    then show ?thesis by (simp add: blocks_of_def)
  qed
  have pw: "pool_blocks ?w = coalesce (blocks_of s xs) (freed b) (blocks_of s ys)"
    using pool_blocks_eq [OF inw] bw ub by simp
  have "coalesced (pool_blocks ?w)"
    unfolding pw using ids(2) sp c(2) b(2)
    by (intro coalesced_coalesce) (auto simp: coalesced_append coalesced_Cons freed_def)
  then have okw: "pool_ok ?w" using pool_okI [OF inw] pool_blocks_eq [OF inw] by simp
  have "free_block (b_addr b) (pool_blocks s) = Some (pool_blocks ?w)"
  proof -
    have "b_addr d \<noteq> b_addr b" if "d \<in> set (blocks_of s xs)" for d
    proof
      assume "b_addr d = b_addr b"
      then have "d = b" using block_at_unique [OF ids(1)] that b(1) ids(3) sp by auto
      then have "b_id d = c" by (simp add: c_def)
      then show False using that fr by (auto simp: blocks_of_def)
    qed
    then have "free_block (b_addr b) (blocks_of s xs @ b # blocks_of s ys) =
        Some (coalesce (blocks_of s xs) (freed b) (blocks_of s ys))"
      by (intro free_block_split) auto
    then show ?thesis using ids(3) sp c(2) pw by simp
  qed
  moreover have rw: "rest_of v = rest_of ?t" using v(3) u(4) by (simp add: bin_step_def)
  then have "frame_of ?w = frame_of s" using frame_of_rest [OF rw] by simp
  moreover have "b_id (last (pool_blocks ?w)) = last ids'"
    using pool_blocks_eq [OF inw] p(2) by (simp add: last_blocks_of)
  moreover have "high_memory_allocated ?w = (high_memory_allocated s \<and> last ids' \<noteq> c)"
    using rest_of_sel(5) [OF rw] p(3) by simp
  moreover have "bytes_in_use ?w = sub64 (bytes_in_use s) (b_size b)"
    "chunk_count ?w = sub64 (chunk_count s) 1"
    "stats ?w = UpdateStats (b_size b) False False (stats s)"
    using rest_of_sel(1-3) [OF rw] by simp_all
  ultimately show ?thesis using run okw unfolding c_def by metis
qed

end
