(* ===== verification/Pool_Workspace.thy ===== *)
theory Pool_Workspace
  imports Pool_Refine
begin

text \<open>
  The workspace at the high end of the pool (\<open>extend_high_memory_allocation\<close>): the old
  workspace is given back to the tail of the memory and the new one cut off its end.
\<close>

section \<open>The specification on blocks\<close>

definition ws_release :: "block list \<Rightarrow> block list" where
  "ws_release bs =
     (if b_used (last bs) then coalesce (butlast bs) ((last bs)\<lparr> b_used := False \<rparr>) [] else bs)"

definition ws_cut :: "cptr \<Rightarrow> nat \<Rightarrow> block list \<Rightarrow> block list" where
  "ws_cut m sz bs =
     (let l = last bs; left = b_size l - sz in
      butlast bs @ (if left = 0 then [l\<lparr> b_used := True \<rparr>]
                    else [l\<lparr> b_size := left \<rparr>, (tail_block m left l)\<lparr> b_used := True \<rparr>]))"

definition ws_block :: "cptr \<Rightarrow> nat \<Rightarrow> block list \<Rightarrow> block" where
  "ws_block m sz bs = last (ws_cut m sz bs)"

text \<open>A workspace that is handed out again has no stream recorded on it and no pending event.\<close>

definition ws_idle :: "block list \<Rightarrow> bool" where
  "ws_idle bs \<longleftrightarrow> (b_used (last bs) \<longrightarrow> b_uses (last bs) = [] \<and> b_events (last bs) = 0)"

section \<open>The steps\<close>

lemma pinv_last:
  assumes inv: "pinv X ids s"
  shows "\<exists>p. prealloc_pool s = Live_pool p \<and> ids \<noteq> [] \<and> pl_top p = last ids \<and> last ids \<noteq> 0 \<and>
     last ids \<in> set ids \<and> ids = butlast ids @ [last ids] \<and>
     block_of s (last ids) = last (blocks_of s ids)"
proof -
  obtain p where p: "prealloc_pool s = Live_pool p" "ids \<noteq> []" "pl_top p = last ids"
    using pinvD [OF inv] by auto
  then show ?thesis using pinv_chunk [OF inv, of "last ids"] last_blocks_of [of ids s] by auto
qed

lemma Release_step:
  assumes inv: "pinv {} ids s" and co: "coalesced (blocks_of s ids)" and idle: "ws_idle (blocks_of s ids)"
  shows "\<exists>ids' t. release_workspace (last ids) s = Inr t \<and> pinv {} ids' t \<and>
     rest_of t = rest_of s \<and> next_host t = next_host s \<and>
     blocks_of t ids' = ws_release (blocks_of s ids)"
proof -
  define c xs where "c = last ids" and "xs = butlast ids"
  from pinv_last [OF inv] have sp: "ids = xs @ [c]" and lb: "block_of s c = last (blocks_of s ids)"
    and ci: "c \<in> set ids" unfolding c_def xs_def by auto
  obtain k where k: "chunk_heap s c = Some k" "deref s c = Inr k" using pinv_chunk [OF inv ci] by metis
  have bb: "butlast (blocks_of s ids) = blocks_of s xs" by (simp add: butlast_blocks_of xs_def)
  show ?thesis
  proof (cases "c_used k")
    case True
    let ?k = "k\<lparr> c_used := False \<rparr>"
    let ?t = "s\<lparr> chunk_heap := (chunk_heap s)(c \<mapsto> ?k) \<rparr>"
    have kb: "c_stream_uses k = [] \<and> c_event_count k = 0"
      using idle lb k True unfolding ws_idle_def by (metis block_of_simps(3-5))
    have "pinv {c} ids ?t"
      by (rule pinv_flag_upd [OF inv k(1)])
        (use kb True pinv_flags [OF inv k(1)] in \<open>auto simp: same_geom_def\<close>)
    then have inv': "pinv {c} (xs @ c # []) ?t" using sp by simp
    from Try_to_merge_step [OF inv'] obtain m ids' u where u: "try_to_merge c ?t = Inr (m, u)"
      "pinv {m} ids' u" "m \<in> set ids'" "rest_of u = rest_of ?t" "next_host u = next_host ?t"
      "blocks_of u ids' = coalesce (blocks_of ?t xs) (block_of ?t c) (blocks_of ?t [])" by blast
    obtain v where v: "InsertFreeChunkIntoBin m u = Inr v" "pinv {} ids' v" "bin_step u v"
      using Insert_step [OF u(2), of m] by auto
    have "c \<notin> set xs" using pinv_distinct [OF inv] sp by auto
    then have "blocks_of ?t xs = blocks_of s xs"
      by (auto intro!: blocks_of_cong simp: block_of_upd)
    moreover have "block_of ?t c = (block_of s c)\<lparr> b_used := False \<rparr>"
      using k(1) by (simp add: block_of_def Let_def)
    moreover have "b_used (last (blocks_of s ids))" using True k lb by (metis block_of_simps(3))
    ultimately have "blocks_of v ids' = ws_release (blocks_of s ids)"
      using bin_step_blocks [OF v(3)] u(6) lb bb by (simp add: ws_release_def)
    moreover have "release_workspace c s = Inr v"
      using u(1) v(1) k(1) by (simp add: release_workspace_def upd_chunk_Some)
    ultimately show ?thesis using v u(4,5) unfolding c_def by (auto simp: bin_step_def)
  next
    case False
    then have idu: "k\<lparr> c_used := False \<rparr> = k" by simp
    have nx: "c_next k = 0" and pv: "c_prev k = (if xs = [] then 0 else last xs)"
      using pinv_at [of "{}" xs c "[]" s] inv sp k(1) by auto
    have "try_to_merge c s = Inr (c, s)"
    proof (cases "xs = []")
      case True
      then show ?thesis using k nx pv
        by (simp add: try_to_merge_def merge_with_next_def merge_with_prev_def)
    next
      case False
      have lx: "last xs \<in> set ids" using False sp by simp
      then obtain l where l: "chunk_heap s (last xs) = Some l" "deref s (last xs) = Inr l"
        "last xs \<noteq> 0" using pinv_chunk [OF inv] by metis
      have "coalesced (blocks_of s xs @ [block_of s c])" using co sp by simp
      then have "b_used (block_of s (last xs))"
        using False \<open>\<not> c_used k\<close> k(1) by (simp add: coalesced_append last_blocks_of)
      then show ?thesis using k nx pv False l
        by (simp add: try_to_merge_def merge_with_next_def merge_with_prev_def)
    qed
    moreover have "InsertFreeChunkIntoBin c s = Inr s" by (rule Insert_skip [OF inv ci]) simp
    moreover have "upd_chunk c (\<lambda>k. k\<lparr> c_used := False \<rparr>) s = Inr s"
      unfolding upd_chunk_Some [OF k(1)] idu using k(1) by (simp add: fun_upd_idem)
    ultimately have "release_workspace c s = Inr s" by (simp add: release_workspace_def)
    moreover have "ws_release (blocks_of s ids) = blocks_of s ids"
      using False k(1) lb by (metis block_of_simps(3) ws_release_def)
    ultimately show ?thesis using inv unfolding c_def by auto
  qed
qed

lemma Cut_step:
  assumes inv: "pinv {} ids s" and free: "\<not> b_used (last (blocks_of s ids))"
    and sz: "0 < sz" "sz \<le> b_size (last (blocks_of s ids))"
  shows "\<exists>ids' t. cut_workspace sz (last ids) s = Inr (last ids', t) \<and> pinv {} ids' t \<and>
     rest_of t = rest_of s \<and>
     blocks_of t ids' = butlast (blocks_of s ids) @
       (let l = last (blocks_of s ids); left = b_size l - sz in
        if left = 0 then [l] else [l\<lparr> b_size := left \<rparr>, tail_block (next_host s) left l])"
proof -
  define c xs where "c = last ids" and "xs = butlast ids"
  from pinv_last [OF inv] have sp: "ids = xs @ [c]" and ci: "c \<in> set ids" and cl: "last ids = c"
    unfolding c_def xs_def by auto
  have bs: "blocks_of s ids = blocks_of s xs @ [block_of s c]" using sp by simp
  obtain k where k: "chunk_heap s c = Some k" "deref s c = Inr k" "c_memptr k + c_size k < u64_lim"
    using pinv_chunk [OF inv ci] by metis
  have ku: "\<not> c_used k" "sz \<le> c_size k" "b_size (block_of s c) = c_size k"
    using free sz(2) k(1) unfolding bs by simp_all
  define left where "left = c_size k - sz"
  have left: "sub64 (c_size k) sz = left" using ku k(3) by (simp add: sub64_exact left_def)
  have bi: "c_bin_index k = BinIndexForSize s (c_size k)" using pinv_flags(1) [OF inv k(1)] ku by simp
  have bl: "c_bin_index k < kNumBins" "c_bin_index k \<noteq> kInvalidBinNum" using bi by auto
  have cb: "c \<in> set (bins s ! c_bin_index k)" using pinv_bins(4) [OF inv bl(1), of c] k ku by simp
  show ?thesis
  proof (cases "left = 0")
    case True
    then have "cut_workspace sz c s = Inr (c, s)"
      using k(2) bl(2) left by (simp add: cut_workspace_def)
    then show ?thesis using inv True ku(3) unfolding bs cl
      by (intro exI [of _ ids] exI [of _ s]) (simp add: cl bs left_def)
  next
    case False
    have fnd: "bin_find (chunk_heap s) c (bins s ! c_bin_index k) = Some c"
    proof -
      obtain d where d: "bin_find (chunk_heap s) c (bins s ! c_bin_index k) = Some d"
        using cb unfolding bin_find_def by (metis (mono_tags, lifting) find_None_iff option.exhaust)
      then have "d \<in> set (bins s ! c_bin_index k)" "chunk_key (chunk_heap s) d = chunk_key (chunk_heap s) c"
        unfolding bin_find_def by (auto simp: find_Some_iff)
      then have "d = c"
        using pinv_key_inj [OF inv _ ci, of d] pinv_bins(4) [OF inv bl(1), of d] pinv_heap_ids [OF inv]
        by blast
      then show ?thesis using d by simp
    qed
    obtain t1 where t1: "RemoveFreeChunkIterFromBin (c_bin_index k) c s = Inr t1" "pinv {c} ids t1"
      "bin_step s t1" using RemoveIter_step [OF inv bl(1) cb] by auto
    have eq1: "block_of t1 d = block_of s d" "next_host t1 = next_host s" "rest_of t1 = rest_of s" for d
      using t1(3) by (simp_all add: bin_step_def)
    have "left < b_size (block_of t1 c)" using sz(1) ku eq1(1) by (simp add: left_def)
    with Split_step [of "{c}" xs c "[]" t1 left] t1(2) sp False obtain t2 where
      t2: "try_splitting_chunks c left t1 = Inr t2" "pinv {c} (xs @ c # [next_host s]) t2"
      "rest_of t2 = rest_of t1" "\<forall>d. d \<noteq> c \<longrightarrow> d \<noteq> next_host s \<longrightarrow> block_of t2 d = block_of t1 d"
      "block_of t2 c = (block_of t1 c)\<lparr> b_size := left \<rparr>"
      "block_of t2 (next_host s) = tail_block (next_host s) left (block_of t1 c)"
      unfolding eq1(2) by auto
    obtain t3 where t3: "InsertFreeChunkIntoBin c t2 = Inr t3" "pinv {} (xs @ c # [next_host s]) t3"
      "bin_step t2 t3" using Insert_step [OF t2(2), of c] by auto
    have eq3: "block_of t3 d = block_of t2 d" "rest_of t3 = rest_of t2" for d
      using t3(3) by (simp_all add: bin_step_def)
    obtain l where l: "chunk_heap t3 c = Some l" "c_next l = next_host s"
      using pinv_at [OF t3(2)] by auto
    have "c_bin_index k < length (bins s)" using pinv_bins(1) [OF inv bl(1)] .
    then have "cut_workspace sz c s = Inr (next_host s, t3)"
      using k(2) bl(2) left False fnd t1(1) t2(1) t3(1) l
      by (simp add: cut_workspace_def bin_at_def deref_def)
    moreover have "blocks_of t3 xs = blocks_of s xs"
    proof (rule blocks_of_cong)
      fix d assume d: "d \<in> set xs"
      then have "d \<noteq> c" "d \<noteq> next_host s" using pinv_distinct [OF t3(2)] by auto
      then show "block_of t3 d = block_of s d" using eq3 t2(4) eq1 by simp
    qed
    then have "blocks_of t3 (xs @ c # [next_host s]) = blocks_of s xs @
       [(block_of s c)\<lparr> b_size := left \<rparr>, tail_block (next_host s) left (block_of s c)]"
      using eq3 t2(5,6) eq1 by simp
    ultimately show ?thesis
      using t3(2) eq3(2) t2(3) eq1(3) False ku(3) unfolding bs cl
      by (intro exI [of _ "xs @ c # [next_host s]"] exI [of _ t3]) (simp add: left_def Let_def)
  qed
qed

lemma Mark_used_step:
  assumes inv: "pinv {} ids s" and c: "c \<in> set ids" "\<not> b_used (block_of s c)"
  shows "\<exists>u t. RemoveFreeChunkFromBin c s = Inr u \<and>
     upd_chunk c (\<lambda>k. k\<lparr> c_used := True \<rparr>) u = Inr t \<and> pinv {} ids t \<and> rest_of t = rest_of s \<and>
     (\<forall>d. block_of t d = (if d = c then (block_of s c)\<lparr> b_used := True \<rparr> else block_of s d))"
proof -
  obtain u where u: "RemoveFreeChunkFromBin c s = Inr u" "pinv {c} ids u" "bin_step s u"
    using Remove_step [OF inv c(1) _ c(2)] by auto
  obtain k where k: "chunk_heap u c = Some k" using pinv_chunk [OF u(2) c(1)] by metis
  let ?k = "k\<lparr> c_used := True \<rparr>"
  let ?t = "u\<lparr> chunk_heap := (chunk_heap u)(c \<mapsto> ?k) \<rparr>"
  have "pinv {} ids ?t"
    by (rule pinv_flag_upd [OF u(2) k]) (use pinv_flags [OF u(2) k] in \<open>auto simp: same_geom_def\<close>)
  moreover have "block_of ?t d = (if d = c then (block_of s c)\<lparr> b_used := True \<rparr> else block_of s d)"
    for d
  proof -
    have "block_of u c = block_of s c" "block_of u d = block_of s d" using u(3) by (simp_all add: bin_step_def)
    then show ?thesis using k by (auto simp: block_of_def Let_def)
  qed
  moreover have "rest_of ?t = rest_of s" using u(3) by (simp add: bin_step_def)
  ultimately show ?thesis using u(1) upd_chunk_Some [OF k] by blast
qed

section \<open>The operation implements the specification\<close>

lemma last_coalesce_free:
  "\<not> b_used b \<Longrightarrow> \<not> b_used (last (coalesce xs b []))"
  by (cases xs rule: rev_cases) (auto simp: coalesce_def)

lemma coalesced_snoc:
  "coalesced (xs @ [b]) \<longleftrightarrow> coalesced xs \<and> (xs = [] \<or> b_used (last xs) \<or> b_used b)"
  by (auto simp: coalesced_append coalesced_Cons)

lemma coalesced_ws_release:
  assumes "coalesced bs" "bs \<noteq> []"
  shows "coalesced (ws_release bs)"
proof (cases "b_used (last bs)")
  case True
  have "coalesced (butlast bs @ [last bs])" using assms by simp
  then have "coalesced (butlast bs)" by (simp only: coalesced_snoc)
  then show ?thesis using True by (simp add: ws_release_def coalesced_coalesce)
qed (use assms in \<open>simp add: ws_release_def\<close>)

lemma coalesced_ws_cut:
  assumes "coalesced bs" "bs \<noteq> []" "\<not> b_used (last bs)"
  shows "coalesced (ws_cut m sz bs)"
proof -
  have "coalesced (butlast bs @ [last bs])" using assms by simp
  then have "coalesced (butlast bs)" "butlast bs = [] \<or> b_used (last (butlast bs))"
    using assms(3) by (auto simp only: coalesced_snoc)
  then show ?thesis by (auto simp: ws_cut_def Let_def coalesced_append coalesced_Cons)
qed

definition ws_start :: "bool \<Rightarrow> block list \<Rightarrow> block list" where
  "ws_start high bs = (if high then ws_release bs else bs)"

lemma mark_last_blocks:
  assumes "distinct ids" "ids \<noteq> []"
    "\<And>d. block_of t d = (if d = last ids then (block_of s (last ids))\<lparr> b_used := True \<rparr>
        else block_of s d)"
  shows "blocks_of t ids = butlast (blocks_of s ids) @ [(last (blocks_of s ids))\<lparr> b_used := True \<rparr>]"
proof -
  have "blocks_of t (butlast ids) = blocks_of s (butlast ids)"
  proof (rule blocks_of_cong)
    fix d assume "d \<in> set (butlast ids)"
    then have "d \<noteq> last ids" using assms(1,2)
      by (metis append_butlast_last_id distinct_append disjoint_iff list.set_intros(1))
    then show "block_of t d = block_of s d" using assms(3) by simp
  qed
  moreover have "blocks_of t ids = blocks_of t (butlast ids) @ [block_of t (last ids)]"
    using assms(2) blocks_of_simps(3) [of t "butlast ids" "[last ids]"] by simp
  ultimately show ?thesis
    using assms(2,3) by (simp add: butlast_blocks_of last_blocks_of)
qed

definition extend_result ::
  "nat \<Rightarrow> nat \<Rightarrow> pool \<Rightarrow> nat \<Rightarrow> pool \<Rightarrow> bool" where
  "extend_result sz current_ws_size s p t \<longleftrightarrow>
     (let bs = pool_blocks s; high = high_memory_allocated s; b1 = ws_start high bs;
          w = ws_block (next_host s) sz b1; d = sub64 (b_size w) current_ws_size
      in if max_pool_size s < sz \<or> \<not> high \<and> b_used (last bs) then p = 0 \<and> t = s
         else if high \<and> b_used (last bs) \<and> sz \<le> b_size (last bs) then
           p = b_addr (last bs) \<and> t = s
         else if b_size (last b1) < sz then
           p = 0 \<and> pool_blocks t = butlast b1 @ [(last b1)\<lparr> b_used := True \<rparr>] \<and>
           high_memory_allocated t = high \<and> bytes_in_use t = bytes_in_use s \<and>
           chunk_count t = chunk_count s \<and> stats t = stats s
         else
           p = b_addr w \<and> 0 < p \<and> pool_blocks t = ws_cut (next_host s) sz b1 \<and>
           high_memory_allocated t \<and>
           bytes_in_use t = add64 (bytes_in_use s) d \<and> chunk_count t = chunk_count s \<and>
           stats t = (UpdateStats d True False (stats s))\<lparr> scratch_mem_in_use := b_size w \<rparr>)"

lemma last_ws_release_free: "bs \<noteq> [] \<Longrightarrow> \<not> b_used (last (ws_release bs))"
  by (simp add: ws_release_def last_coalesce_free)

lemma Grab_step:
  fixes cur :: nat
  assumes inv: "pinv {} ids s" and co: "coalesced (blocks_of s ids)" and sz: "0 < sz"
    and free: "\<not> b_used (last (blocks_of s ids))"
  defines "w \<equiv> ws_block (next_host s) sz (blocks_of s ids)"
  defines "d \<equiv> sub64 (b_size w) cur"
  shows "\<exists>p t. grab_workspace sz cur s = Inr (p, t) \<and> pool_ok t \<and> frame_of t = frame_of s \<and>
     (if b_size (last (blocks_of s ids)) < sz then
        p = 0 \<and> rest_of t = rest_of s \<and>
        pool_blocks t = butlast (blocks_of s ids) @ [(last (blocks_of s ids))\<lparr> b_used := True \<rparr>]
      else
        p = b_addr w \<and> 0 < p \<and> pool_blocks t = ws_cut (next_host s) sz (blocks_of s ids) \<and>
        high_memory_allocated t \<and> bytes_in_use t = add64 (bytes_in_use s) d \<and>
        chunk_count t = chunk_count s \<and>
        stats t = (UpdateStats d True False (stats s))\<lparr> scratch_mem_in_use := b_size w \<rparr>)"
proof -
  from pinv_last [OF inv] obtain p where p: "prealloc_pool s = Live_pool p" "ids \<noteq> []"
    "pl_top p = last ids" "last ids \<in> set ids" "block_of s (last ids) = last (blocks_of s ids)" by auto
  obtain k where k: "chunk_heap s (last ids) = Some k" "deref s (last ids) = Inr k"
    using pinv_chunk [OF inv p(4)] by metis
  have ks: "c_size k = b_size (last (blocks_of s ids))" using k(1) p(5) by (metis block_of_simps(2))
  show ?thesis
  proof (cases "b_size (last (blocks_of s ids)) < sz")
    case True
    obtain u t where t: "RemoveFreeChunkFromBin (last ids) s = Inr u"
      "upd_chunk (last ids) (\<lambda>k. k\<lparr> c_used := True \<rparr>) u = Inr t" "pinv {} ids t" "rest_of t = rest_of s"
      "\<And>d. block_of t d = (if d = last ids then (block_of s (last ids))\<lparr> b_used := True \<rparr>
          else block_of s d)"
      using Mark_used_step [OF inv p(4)] free p(5) by auto
    have bt: "blocks_of t ids = butlast (blocks_of s ids) @ [(last (blocks_of s ids))\<lparr> b_used := True \<rparr>]"
      by (rule mark_last_blocks [OF pinv_distinct [OF inv] p(2) t(5)])
    have "coalesced (butlast (blocks_of s ids) @ [last (blocks_of s ids)])" using co p(2) by simp
    then have "coalesced (blocks_of t ids)" unfolding bt coalesced_snoc by simp
    then have "pool_ok t" by (rule pool_okI [OF t(3)])
    moreover have "grab_workspace sz cur s = Inr (0, t)"
      using p k ks True t(1,2) by (simp add: grab_workspace_def deref_pool_def)
    ultimately show ?thesis
      using True bt pool_blocks_eq [OF t(3)] t(4) frame_of_rest [OF t(4)] by simp
  next
    case False
    let ?s = "s\<lparr> high_memory_allocated := True \<rparr>"
    have inv': "pinv {} ids ?s" using inv by simp
    have bs: "blocks_of ?s ids = blocks_of s ids" by (simp add: blocks_of_def)
    obtain ids' u where u: "cut_workspace sz (last ids) ?s = Inr (last ids', u)" "pinv {} ids' u"
      "rest_of u = rest_of ?s" and ub: "blocks_of u ids' = butlast (blocks_of s ids) @
       (let l = last (blocks_of s ids); left = b_size l - sz in
        if left = 0 then [l] else [l\<lparr> b_size := left \<rparr>, tail_block (next_host s) left l])"
      using Cut_step [OF inv', of sz] sz free False unfolding bs by (auto simp: Let_def)
    from pinv_last [OF u(2)] have lu: "ids' \<noteq> []" "last ids' \<in> set ids'"
      "block_of u (last ids') = last (blocks_of u ids')" by auto
    have fu: "\<not> b_used (block_of u (last ids'))"
      unfolding lu(3) ub using free by (simp add: Let_def tail_block_def)
    obtain v t where t: "RemoveFreeChunkFromBin (last ids') u = Inr v"
      "upd_chunk (last ids') (\<lambda>k. k\<lparr> c_used := True \<rparr>) v = Inr t" "pinv {} ids' t"
      "rest_of t = rest_of u"
      "\<And>d. block_of t d = (if d = last ids' then (block_of u (last ids'))\<lparr> b_used := True \<rparr>
          else block_of u d)"
      using Mark_used_step [OF u(2) lu(2) fu] by auto
    have bt: "blocks_of t ids' = ws_cut (next_host s) sz (blocks_of s ids)"
      unfolding mark_last_blocks [OF pinv_distinct [OF u(2)] lu(1) t(5)] ub ws_cut_def
      by (simp add: Let_def butlast_append)
    have lw: "block_of t (last ids') = w"
      using last_blocks_of [OF lu(1), of t] bt by (simp add: w_def ws_block_def)
    obtain l where l: "chunk_heap t (last ids') = Some l" "deref t (last ids') = Inr l" "0 < c_memptr l"
      using pinv_chunk [OF t(3) lu(2)] by metis
    have lb: "c_size l = b_size w" "c_memptr l = b_addr w" using l(1) lw by (metis block_of_simps(1,2))+
    let ?t = "t\<lparr> bytes_in_use := add64 (bytes_in_use t) d,
       stats := (UpdateStats d True False (stats t))\<lparr> scratch_mem_in_use := b_size w \<rparr> \<rparr>"
    have run: "grab_workspace sz cur s = Inr (b_addr w, ?t)"
      using p k ks False u(1) t(1,2) l lb
      by (simp add: grab_workspace_def deref_pool_def account_workspace_def upd_stats_def d_def
          Let_def)
    have inv_t: "pinv {} ids' ?t" using t(3) by simp
    have blt: "blocks_of ?t ids' = blocks_of t ids'" by (simp add: blocks_of_def)
    have "coalesced (blocks_of ?t ids')"
      unfolding blt bt by (rule coalesced_ws_cut [OF co _ free]) (use p(2) in simp)
    then have "pool_ok ?t" by (rule pool_okI [OF inv_t])
    moreover have r: "rest_of t = rest_of ?s" using t(4) u(3) by simp
    have "frame_of ?t = frame_of s" using frame_of_rest [OF r] by simp
    moreover note rest_of_sel [OF r]
    ultimately show ?thesis
      using run pool_blocks_eq [OF inv_t] blt bt False l(3) lb
      by (intro exI [of _ "b_addr w"] exI [of _ ?t]) simp
  qed
qed

lemma extend_high_step:
  assumes ok: "pool_ok s" and sz: "0 < sz"
    and idle: "high_memory_allocated s \<Longrightarrow> ws_idle (pool_blocks s)"
  shows "\<exists>p t. extend_high_memory_allocation sz cur s = Inr (p, t) \<and> pool_ok t \<and>
     frame_of t = frame_of s \<and> extend_result sz cur s p t"
proof -
  obtain ids where ids: "pinv {} ids s" "coalesced (blocks_of s ids)"
    "pool_blocks s = blocks_of s ids" by (rule pool_okE [OF ok])
  from pinv_last [OF ids(1)] obtain p where p: "prealloc_pool s = Live_pool p" "ids \<noteq> []"
    "pl_top p = last ids" "last ids \<noteq> 0" "last ids \<in> set ids"
    "block_of s (last ids) = last (blocks_of s ids)" by auto
  obtain k where k: "chunk_heap s (last ids) = Some k" "deref s (last ids) = Inr k"
    using pinv_chunk [OF ids(1) p(5)] by metis
  have kb: "c_size k = b_size (last (pool_blocks s))" "c_used k = b_used (last (pool_blocks s))"
    "c_memptr k = b_addr (last (pool_blocks s))"
    using k(1) p(6) ids(3) by (metis block_of_simps(1-3))+
  have run: "extend_high_memory_allocation sz cur s =
     (if max_pool_size s < sz \<or> \<not> high_memory_allocated s \<and> b_used (last (pool_blocks s))
      then Inr (0, s)
      else if high_memory_allocated s \<and> b_used (last (pool_blocks s)) \<and> sz \<le> b_size (last (pool_blocks s))
      then Inr (b_addr (last (pool_blocks s)), s)
      else bindR (if high_memory_allocated s then release_workspace (last ids) s else Inr s)
             (grab_workspace sz cur))"
    using p k kb by (simp add: extend_high_memory_allocation_def deref_pool_def grab_workspace_def)
  show ?thesis
  proof (cases "(max_pool_size s < sz \<or> \<not> high_memory_allocated s \<and> b_used (last (pool_blocks s))) \<or>
      (high_memory_allocated s \<and> b_used (last (pool_blocks s)) \<and> sz \<le> b_size (last (pool_blocks s)))")
    case True
    then show ?thesis using ok run by (auto simp: extend_result_def Let_def)
  next
    case False
    have "\<exists>ids' u. (if high_memory_allocated s then release_workspace (last ids) s else Inr s) = Inr u \<and>
       pinv {} ids' u \<and> rest_of u = rest_of s \<and> next_host u = next_host s \<and>
       blocks_of u ids' = ws_start (high_memory_allocated s) (pool_blocks s)"
      using Release_step [OF ids(1,2)] idle ids(1,3) by (auto simp: ws_start_def)
    then obtain ids' u where u: "(if high_memory_allocated s then release_workspace (last ids) s
         else Inr s) = Inr u" "pinv {} ids' u" "rest_of u = rest_of s" "next_host u = next_host s"
       "blocks_of u ids' = ws_start (high_memory_allocated s) (pool_blocks s)" by blast
    have ne: "pool_blocks s \<noteq> []" using ids(3) p(2) by simp
    have co: "coalesced (blocks_of u ids')"
      unfolding u(5) using coalesced_ws_release [OF _ ne] ids(2,3) by (simp add: ws_start_def)
    have fr: "\<not> b_used (last (blocks_of u ids'))"
      unfolding u(5) using last_ws_release_free [OF ne] False by (auto simp: ws_start_def)
    let ?b1 = "ws_start (high_memory_allocated s) (pool_blocks s)"
    let ?w = "ws_block (next_host s) sz ?b1"
    let ?d = "sub64 (b_size ?w) cur"
    obtain q t where g: "grab_workspace sz cur u = Inr (q, t)" "pool_ok t" "frame_of t = frame_of u"
      and R: "if b_size (last ?b1) < sz then
          q = 0 \<and> rest_of t = rest_of u \<and>
          pool_blocks t = butlast ?b1 @ [(last ?b1)\<lparr> b_used := True \<rparr>]
        else
          q = b_addr ?w \<and> 0 < q \<and> pool_blocks t = ws_cut (next_host s) sz ?b1 \<and>
          high_memory_allocated t \<and> bytes_in_use t = add64 (bytes_in_use u) ?d \<and>
          chunk_count t = chunk_count u \<and>
          stats t = (UpdateStats ?d True False (stats u))\<lparr> scratch_mem_in_use := b_size ?w \<rparr>"
      using Grab_step [OF u(2) co sz fr, of cur] unfolding u(4,5) by blast
    note ru = rest_of_sel(1-5) [OF u(3)]
    have "extend_result sz cur s q t"
    proof (cases "b_size (last ?b1) < sz")
      case True
      with R have r: "q = 0" "rest_of t = rest_of u"
        "pool_blocks t = butlast ?b1 @ [(last ?b1)\<lparr> b_used := True \<rparr>]" by simp_all
      note rt = rest_of_sel(1-5) [OF r(2)]
      show ?thesis unfolding extend_result_def Let_def using False True r(1,3) rt ru by auto
    next
      case small: False
      then show ?thesis unfolding extend_result_def Let_def using False R ru by auto
    qed
    moreover have "extend_high_memory_allocation sz cur s = Inr (q, t)"
      using run False u(1) g(1) by (simp only: if_False de_Morgan_disj bindR_Inr) auto
    ultimately show ?thesis using g(2,3) frame_of_rest [OF u(3)] by auto
  qed
qed

end
