(* ===== verification/Pool_Client.thy ===== *)
theory Pool_Client
  imports Pool_Workspace
begin

text \<open>
  What the clients of an allocator rely on, as a locale: the set of live allocations, which are
  pairwise disjoint, and how allocating and freeing change it. Both allocators of the code are
  instances: the small allocations inside one chunk and the pool with the small allocations
  on top of it.
\<close>

section \<open>The contract of an allocator\<close>

locale suballocator =
  fixes inv :: "'s \<Rightarrow> bool"
    and live :: "'s \<Rightarrow> (nat \<times> nat) set"
    and idle :: "nat \<Rightarrow> 's \<Rightarrow> bool"
    and request :: "'r \<Rightarrow> 's \<Rightarrow> bool"
    and bytes :: "'r \<Rightarrow> nat"
    and alloc :: "'r \<Rightarrow> 's \<Rightarrow> (nat \<times> 's) res"
    and free :: "nat \<Rightarrow> 's \<Rightarrow> 's res"
  assumes live_pos: "inv s \<Longrightarrow> (p, a) \<in> live s \<Longrightarrow> 0 < p \<and> 0 < a"
    and live_disjoint: "inv s \<Longrightarrow> (p, a) \<in> live s \<Longrightarrow> (q, b) \<in> live s \<Longrightarrow>
      (p, a) = (q, b) \<or> p + a \<le> q \<or> q + b \<le> p"
    and alloc_law: "inv s \<Longrightarrow> request r s \<Longrightarrow>
      \<exists>p t. alloc r s = Inr (p, t) \<and> inv t \<and>
        (if p = 0 then live t = live s
         else \<exists>a\<ge>bytes r. (p, a) \<notin> live s \<and> live t = insert (p, a) (live s) \<and> idle p t)"
    and free_law: "inv s \<Longrightarrow> (p, a) \<in> live s \<Longrightarrow> idle p s \<Longrightarrow>
      \<exists>t. free p s = Inr t \<and> inv t \<and> live t = live s - {(p, a)}"
begin

lemma live_inj: "inv s \<Longrightarrow> (p, a) \<in> live s \<Longrightarrow> (p, b) \<in> live s \<Longrightarrow> a = b"
  using live_disjoint [of s p a p b] live_pos [of s p a] live_pos [of s p b] by auto

text \<open>What is returned overlaps nothing that is live.\<close>

lemma alloc_fresh:
  assumes "inv s" "request r s" "alloc r s = Inr (p, t)" "p \<noteq> 0"
  shows "\<exists>a\<ge>bytes r. (p, a) \<in> live t \<and> (\<forall>(q, b)\<in>live s. p + a \<le> q \<or> q + b \<le> p)"
proof -
  from alloc_law [OF assms(1,2)] assms(3,4) obtain a where a: "bytes r \<le> a" "inv t"
    "(p, a) \<notin> live s" "live t = insert (p, a) (live s)" by auto
  then have "p + a \<le> q \<or> q + b \<le> p" if "(q, b) \<in> live s" for q b
    using live_disjoint [OF a(2), of p a q b] that by auto
  then show ?thesis using a by auto
qed

lemma alloc_free_live:
  assumes "inv s" "request r s" "alloc r s = Inr (p, t)" "p \<noteq> 0"
  shows "\<exists>u. free p t = Inr u \<and> inv u \<and> live u = live s"
proof -
  from alloc_law [OF assms(1,2)] assms(3,4) obtain a where a: "inv t" "(p, a) \<notin> live s"
    "live t = insert (p, a) (live s)" "idle p t" by auto
  then obtain u where "free p t = Inr u" "inv u" "live u = live t - {(p, a)}"
    using free_law [of t p a] by auto
  then show ?thesis using a by auto
qed

text \<open>Freeing one allocation keeps every other one where it is.\<close>

lemma free_keeps:
  assumes "inv s" "(p, a) \<in> live s" "(q, b) \<in> live s" "p \<noteq> q" "idle p s" "free p s = Inr t"
  shows "(q, b) \<in> live t"
  using free_law [OF assms(1,2,5)] assms(3,4,6) by auto

end

section \<open>The small allocations\<close>

definition sa_ok :: "small_allocs \<Rightarrow> bool" where
  "sa_ok sa \<longleftrightarrow> sa_inv sa \<and> sa_chunk_ptr sa \<noteq> 0"

definition sa_live :: "small_allocs \<Rightarrow> (nat \<times> nat) set" where
  "sa_live sa = {(unit_ptr sa i, kAlignment sa) | i. i < kUnits sa \<and> sa_map sa ! i}"

definition sa_request :: "nat \<Rightarrow> small_allocs \<Rightarrow> bool" where
  "sa_request n sa \<longleftrightarrow> 0 < n \<and> n mod kAlignment sa = 0"

lemma sa_ok_Allocate:
  assumes "sa_ok sa" "sa_request n sa"
  shows "\<exists>p sa'. sa_Allocate sa n = Inr (p, sa') \<and> sa_ok sa' \<and> kAlignment sa' = kAlignment sa \<and>
    kSize sa' = kSize sa \<and> kUnits sa' = kUnits sa \<and> sa_chunk_ptr sa' = sa_chunk_ptr sa \<and>
    (if p = 0 then sa' = sa
     else n = kAlignment sa \<and> (\<exists>i<kUnits sa. p = unit_ptr sa i \<and> \<not> sa_map sa ! i \<and>
       sa_map sa' = (sa_map sa)[i := True]))"
proof -
  have "\<exists>r. sa_Allocate sa n = Inr r"
  proof (cases "kThreshold sa \<le> n")
    case True
    then show ?thesis by (simp add: sa_Allocate_large)
  next
    case False
    then have "n < 2 * kAlignment sa" "0 < kAlignment sa" using assms by (auto simp: sa_ok_def sa_inv_def)
    moreover obtain q where "n = kAlignment sa * q" using assms(2) by (auto simp: sa_request_def)
    ultimately have "n = kAlignment sa" using assms(2)
      by (cases "q = 1") (auto simp: sa_request_def)
    then show ?thesis using assms(1) by (auto simp: sa_ok_def sa_Allocate_unit split: option.splits)
  qed
  then obtain p sa' where r: "sa_Allocate sa n = Inr (p, sa')" by auto
  then show ?thesis using sa_Allocate_spec [of sa n p sa'] assms by (auto simp: sa_ok_def)
qed

lemma sa_live_update:
  assumes "sa_ok sa" "i < kUnits sa" "kAlignment sa' = kAlignment sa" "kUnits sa' = kUnits sa"
    "sa_chunk_ptr sa' = sa_chunk_ptr sa" "sa_map sa' = (sa_map sa)[i := b]"
  shows "sa_live sa' = (if b then insert (unit_ptr sa i, kAlignment sa) (sa_live sa)
      else sa_live sa - {(unit_ptr sa i, kAlignment sa)})"
proof -
  have "unit_ptr sa' j = unit_ptr sa j" for j using assms by (simp add: unit_ptr_def)
  moreover have "length (sa_map sa) = kUnits sa" using assms by (simp add: sa_ok_def sa_inv_def)
  ultimately show ?thesis using assms unit_ptr_inj [of sa]
    by (auto simp: sa_live_def nth_list_update sa_ok_def) metis
qed

lemma sa_ok_Deallocate:
  assumes "sa_ok sa" "i < kUnits sa" "sa_map sa ! i"
  shows "\<exists>sa'. sa_Deallocate sa (unit_ptr sa i) = Inr sa' \<and> sa_ok sa' \<and>
    kAlignment sa' = kAlignment sa \<and> kSize sa' = kSize sa \<and> kUnits sa' = kUnits sa \<and>
    sa_chunk_ptr sa' = sa_chunk_ptr sa \<and> sa_map sa' = (sa_map sa)[i := False]"
  using assms sa_inv_set_unit [of sa i False] by (simp add: sa_ok_def sa_Deallocate_unit)

interpretation small: suballocator sa_ok sa_live "\<lambda>_ _. True" sa_request "\<lambda>n. n"
  "\<lambda>n sa. sa_Allocate sa n" "\<lambda>p sa. sa_Deallocate sa p"
proof
  fix sa p a assume ok: "sa_ok sa" and "(p, a) \<in> sa_live sa"
  then show "0 < p \<and> 0 < a" by (auto simp: sa_live_def unit_ptr_def sa_ok_def sa_inv_def)
next
  fix sa p a q b assume ok: "sa_ok sa" and "(p, a) \<in> sa_live sa" "(q, b) \<in> sa_live sa"
  then obtain i j where ij: "p = unit_ptr sa i" "q = unit_ptr sa j" "a = kAlignment sa" "b = a"
    by (auto simp: sa_live_def)
  consider "i = j" | "Suc i \<le> j" | "Suc j \<le> i" by linarith
  then show "(p, a) = (q, b) \<or> p + a \<le> q \<or> q + b \<le> p"
    using ij mult_le_mono1 [of "Suc i" j a] mult_le_mono1 [of "Suc j" i a]
    by cases (auto simp: unit_ptr_def)
next
  fix sa n assume ok: "sa_ok sa" and r: "sa_request n sa"
  from sa_ok_Allocate [OF this] obtain p sa' where a: "sa_Allocate sa n = Inr (p, sa')" "sa_ok sa'"
    "kAlignment sa' = kAlignment sa" "kUnits sa' = kUnits sa" "sa_chunk_ptr sa' = sa_chunk_ptr sa"
    "if p = 0 then sa' = sa else n = kAlignment sa \<and> (\<exists>i<kUnits sa. p = unit_ptr sa i \<and>
       \<not> sa_map sa ! i \<and> sa_map sa' = (sa_map sa)[i := True])" by auto
  show "\<exists>p t. sa_Allocate sa n = Inr (p, t) \<and> sa_ok t \<and>
      (if p = 0 then sa_live t = sa_live sa
       else \<exists>a\<ge>n. (p, a) \<notin> sa_live sa \<and> sa_live t = insert (p, a) (sa_live sa) \<and> True)"
  proof (cases "p = 0")
    case True
    then show ?thesis using a by simp
  next
    case False
    with a obtain i where i: "n = kAlignment sa" "i < kUnits sa" "p = unit_ptr sa i"
      "\<not> sa_map sa ! i" "sa_map sa' = (sa_map sa)[i := True]" by auto
    have "(p, n) \<notin> sa_live sa" using i ok unit_ptr_inj [of sa] by (auto simp: sa_live_def sa_ok_def)
    then show ?thesis using a False i sa_live_update [OF ok i(2) a(3-5) i(5)]
      by (intro exI [of _ p] exI [of _ sa']) auto
  qed
next
  fix sa p a assume ok: "sa_ok sa" and "(p, a) \<in> sa_live sa"
  then obtain i where i: "p = unit_ptr sa i" "a = kAlignment sa" "i < kUnits sa" "sa_map sa ! i"
    by (auto simp: sa_live_def)
  from sa_ok_Deallocate [OF ok i(3,4)] obtain sa' where "sa_Deallocate sa p = Inr sa'" "sa_ok sa'"
    "kAlignment sa' = kAlignment sa" "kUnits sa' = kUnits sa" "sa_chunk_ptr sa' = sa_chunk_ptr sa"
    "sa_map sa' = (sa_map sa)[i := False]" using i by auto
  then show "\<exists>t. sa_Deallocate sa p = Inr t \<and> sa_ok t \<and> sa_live t = sa_live sa - {(p, a)}"
    using sa_live_update [OF ok i(3)] i by auto
qed

end
