(* ===== verification/Pool_Contract.thy ===== *)
theory Pool_Contract
  imports Pool_Client
begin

text \<open>
  The pool keeps its invariant and honours the contract of an allocator: the chunks in use and
  the units of the small-allocation chunk are the live allocations.
\<close>

section \<open>The state as a client sees it\<close>

definition is_small_block :: "pool \<Rightarrow> block \<Rightarrow> bool" where
  "is_small_block s b \<longleftrightarrow>
     (case small_allocs s of None \<Rightarrow> False | Some sa \<Rightarrow> b_addr b = sa_chunk_ptr sa)"

definition small_ok :: "pool \<Rightarrow> bool" where
  "small_ok s \<longleftrightarrow>
     (case small_allocs s of None \<Rightarrow> True
      | Some sa \<Rightarrow> sa_ok sa \<and> kAlignment sa = alignment s \<and>
          (\<exists>b\<in>set (pool_blocks s). b_addr b = sa_chunk_ptr sa \<and> b_used b \<and>
             kSize sa \<le> b_size b \<and>
             (high_memory_allocated s \<longrightarrow> b \<noteq> last (pool_blocks s))))"

definition pool_inv :: "pool \<Rightarrow> bool" where
  "pool_inv s \<longleftrightarrow> pool_ok s \<and> small_ok s \<and> 0 < alignment s"

definition extent :: "block \<Rightarrow> nat \<times> nat" where
  "extent b = (b_addr b, b_size b)"

definition client_blocks :: "pool \<Rightarrow> block set" where
  "client_blocks s = {b \<in> set (pool_blocks s). b_used b \<and> \<not> is_small_block s b}"

definition small_live :: "pool \<Rightarrow> (nat \<times> nat) set" where
  "small_live s = (case small_allocs s of None \<Rightarrow> {} | Some sa \<Rightarrow> sa_live sa)"

definition pool_live :: "pool \<Rightarrow> (nat \<times> nat) set" where
  "pool_live s = extent ` client_blocks s \<union> small_live s"

text \<open>No stream is recorded on the allocation and no event of it is pending.\<close>

definition pool_idle :: "nat \<Rightarrow> pool \<Rightarrow> bool" where
  "pool_idle p s \<longleftrightarrow> (\<forall>b\<in>client_blocks s. b_addr b = p \<longrightarrow> b_uses b = [] \<and> b_events b = 0)"

definition pool_request :: "nat \<times> nat \<times> bool \<Rightarrow> pool \<Rightarrow> bool" where
  "pool_request r s \<longleftrightarrow> (case r of (n, st, us) \<Rightarrow> 0 < n \<and> n < u64_lim \<and> n mod alignment s = 0)"

section \<open>What no operation changes\<close>

text \<open>The addresses the pool manages, from its first byte to its end.\<close>

definition pool_span :: "pool \<Rightarrow> nat \<times> nat" where
  "pool_span s = (case prealloc_pool s of Live_pool p \<Rightarrow> (pl_memptr p, pl_end p) | _ \<Rightarrow> (0, 0))"

lemma pool_span_frame: "pool_span (rest_of s) = pool_span s" "pool_span (frame_of s) = pool_span s"
  by (simp_all add: frame_of_def rest_of_def pool_span_def split: pool_ptr.splits)

definition same_config :: "pool \<Rightarrow> pool \<Rightarrow> bool" where
  "same_config s t \<longleftrightarrow> pool_span t = pool_span s \<and> alignment t = alignment s \<and>
     max_pool_size t = max_pool_size s"

lemma same_config_refl [simp]: "same_config s s"
  by (simp add: same_config_def)

lemma same_config_trans: "same_config s t \<Longrightarrow> same_config t u \<Longrightarrow> same_config s u"
  by (simp add: same_config_def)

lemma same_config_fields [simp]:
  "same_config s (s\<lparr> small_allocs := sa, stats := st \<rparr>)"
  "same_config s (s\<lparr> hpu_events := es \<rparr>)" "same_config s (s\<lparr> dev_events := ec \<rparr>)"
  "same_config s (s\<lparr> defragmenter_state_started := d \<rparr>)"
  by (simp_all add: same_config_def pool_span_def)

section \<open>Blocks of a good state\<close>

lemma frame_of_sel:
  assumes "frame_of t = frame_of s"
  shows "small_allocs t = small_allocs s" "alignment t = alignment s"
    "max_pool_size t = max_pool_size s" "hpu_events t = hpu_events s"
    "dev_events t = dev_events s"
  using assms by (auto simp: frame_of_def rest_of_def dest: arg_cong [where f = small_allocs]
      arg_cong [where f = alignment] arg_cong [where f = max_pool_size]
      arg_cong [where f = hpu_events] arg_cong [where f = dev_events])

lemma frame_of_config: "frame_of t = frame_of s \<Longrightarrow> same_config s t"
  using frame_of_sel(2,3) pool_span_frame(2) unfolding same_config_def by metis

lemma pool_block_facts:
  assumes "pool_ok s" "b \<in> set (pool_blocks s)"
  shows "0 < b_addr b" "0 < b_size b" "b_addr b + b_size b < u64_lim"
    "\<not> b_used b \<Longrightarrow> b_uses b = [] \<and> b_events b = 0"
proof -
  obtain ids where ids: "pinv {} ids s" "pool_blocks s = blocks_of s ids" by (rule pool_okE [OF assms(1)])
  with assms(2) obtain c where c: "c \<in> set ids" "b = block_of s c" by (auto simp: blocks_of_def)
  obtain k where k: "chunk_heap s c = Some k" "0 < c_size k" "0 < c_memptr k"
    "c_memptr k + c_size k < u64_lim" using pinv_chunk [OF ids(1) c(1)] by metis
  then show "0 < b_addr b" "0 < b_size b" "b_addr b + b_size b < u64_lim" unfolding c(2) by simp_all
  show "\<not> b_used b \<Longrightarrow> b_uses b = [] \<and> b_events b = 0"
    using pinv_flags(2) [OF ids(1) k(1)] k(1) unfolding c(2) by simp
qed

lemma pool_blocks_disjoint:
  assumes "pool_ok s" "b \<in> set (pool_blocks s)" "d \<in> set (pool_blocks s)" "b \<noteq> d"
  shows "b_addr b + b_size b \<le> b_addr d \<or> b_addr d + b_size d \<le> b_addr b"
proof -
  obtain ids where ids: "pinv {} ids s" "pool_blocks s = blocks_of s ids" by (rule pool_okE [OF assms(1)])
  with assms(2-4) obtain c e where ce: "c \<in> set ids" "b = block_of s c" "e \<in> set ids"
    "d = block_of s e" "c \<noteq> e" by (auto simp: blocks_of_def)
  obtain k where k: "chunk_heap s c = Some k" using pinv_chunk [OF ids(1) ce(1)] by metis
  obtain l where l: "chunk_heap s e = Some l" using pinv_chunk [OF ids(1) ce(3)] by metis
  obtain sp :: simple_pool where "seg (chunk_heap s) 0 (pl_memptr sp) ids 0 (pl_end sp)"
    using pinvD [OF ids(1)] by auto
  from seg_ordered [OF this ce(1,3,5) k l] show ?thesis unfolding ce(2,4) using k l by simp
qed

lemma pool_block_addr_inj:
  "pool_ok s \<Longrightarrow> b \<in> set (pool_blocks s) \<Longrightarrow> d \<in> set (pool_blocks s) \<Longrightarrow> b_addr b = b_addr d \<Longrightarrow> b = d"
  using pool_blocks_disjoint [of s b d] pool_block_facts(2) [of s b] pool_block_facts(2) [of s d] by auto

lemma pool_blocks_distinct: "pool_ok s \<Longrightarrow> distinct (pool_blocks s)"
proof -
  assume "pool_ok s"
  then obtain ids where ids: "pinv {} ids s" "pool_blocks s = blocks_of s ids" by (rule pool_okE)
  have "inj_on (block_of s) (set ids)" by (rule inj_on_inverseI [of _ b_id]) simp
  then show ?thesis using pinv_distinct [OF ids(1)] ids(2) by (simp add: blocks_of_def distinct_map)
qed

lemma pool_blocks_ne: "pool_ok s \<Longrightarrow> pool_blocks s \<noteq> []"
proof -
  assume "pool_ok s"
  then obtain ids where ids: "pinv {} ids s" "pool_blocks s = blocks_of s ids" by (rule pool_okE)
  then show ?thesis using pinvD [OF ids(1)] by auto
qed

text \<open>The chunk the small allocations live in.\<close>

lemma small_okD:
  assumes "pool_inv s" "small_allocs s = Some sa"
  obtains b where "sa_ok sa" "kAlignment sa = alignment s" "b \<in> set (pool_blocks s)"
    "b_addr b = sa_chunk_ptr sa" "b_used b" "kSize sa \<le> b_size b"
    "high_memory_allocated s \<Longrightarrow> b \<noteq> last (pool_blocks s)"
    "\<And>d. d \<in> set (pool_blocks s) \<Longrightarrow> is_small_block s d \<longleftrightarrow> d = b"
proof -
  from assms obtain b where b: "sa_ok sa" "kAlignment sa = alignment s" "b \<in> set (pool_blocks s)"
    "b_addr b = sa_chunk_ptr sa" "b_used b" "kSize sa \<le> b_size b"
    "high_memory_allocated s \<Longrightarrow> b \<noteq> last (pool_blocks s)"
    by (auto simp: pool_inv_def small_ok_def)
  have "is_small_block s d \<longleftrightarrow> d = b" if "d \<in> set (pool_blocks s)" for d
    using pool_block_addr_inj [of s d b] that b assms by (auto simp: is_small_block_def pool_inv_def)
  then show ?thesis using that b by blast
qed

lemma small_live_ok:
  assumes "pool_inv s" "(p, a) \<in> small_live s"
  shows "\<exists>sa. small_allocs s = Some sa \<and> (p, a) \<in> sa_live sa \<and> sa_ok sa"
proof -
  from assms(2) obtain sa where sa: "small_allocs s = Some sa" "(p, a) \<in> sa_live sa"
    by (auto simp: small_live_def split: option.splits)
  then show ?thesis using small_okD [OF assms(1) sa(1)] by blast
qed

lemma small_live_inside:
  assumes "pool_inv s" "(p, a) \<in> small_live s"
  shows "\<exists>b\<in>set (pool_blocks s). is_small_block s b \<and> b_used b \<and> b_addr b \<le> p \<and>
     p + a \<le> b_addr b + b_size b"
proof -
  from assms(2) obtain sa where sa: "small_allocs s = Some sa" "(p, a) \<in> sa_live sa"
    by (auto simp: small_live_def split: option.splits)
  obtain b where b: "sa_ok sa" "b \<in> set (pool_blocks s)" "b_addr b = sa_chunk_ptr sa" "b_used b"
    "kSize sa \<le> b_size b" "\<And>d. d \<in> set (pool_blocks s) \<Longrightarrow> is_small_block s d \<longleftrightarrow> d = b"
    using small_okD [OF assms(1) sa(1)] by blast
  from sa(2) obtain i where i: "p = unit_ptr sa i" "a = kAlignment sa" "i < kUnits sa"
    by (auto simp: sa_live_def)
  have "p + a \<le> sa_chunk_ptr sa + kSize sa"
    using unit_in_region [of sa i] b(1) i by (simp add: sa_ok_def)
  then show ?thesis using b i by (intro bexI [of _ b]) (auto simp: unit_ptr_def)
qed

lemma client_block_not_small:
  assumes "pool_inv s" "b \<in> set (pool_blocks s)" "\<not> is_small_block s b" "(p, a) \<in> small_live s"
  shows "b_addr b + b_size b \<le> p \<or> p + a \<le> b_addr b"
proof -
  from small_live_inside [OF assms(1,4)] obtain d where d: "d \<in> set (pool_blocks s)"
    "is_small_block s d" "b_addr d \<le> p" "p + a \<le> b_addr d + b_size d" by auto
  then have "d \<noteq> b" using assms(3) by auto
  then show ?thesis
    using pool_blocks_disjoint [of s b d] assms(1,2) d by (auto simp: pool_inv_def)
qed

lemma is_small_alloc_block:
  assumes "pool_inv s" "b \<in> set (pool_blocks s)" "\<not> is_small_block s b"
  shows "is_small_alloc s (b_addr b) = Inr False"
proof (cases "small_allocs s")
  case None
  then show ?thesis by (simp add: is_small_alloc_def)
next
  case (Some sa)
  obtain d where d: "d \<in> set (pool_blocks s)" "b_addr d = sa_chunk_ptr sa" "kSize sa \<le> b_size d"
    "\<And>e. e \<in> set (pool_blocks s) \<Longrightarrow> is_small_block s e \<longleftrightarrow> e = d"
    using small_okD [OF assms(1) Some] by blast
  have "d \<noteq> b" using d assms by auto
  then have "b_addr b < sa_chunk_ptr sa \<or> sa_chunk_ptr sa + kSize sa \<le> b_addr b"
    using pool_blocks_disjoint [of s b d] pool_block_facts(2) [of s b] assms d
    by (auto simp: pool_inv_def)
  then show ?thesis using Some by (auto simp: is_small_alloc_def sa_IsAllocated_def)
qed

section \<open>The sets of blocks after each operation\<close>

lemma set_replace_block:
  "b \<in> set bs \<Longrightarrow> set (replace_block b new bs) = (set bs - {b}) \<union> set new"
  by (auto simp: replace_block_def split: if_splits)

lemma last_replace_block:
  assumes "distinct bs" "b \<in> set bs" "new \<noteq> []"
  shows "last (replace_block b new bs) = (if last bs = b then last new else last bs)"
proof -
  obtain xs ys where bs: "bs = xs @ b # ys" "b \<notin> set xs" "b \<notin> set ys"
    using in_set_split [OF assms(2)] assms(1) by auto
  have "last bs = b \<longleftrightarrow> ys = []" using bs by (cases ys rule: rev_cases) auto
  then show ?thesis using bs(1) replace_block_split [OF bs(2,3)] assms(3) by simp
qed

lemma set_used_blocks: "set (used_blocks bs) = {b \<in> set bs. b_used b}"
  by (auto simp: used_blocks_def)

lemma last_coalesce:
  "\<not> b_used b \<Longrightarrow> b_used (last (coalesce xs b ys)) \<Longrightarrow> ys \<noteq> [] \<and> last (coalesce xs b ys) = last ys"
  by (cases xs rule: rev_cases; cases ys; auto simp: coalesce_def split: if_splits)

lemma free_block_used:
  assumes ok: "pool_ok s" and b: "b \<in> set (pool_blocks s)" "b_used b"
    and f: "free_block (b_addr b) (pool_blocks s) = Some bs"
  shows "{d \<in> set bs. b_used d} = {d \<in> set (pool_blocks s). b_used d} - {b}"
    "b_used (last bs) \<Longrightarrow> last bs = last (pool_blocks s)"
proof -
  obtain xs ys where sp: "pool_blocks s = xs @ b # ys" using in_set_split [OF b(1)] by auto
  have ds: "b \<notin> set xs" "b \<notin> set ys" using pool_blocks_distinct [OF ok] sp by auto
  have "b_addr d \<noteq> b_addr b" if "d \<in> set xs" for d
    using pool_block_addr_inj [OF ok _ b(1), of d] that ds sp by auto
  then have "free_block (b_addr b) (xs @ b # ys) = Some (coalesce xs (freed b) ys)"
    by (intro free_block_split) auto
  then have bs: "bs = coalesce xs (freed b) ys" using f sp by simp
  have fb: "\<not> b_used (freed b)" by (simp add: freed_def)
  have "set (used_blocks bs) = set (used_blocks xs) \<union> set (used_blocks ys)"
    using used_blocks_coalesce [OF fb] bs by simp
  then show "{d \<in> set bs. b_used d} = {d \<in> set (pool_blocks s). b_used d} - {b}"
    using sp ds b(2) by (auto simp: set_used_blocks)
  show "b_used (last bs) \<Longrightarrow> last bs = last (pool_blocks s)"
    using last_coalesce [OF fb] bs sp by auto
qed

section \<open>Small allocations of the pool\<close>

lemma is_small_block_cong:
  "small_allocs t = small_allocs s \<Longrightarrow> is_small_block t = is_small_block s"
  by (simp add: is_small_block_def fun_eq_iff)

lemma pool_ok_small [simp]: "pool_ok (s\<lparr> small_allocs := x \<rparr>) = pool_ok s"
  "pool_blocks (s\<lparr> small_allocs := x \<rparr>) = pool_blocks s"
  by (simp_all add: pool_ok_def pool_blocks_def blocks_of_def chunks_ordered_def)

lemma pool_ok_stats [simp]: "pool_ok (s\<lparr> stats := x \<rparr>) = pool_ok s"
  "pool_blocks (s\<lparr> stats := x \<rparr>) = pool_blocks s"
  by (simp_all add: pool_ok_def pool_blocks_def blocks_of_def chunks_ordered_def)

text \<open>Replacing the small allocations by ones at the same place.\<close>

lemma pool_inv_small:
  assumes inv: "pool_inv s" and sa: "small_allocs s = Some sa" "sa_ok sa'"
    "kAlignment sa' = kAlignment sa" "kSize sa' = kSize sa" "sa_chunk_ptr sa' = sa_chunk_ptr sa"
  shows "pool_inv (s\<lparr> small_allocs := Some sa', stats := st \<rparr>)"
    "client_blocks (s\<lparr> small_allocs := Some sa', stats := st \<rparr>) = client_blocks s"
  using assms by (auto simp: pool_inv_def small_ok_def client_blocks_def is_small_block_def)

section \<open>Allocating\<close>

lemma alloc_chunk_unfold:
  assumes inv: "pool_inv s" and r: "pool_request (n, st, us) s"
  shows "alloc_chunk n st us s =
     (case small_allocs s of
        Some sa \<Rightarrow>
          (case sa_Allocate sa n of
             Inr (p, sa') \<Rightarrow>
               if st = 0 \<and> p \<noteq> 0 then
                 Inr (p, s\<lparr> small_allocs := Some sa', stats := (stats s)\<lparr>
                   num_allocs := add64 (num_allocs (stats s)) 1,
                   total_allocs := add64 (total_allocs (stats s)) 1 \<rparr> \<rparr>)
               else alloc_large n st us s
           | Inl e \<Rightarrow> Inl e)
      | None \<Rightarrow> alloc_large n st us s)"
proof -
  have a: "alignment s \<noteq> 0" "n mod alignment s = 0" "0 < n"
    using assms by (auto simp: pool_inv_def pool_request_def)
  show ?thesis
  proof (cases "small_allocs s")
    case None
    then show ?thesis using a by (simp add: alloc_chunk_def)
  next
    case (Some sa)
    obtain b where sa: "sa_ok sa" "kAlignment sa = alignment s" using small_okD [OF inv Some] by blast
    have "sa_request n sa" using a sa by (simp add: sa_request_def)
    from sa_ok_Allocate [OF sa(1) this] obtain p sa' where p: "sa_Allocate sa n = Inr (p, sa')"
      "p = 0 \<Longrightarrow> sa' = sa" by auto
    have "s\<lparr> small_allocs := Some sa \<rparr> = s" using Some by simp
    then have "alloc_large n st us (s\<lparr> small_allocs := Some sa \<rparr>) = alloc_large n st us s" by simp
    then show ?thesis using a Some p by (auto simp: alloc_chunk_def upd_stats_def)
  qed
qed

lemma alloc_large_inv:
  assumes inv: "pool_inv s" and r: "pool_request (n, st, us) s"
  shows "\<exists>p t. alloc_large n st us s = Inr (p, t) \<and> pool_inv t \<and> same_config s t \<and>
     hpu_events t = hpu_events s \<and> high_memory_allocated t = high_memory_allocated s \<and>
     (pool_blocks t = pool_blocks s \<or>
      (\<exists>b. alloc_blocks s n st us (pool_blocks s) = Some (b, pool_blocks t))) \<and>
     (if p = 0 then t = s
      else \<exists>a\<ge>n. (p, a) \<notin> pool_live s \<and> pool_live t = insert (p, a) (pool_live s) \<and> pool_idle p t)"
proof (cases "n \<le> max_pool_size s")
  case False
  then show ?thesis using inv by (intro exI [of _ 0] exI [of _ s]) (simp add: alloc_large_def)
next
  case True
  have ok: "pool_ok s" and n: "0 < n" "n < u64_lim" using assms by (auto simp: pool_inv_def pool_request_def)
  from alloc_large_step [OF ok n True] obtain p t where p: "alloc_large n st us s = Inr (p, t)"
    "pool_ok t" and R: "case alloc_blocks s n st us (pool_blocks s) of
        None \<Rightarrow> p = 0 \<and> t = s
      | Some (b, bs) \<Rightarrow> p = b_addr b \<and> 0 < p \<and> b \<in> set (pool_blocks s) \<and>
          best_fit n st us b (pool_blocks s) \<and> pool_blocks t = bs \<and> frame_of t = frame_of s \<and>
          high_memory_allocated t = high_memory_allocated s \<and>
          bytes_in_use t = add64 (bytes_in_use s) (taken s n b) \<and>
          chunk_count t = add64 (chunk_count s) 1 \<and>
          stats t = UpdateStats (taken s n b) True False (stats s)" by blast
  show ?thesis
  proof (cases "alloc_blocks s n st us (pool_blocks s)")
    case None
    then show ?thesis using p R inv by auto
  next
    case (Some q)
    then obtain b where b: "p = b_addr b" "0 < p" "b \<in> set (pool_blocks s)"
      "best_fit n st us b (pool_blocks s)" "frame_of t = frame_of s"
      "high_memory_allocated t = high_memory_allocated s"
      "pool_blocks t = replace_block b (alloc_parts s n st b) (pool_blocks s)"
      "q = (b, pool_blocks t)"
      using R by (auto simp: alloc_blocks_def split: option.splits)
    note fr = frame_of_sel [OF b(5)]
    have fit: "\<not> b_used b" "n \<le> b_size b" using b(4) by (auto simp: best_fit_def fits_def)
    let ?a = "allocated n st (taken s n b) b"
    have ext: "extent ?a = (p, taken s n b)" "b_used ?a" "b_uses ?a = b_uses b" "b_events ?a = b_events b"
      using b(1) by (auto simp: extent_def allocated_def place_def)
    have na: "n \<le> taken s n b" "taken s n b \<le> b_size b" using fit by (auto simp: taken_def should_split_def)
    have used: "{d \<in> set (pool_blocks t). b_used d} = insert ?a {d \<in> set (pool_blocks s). b_used d}"
      using set_replace_block [OF b(3)] b(7) fit ext(2) by (auto simp: alloc_parts_def tail_block_def)
    have sm: "is_small_block t = is_small_block s" by (rule is_small_block_cong [OF fr(1)])
    have nsm: "\<not> is_small_block s b"
    proof (cases "small_allocs s")
      case (Some sa)
      then show ?thesis using small_okD [OF inv Some] fit(1) b(3) by metis
    qed (simp add: is_small_block_def)
    have "b_addr ?a = b_addr b" by (simp add: allocated_def place_def)
    then have nsa: "\<not> is_small_block s ?a" using nsm by (simp add: is_small_block_def split: option.splits)
    have cb: "client_blocks t = insert ?a (client_blocks s)"
      using used nsa sm by (auto simp: client_blocks_def)
    have live: "pool_live t = insert (p, taken s n b) (pool_live s)"
      using cb ext(1) fr(1) by (simp add: pool_live_def small_live_def)
    have "(p, taken s n b) \<notin> extent ` client_blocks s"
      using pool_block_addr_inj [OF ok b(3)] fit(1) b(1) by (auto simp: extent_def client_blocks_def)
    moreover have "(p, taken s n b) \<notin> small_live s"
      using client_block_not_small [OF inv b(3) nsm, of p "taken s n b"] na n b(1) by auto
    ultimately have fresh: "(p, taken s n b) \<notin> pool_live s" by (simp add: pool_live_def)
    have idle: "pool_idle p t"
    proof -
      have "d = ?a" if "d \<in> client_blocks t" "b_addr d = p" for d
      proof -
        have "?a \<in> set (pool_blocks t)" "d \<in> set (pool_blocks t)" using cb that by (auto simp: client_blocks_def)
        then show ?thesis using pool_block_addr_inj [OF p(2)] that(2) ext(1) by (simp add: extent_def)
      qed
      then show ?thesis using ext(3,4) pool_block_facts(4) [OF ok b(3) fit(1)] unfolding pool_idle_def by metis
    qed
    have "small_ok t"
    proof (cases "small_allocs s")
      case None
      then show ?thesis using fr(1) by (simp add: small_ok_def)
    next
      case (Some sa)
      obtain d where d: "sa_ok sa" "kAlignment sa = alignment s" "d \<in> set (pool_blocks s)"
        "b_addr d = sa_chunk_ptr sa" "b_used d" "kSize sa \<le> b_size d"
        "high_memory_allocated s \<Longrightarrow> d \<noteq> last (pool_blocks s)"
        using small_okD [OF inv Some] by blast
      have dt: "d \<in> set (pool_blocks t)" using used d(3,5) by auto
      have "last (pool_blocks t) \<in> {last (pool_blocks s), last (alloc_parts s n st b)}"
        using last_replace_block [OF pool_blocks_distinct [OF ok] b(3), of "alloc_parts s n st b"] b(7)
        by (auto simp: alloc_parts_def)
      moreover have "last (alloc_parts s n st b) = ?a \<or> \<not> b_used (last (alloc_parts s n st b))"
        by (simp add: alloc_parts_def tail_block_def)
      moreover have "d \<noteq> ?a" using nsa d(4) Some by (auto simp: is_small_block_def)
      ultimately have "high_memory_allocated t \<longrightarrow> d \<noteq> last (pool_blocks t)" using d(5,7) b(6) by auto
      then show ?thesis using Some d(1,2,4-6) dt fr by (auto simp: small_ok_def)
    qed
    then have "pool_inv t" using inv p(2) fr(2) by (simp add: pool_inv_def)
    moreover have "alloc_blocks s n st us (pool_blocks s) = Some (b, pool_blocks t)"
      using Some b(8) by simp
    ultimately show ?thesis using p(1) live fresh idle na(1) b(2,6) fr(4) frame_of_config [OF b(5)] by auto
  qed
qed

lemma alloc_chunk_inv:
  assumes inv: "pool_inv s" and r: "pool_request (n, st, us) s"
  shows "\<exists>p t. alloc_chunk n st us s = Inr (p, t) \<and> pool_inv t \<and> same_config s t \<and>
     hpu_events t = hpu_events s \<and> high_memory_allocated t = high_memory_allocated s \<and>
     (pool_blocks t = pool_blocks s \<or>
      (\<exists>b. alloc_blocks s n st us (pool_blocks s) = Some (b, pool_blocks t))) \<and>
     (if p = 0 then t = s
      else \<exists>a\<ge>n. (p, a) \<notin> pool_live s \<and> pool_live t = insert (p, a) (pool_live s) \<and> pool_idle p t)"
proof (cases "small_allocs s")
  case None
  then show ?thesis using alloc_large_inv [OF assms] alloc_chunk_unfold [OF assms] by simp
next
  case (Some sa)
  obtain b where b: "sa_ok sa" "kAlignment sa = alignment s" "b \<in> set (pool_blocks s)"
    "b_addr b = sa_chunk_ptr sa" "\<And>d. d \<in> set (pool_blocks s) \<Longrightarrow> is_small_block s d \<longleftrightarrow> d = b"
    using small_okD [OF inv Some] by blast
  have "sa_request n sa" using r b(2) by (simp add: sa_request_def pool_request_def)
  from sa_ok_Allocate [OF b(1) this] obtain p sa' where p: "sa_Allocate sa n = Inr (p, sa')" "sa_ok sa'"
    "kAlignment sa' = kAlignment sa" "kSize sa' = kSize sa" "kUnits sa' = kUnits sa"
    "sa_chunk_ptr sa' = sa_chunk_ptr sa" and
    P: "if p = 0 then sa' = sa else n = kAlignment sa \<and> (\<exists>i<kUnits sa. p = unit_ptr sa i \<and>
       \<not> sa_map sa ! i \<and> sa_map sa' = (sa_map sa)[i := True])" by auto
  show ?thesis
  proof (cases "st = 0 \<and> p \<noteq> 0")
    case False
    then have "alloc_chunk n st us s = alloc_large n st us s"
      using alloc_chunk_unfold [OF assms] Some p(1) by auto
    then show ?thesis using alloc_large_inv [OF assms] by simp
  next
    case True
    with P obtain i where i: "n = kAlignment sa" "i < kUnits sa" "p = unit_ptr sa i" "\<not> sa_map sa ! i"
      "sa_map sa' = (sa_map sa)[i := True]" by auto
    let ?t = "s\<lparr> small_allocs := Some sa', stats := (stats s)\<lparr>
        num_allocs := add64 (num_allocs (stats s)) 1,
        total_allocs := add64 (total_allocs (stats s)) 1 \<rparr> \<rparr>"
    have run: "alloc_chunk n st us s = Inr (p, ?t)"
      using alloc_chunk_unfold [OF assms] Some p(1) True by simp
    note t = pool_inv_small [OF inv Some p(2-4,6)]
    have sl: "sa_live sa' = insert (p, n) (sa_live sa)"
      using sa_live_update [OF b(1) i(2) p(3,5,6) i(5)] i by simp
    then have live: "pool_live ?t = insert (p, n) (pool_live s)"
      using t(2) Some by (simp add: pool_live_def small_live_def)
    have inl: "(p, n) \<in> small_live ?t" using sl by (simp add: small_live_def)
    have ns: "(p, n) \<notin> sa_live sa"
      using i b(1) unit_ptr_inj [of sa] by (auto simp: sa_live_def sa_ok_def)
    have off: "b_addr d + b_size d \<le> p \<or> p + n \<le> b_addr d" if "d \<in> client_blocks s" for d
    proof -
      have "d \<in> set (pool_blocks ?t)" "\<not> is_small_block ?t d"
        using that Some p(6) by (auto simp: client_blocks_def is_small_block_def)
      from client_block_not_small [OF t(1) this inl] show ?thesis .
    qed
    have pos: "0 < n" "\<And>d. d \<in> client_blocks s \<Longrightarrow> 0 < b_size d"
      using r pool_block_facts(2) inv by (auto simp: pool_request_def client_blocks_def pool_inv_def)
    have "(p, n) \<notin> extent ` client_blocks s" using off pos by (force simp: extent_def)
    then have fresh: "(p, n) \<notin> pool_live s" using ns Some by (simp add: pool_live_def small_live_def)
    have idle: "pool_idle p ?t" unfolding pool_idle_def t(2) using off pos by force
    have "pool_blocks ?t = pool_blocks s" by simp
    then show ?thesis using run t(1) live fresh idle True by (intro exI [of _ p] exI [of _ ?t]) auto
  qed
qed

section \<open>Freeing\<close>

lemma delete_small_inv:
  assumes inv: "pool_inv s" and live: "(p, a) \<in> small_live s"
  shows "\<exists>t. delete_chunk p s = Inr t \<and> pool_inv t \<and> pool_live t = pool_live s - {(p, a)} \<and>
    client_blocks t = client_blocks s \<and> pool_blocks t = pool_blocks s \<and> same_config s t \<and>
    hpu_events t = hpu_events s \<and> high_memory_allocated t = high_memory_allocated s \<and>
    bytes_in_use t = bytes_in_use s"
proof -
  from live obtain sa where sa: "small_allocs s = Some sa" "(p, a) \<in> sa_live sa"
    by (auto simp: small_live_def split: option.splits)
  obtain b where b: "sa_ok sa" "b \<in> set (pool_blocks s)" "b_addr b = sa_chunk_ptr sa"
    using small_okD [OF inv sa(1)] by blast
  from sa(2) obtain i where i: "p = unit_ptr sa i" "a = kAlignment sa" "i < kUnits sa" "sa_map sa ! i"
    by (auto simp: sa_live_def)
  have p0: "p \<noteq> 0" using i b(1) by (simp add: unit_ptr_def sa_ok_def)
  have isa: "is_small_alloc s p = Inr True"
    using sa_IsAllocated_unit [of sa i] b(1) i sa(1) by (simp add: is_small_alloc_def sa_ok_def)
  from sa_ok_Deallocate [OF b(1) i(3,4)] obtain sa' where d: "sa_Deallocate sa p = Inr sa'"
    "sa_ok sa'" "kAlignment sa' = kAlignment sa" "kSize sa' = kSize sa" "kUnits sa' = kUnits sa"
    "sa_chunk_ptr sa' = sa_chunk_ptr sa" "sa_map sa' = (sa_map sa)[i := False]" using i(1) by auto
  let ?t = "s\<lparr> small_allocs := Some sa', stats := (stats s)\<lparr>
        num_frees := add64 (num_frees (stats s)) 1,
        total_frees := add64 (total_frees (stats s)) 1 \<rparr> \<rparr>"
  have run: "delete_chunk p s = Inr ?t"
    using p0 sa(1) isa d(1) by (simp add: delete_chunk_def upd_stats_def)
  note t = pool_inv_small [OF inv sa(1) d(2-4,6)]
  have sl: "sa_live sa' = sa_live sa - {(p, a)}"
    using sa_live_update [OF b(1) i(3) d(3,5,6,7)] i by simp
  have "(p, a) \<notin> extent ` client_blocks s"
  proof
    assume "(p, a) \<in> extent ` client_blocks s"
    then obtain d where d: "d \<in> set (pool_blocks s)" "\<not> is_small_block s d" "b_addr d = p" "b_size d = a"
      by (auto simp: client_blocks_def extent_def)
    then show False
      using client_block_not_small [OF inv d(1,2) live] pool_block_facts(2) [of s d] inv
      by (auto simp: pool_inv_def)
  qed
  then have "pool_live ?t = pool_live s - {(p, a)}"
    using t(2) sa(1) sl by (auto simp: pool_live_def small_live_def)
  then show ?thesis using run t by (intro exI [of _ ?t]) auto
qed

lemma delete_client_inv:
  assumes inv: "pool_inv s" and b: "b \<in> client_blocks s" "b_uses b = []" "b_events b = 0"
  shows "\<exists>t. delete_chunk (b_addr b) s = Inr t \<and> pool_inv t \<and>
    client_blocks t = client_blocks s - {b} \<and> pool_live t = pool_live s - {extent b} \<and>
    frame_of t = frame_of s \<and> free_block (b_addr b) (pool_blocks s) = Some (pool_blocks t) \<and>
    bytes_in_use t = sub64 (bytes_in_use s) (b_size b) \<and>
    high_memory_allocated t = (high_memory_allocated s \<and> b_id (last (pool_blocks t)) \<noteq> b_id b)"
proof -
  have bs: "b \<in> set (pool_blocks s)" "b_used b" "\<not> is_small_block s b"
    using b(1) by (auto simp: client_blocks_def)
  have ok: "pool_ok s" using inv by (simp add: pool_inv_def)
  obtain ids where ids: "pinv {} ids s" "pool_blocks s = blocks_of s ids" by (rule pool_okE [OF ok])
  have lk: "lookup_chunk s (b_addr b) = Inr (b_id b)"
    using lookup_chunk_block [OF ids(1)] bs(1) ids(2) by simp
  from delete_large_step [OF ok bs(1,2) b(2,3)] obtain t where t: "delete_large (b_id b) s = Inr t"
    "pool_ok t" "free_block (b_addr b) (pool_blocks s) = Some (pool_blocks t)" "frame_of t = frame_of s"
    "high_memory_allocated t = (high_memory_allocated s \<and> b_id (last (pool_blocks t)) \<noteq> b_id b)"
    "bytes_in_use t = sub64 (bytes_in_use s) (b_size b)" by auto
  note fr = frame_of_sel [OF t(4)]
  have run: "delete_chunk (b_addr b) s = Inr t"
    using pool_block_facts(1) [OF ok bs(1)] is_small_alloc_block [OF inv bs(1,3)] lk t(1)
    by (simp add: delete_chunk_def)
  note ub = free_block_used [OF ok bs(1,2) t(3)]
  have sm: "is_small_block t = is_small_block s" by (rule is_small_block_cong [OF fr(1)])
  have cb: "client_blocks t = client_blocks s - {b}" using ub(1) sm by (auto simp: client_blocks_def)
  have "(b_addr b, b_size b) \<notin> small_live s"
    using client_block_not_small [OF inv bs(1,3)] pool_block_facts(2) [OF ok bs(1)] by fastforce
  moreover have "extent ` (client_blocks s - {b}) = extent ` client_blocks s - {extent b}"
    using pool_block_addr_inj [OF ok _ bs(1)] by (auto simp: client_blocks_def extent_def)
  ultimately have live: "pool_live t = pool_live s - {extent b}"
    using cb fr(1) by (auto simp: pool_live_def small_live_def extent_def)
  have "small_ok t"
  proof (cases "small_allocs s")
    case None
    then show ?thesis using fr(1) by (simp add: small_ok_def)
  next
    case (Some sa)
    obtain d where d: "sa_ok sa" "kAlignment sa = alignment s" "d \<in> set (pool_blocks s)"
      "b_addr d = sa_chunk_ptr sa" "b_used d" "kSize sa \<le> b_size d"
      "high_memory_allocated s \<Longrightarrow> d \<noteq> last (pool_blocks s)" "is_small_block s d"
      using small_okD [OF inv Some] by blast
    then have "d \<noteq> b" using bs(3) by auto
    then have "d \<in> set (pool_blocks t)" using ub(1) d(3,5) by auto
    moreover have "high_memory_allocated t \<longrightarrow> d \<noteq> last (pool_blocks t)"
      using ub(2) d(5,7) t(5) by auto
    ultimately show ?thesis using Some d(1,2,4-6) fr by (auto simp: small_ok_def)
  qed
  then have "pool_inv t" using inv t(2) fr(2) by (simp add: pool_inv_def)
  then show ?thesis using run cb live t by blast
qed

lemma delete_chunk_inv:
  assumes inv: "pool_inv s" and live: "(p, a) \<in> pool_live s" and idle: "pool_idle p s"
  shows "\<exists>t. delete_chunk p s = Inr t \<and> pool_inv t \<and> pool_live t = pool_live s - {(p, a)}"
proof (cases "(p, a) \<in> small_live s")
  case True
  then show ?thesis using delete_small_inv [OF inv] by blast
next
  case False
  then obtain b where b: "b \<in> client_blocks s" "extent b = (p, a)" using live by (auto simp: pool_live_def)
  then have "b_uses b = [] \<and> b_events b = 0" "b_addr b = p"
    using idle by (auto simp: pool_idle_def extent_def)
  then show ?thesis using delete_client_inv [OF inv b(1)] b(2) by auto
qed

section \<open>The contract\<close>

interpretation device_pool: suballocator pool_inv pool_live pool_idle pool_request
  "\<lambda>(n, st, us). n" "\<lambda>(n, st, us) s. alloc_chunk n st us s" delete_chunk
proof
  fix s p a assume inv: "pool_inv s" and l: "(p, a) \<in> pool_live s"
  show "0 < p \<and> 0 < a"
  proof (cases "(p, a) \<in> small_live s")
    case True
    then obtain sa where "small_allocs s = Some sa" "(p, a) \<in> sa_live sa" "sa_ok sa"
      using small_live_ok [OF inv] by blast
    then show ?thesis using small.live_pos by blast
  next
    case False
    then obtain b where "b \<in> set (pool_blocks s)" "p = b_addr b" "a = b_size b"
      using l by (auto simp: pool_live_def client_blocks_def extent_def)
    then show ?thesis using pool_block_facts(1,2) inv by (auto simp: pool_inv_def)
  qed
next
  fix s p a q b
  assume inv: "pool_inv s" and l: "(p, a) \<in> pool_live s" "(q, b) \<in> pool_live s"
  have small: "(p, a) = (q, b) \<or> p + a \<le> q \<or> q + b \<le> p"
    if m: "(p, a) \<in> small_live s" "(q, b) \<in> small_live s" for p a q b
  proof -
    from small_live_ok [OF inv m(1)] small_live_ok [OF inv m(2)] obtain sa
      where "(p, a) \<in> sa_live sa" "(q, b) \<in> sa_live sa" "sa_ok sa" by auto
    then show ?thesis using small.live_disjoint by blast
  qed
  have mixed: "p + a \<le> q \<or> q + b \<le> p"
    if "(p, a) \<in> extent ` client_blocks s" "(q, b) \<in> small_live s" for p a q b
    using client_block_not_small [OF inv _ _ that(2)] that(1)
    by (auto simp: client_blocks_def extent_def)
  have big: "(p, a) = (q, b) \<or> p + a \<le> q \<or> q + b \<le> p"
    if "(p, a) \<in> extent ` client_blocks s" "(q, b) \<in> extent ` client_blocks s" for p a q b
  proof -
    from that obtain d e where "d \<in> set (pool_blocks s)" "e \<in> set (pool_blocks s)"
      "p = b_addr d" "a = b_size d" "q = b_addr e" "b = b_size e"
      by (auto simp: client_blocks_def extent_def)
    then show ?thesis using pool_blocks_disjoint [of s d e] inv
      by (cases "d = e") (simp_all add: pool_inv_def)
  qed
  show "(p, a) = (q, b) \<or> p + a \<le> q \<or> q + b \<le> p"
    using l small [of p a q b] mixed [of p a q b] mixed [of q b p a] big [of p a q b]
    by (auto simp: pool_live_def)
next
  fix r s assume inv: "pool_inv s" and r: "pool_request r s"
  obtain n st us where e: "r = (n, st, us)" by (cases r) auto
  from alloc_chunk_inv [OF inv r [unfolded e]] e
  show "\<exists>p t. (case r of (n, st, us) \<Rightarrow> alloc_chunk n st us) s = Inr (p, t) \<and> pool_inv t \<and>
      (if p = 0 then pool_live t = pool_live s
       else \<exists>a\<ge>(case r of (n, st, us) \<Rightarrow> n). (p, a) \<notin> pool_live s \<and>
         pool_live t = insert (p, a) (pool_live s) \<and> pool_idle p t)"
    by fastforce
next
  fix s p a assume "pool_inv s" "(p, a) \<in> pool_live s" "pool_idle p s"
  then show "\<exists>t. delete_chunk p s = Inr t \<and> pool_inv t \<and> pool_live t = pool_live s - {(p, a)}"
    by (rule delete_chunk_inv)
qed

end
