(* ===== verification/Pool_Run.thy ===== *)
theory Pool_Run
  imports Pool_Contract
begin

text \<open>
  The remaining operations of the pool keep its invariant: the workspace, the streams recorded
  on an allocation, the events of a deferred free. \<open>pool_step\<close> puts all operations together,
  so that the invariant holds in every state the pool can reach from \<open>pool_create\<close>.
\<close>

section \<open>The workspace\<close>

lemma ws_cut_last:
  assumes "0 < sz" "sz \<le> b_size (last bs)"
  shows "ws_cut m sz bs = butlast (ws_cut m sz bs) @ [ws_block m sz bs]"
    "b_size (ws_block m sz bs) = sz" "b_used (ws_block m sz bs)"
    "b_addr (ws_block m sz bs) + sz = b_addr (last bs) + b_size (last bs)"
    "set (butlast bs) \<subseteq> set (butlast (ws_cut m sz bs))"
    "\<not> b_used (last bs) \<Longrightarrow> {b \<in> set (butlast (ws_cut m sz bs)). b_used b} = {b \<in> set (butlast bs). b_used b}"
  using assms by (auto simp: ws_cut_def ws_block_def Let_def tail_block_def butlast_append)

lemma used_ws_release:
  assumes "bs \<noteq> []" "distinct bs"
  shows "{b \<in> set (butlast (ws_release bs)). b_used b} = {b \<in> set (butlast bs). b_used b}"
proof (cases "b_used (last bs)")
  case True
  let ?l = "(last bs)\<lparr> b_used := False \<rparr>"
  show ?thesis
  proof (cases "butlast bs" rule: rev_cases)
    case Nil
    then show ?thesis using True by (simp add: ws_release_def coalesce_def)
  next
    case (snoc xs x)
    then show ?thesis using True by (auto simp: ws_release_def coalesce_def butlast_append)
  qed
qed (simp add: ws_release_def)

definition old_workspace :: "pool \<Rightarrow> block set" where
  "old_workspace s =
     (let l = last (pool_blocks s) in if high_memory_allocated s \<and> b_used l then {l} else {})"

lemma ws_start_used:
  assumes "pool_ok s" "high_memory_allocated s \<or> \<not> b_used (last (pool_blocks s))"
  shows "{b \<in> set (butlast (ws_start (high_memory_allocated s) (pool_blocks s))). b_used b} =
      {b \<in> set (pool_blocks s). b_used b} - old_workspace s"
proof -
  let ?bs = "pool_blocks s"
  have ne: "?bs \<noteq> []" and ds: "distinct ?bs"
    using pool_blocks_ne pool_blocks_distinct assms(1) by auto
  have sp: "set ?bs = insert (last ?bs) (set (butlast ?bs))" "last ?bs \<notin> set (butlast ?bs)"
    using ne ds append_butlast_last_id [OF ne]
    by (metis Un_insert_right append.simps(1) empty_set list.simps(15) set_append sup_bot_right,
        metis distinct_append disjoint_iff list.set_intros(1))
  then have "{b \<in> set (butlast ?bs). b_used b} = {b \<in> set ?bs. b_used b} - {last ?bs}" by auto
  moreover have "{b \<in> set ?bs. b_used b} - {last ?bs} = {b \<in> set ?bs. b_used b} - old_workspace s"
    using assms(2) by (auto simp: old_workspace_def Let_def)
  ultimately show ?thesis using used_ws_release [OF ne ds] by (simp add: ws_start_def)
qed

text \<open>
  Either nothing changes, or the old workspace is given back; then the new one is made, or, when
  there is too little memory, the whole tail is left marked as used.
\<close>

lemma extend_inv:
  assumes inv: "pool_inv s" and sz: "0 < sz"
    and idle: "high_memory_allocated s \<Longrightarrow> ws_idle (pool_blocks s)"
  shows "\<exists>p t. extend_high_memory_allocation sz cur s = Inr (p, t) \<and> pool_inv t \<and>
     frame_of t = frame_of s \<and> extend_result sz cur s p t \<and>
     (t = s \<or> (\<exists>w. last (pool_blocks t) = w \<and> b_used w \<and> w \<notin> client_blocks s - old_workspace s \<and>
        client_blocks t = insert w (client_blocks s - old_workspace s) \<and>
        (p \<noteq> 0 \<longrightarrow> p = b_addr w \<and> b_size w = sz \<and> high_memory_allocated t)))"
proof -
  have ok: "pool_ok s" using inv by (simp add: pool_inv_def)
  from extend_high_step [OF ok sz idle] obtain p t where t: "pool_ok t" "frame_of t = frame_of s"
    "extend_result sz cur s p t" "extend_high_memory_allocation sz cur s = Inr (p, t)" by blast
  note fr = frame_of_sel [OF t(2)]
  let ?b1 = "ws_start (high_memory_allocated s) (pool_blocks s)"
  have ne: "pool_blocks s \<noteq> []" by (rule pool_blocks_ne [OF ok])
  show ?thesis
  proof (cases "t = s")
    case True
    then show ?thesis using t inv by auto
  next
    case False
    then have hl: "high_memory_allocated s \<or> \<not> b_used (last (pool_blocks s))"
      using t(3) by (auto simp: extend_result_def Let_def split: if_splits)
    have fl: "\<not> b_used (last ?b1)" using last_ws_release_free [OF ne] hl by (auto simp: ws_start_def)
    have "\<exists>w. last (pool_blocks t) = w \<and> b_used w \<and>
       {b \<in> set (butlast (pool_blocks t)). b_used b} = {b \<in> set (butlast ?b1). b_used b} \<and>
       (p \<noteq> 0 \<longrightarrow> p = b_addr w \<and> b_size w = sz \<and> high_memory_allocated t) \<and>
       (p = 0 \<longrightarrow> high_memory_allocated t = high_memory_allocated s)"
    proof (cases "b_size (last ?b1) < sz")
      case True
      then show ?thesis using False t(3)
        by (auto simp: extend_result_def Let_def split: if_splits)
    next
      case small: False
      let ?w = "ws_block (next_host s) sz ?b1"
      have p: "p = b_addr ?w" "0 < p" "pool_blocks t = ws_cut (next_host s) sz ?b1"
        "high_memory_allocated t"
        using False small t(3) by (auto simp: extend_result_def Let_def split: if_splits)
      note c = ws_cut_last [OF sz, of ?b1 "next_host s"]
      have "last (pool_blocks t) = ?w" using p(3) by (simp add: ws_block_def)
      then show ?thesis using p c(2,3,6) small fl by auto
    qed
    then obtain w where w: "last (pool_blocks t) = w" "b_used w"
       "{b \<in> set (butlast (pool_blocks t)). b_used b} = {b \<in> set (butlast ?b1). b_used b}"
       "p \<noteq> 0 \<longrightarrow> p = b_addr w \<and> b_size w = sz \<and> high_memory_allocated t"
       "p = 0 \<longrightarrow> high_memory_allocated t = high_memory_allocated s"
      by (elim exE conjE) (rule that)
    have tn: "pool_blocks t = butlast (pool_blocks t) @ [w]"
      using append_butlast_last_id [OF pool_blocks_ne [OF t(1)]] w(1) by simp
    then have wn: "w \<notin> set (butlast (pool_blocks t))"
      using pool_blocks_distinct [OF t(1)] by (metis distinct_append disjoint_iff list.set_intros(1))
    have used: "{b \<in> set (pool_blocks t). b_used b} =
        insert w ({b \<in> set (pool_blocks s). b_used b} - old_workspace s)"
    proof -
      have "{b \<in> set (pool_blocks t). b_used b} = insert w {b \<in> set (butlast (pool_blocks t)). b_used b}"
        using w(2) by (subst tn) auto
      then show ?thesis using w(3) ws_start_used [OF ok hl] by simp
    qed
    have wo: "w \<notin> {b \<in> set (pool_blocks s). b_used b} - old_workspace s"
      using wn w(2,3) ws_start_used [OF ok hl] by auto
    have sm: "is_small_block t = is_small_block s" by (rule is_small_block_cong [OF fr(1)])
    have small: "small_ok t \<and> \<not> is_small_block s w"
    proof (cases "small_allocs s")
      case None
      then show ?thesis using fr(1) by (simp add: small_ok_def is_small_block_def)
    next
      case (Some sa)
      obtain d where d: "sa_ok sa" "kAlignment sa = alignment s" "d \<in> set (pool_blocks s)"
        "b_addr d = sa_chunk_ptr sa" "b_used d" "kSize sa \<le> b_size d"
        "high_memory_allocated s \<Longrightarrow> d \<noteq> last (pool_blocks s)"
        using small_okD [OF inv Some] by blast
      have dn: "d \<in> {b \<in> set (pool_blocks s). b_used b} - old_workspace s"
        using d(3,5,7) by (auto simp: old_workspace_def Let_def)
      then have dt: "d \<in> set (pool_blocks t)" "d \<noteq> w" using used wo by auto
      have "b_addr w \<noteq> b_addr d"
        using pool_block_addr_inj [OF t(1) _ dt(1), of w] tn dt(2) by (metis in_set_conv_decomp)
      then show ?thesis using Some d(1,2,4-6) dt w(1) fr
        by (auto simp: small_ok_def is_small_block_def)
    qed
    have "client_blocks t = insert w (client_blocks s - old_workspace s)"
      using used small sm by (auto simp: client_blocks_def)
    moreover have "w \<notin> client_blocks s - old_workspace s" using wo by (auto simp: client_blocks_def)
    moreover have "pool_inv t" using t(1) small inv fr by (simp add: pool_inv_def)
    ultimately show ?thesis using t w by blast
  qed
qed

section \<open>Streams and events\<close>

text \<open>Changing the streams and events of a chunk in use.\<close>

lemma upd_used_inv:
  assumes inv: "pool_inv s" and b: "b \<in> client_blocks s"
    and f: "\<And>k. same_geom k (f k) \<and> c_used (f k) = c_used k \<and> c_bin_index (f k) = c_bin_index k"
  shows "\<exists>k t. chunk_heap s (b_id b) = Some k \<and> upd_chunk (b_id b) f s = Inr t \<and> pool_inv t \<and>
    pool_live t = pool_live s \<and> frame_of t = frame_of s \<and>
    high_memory_allocated t = high_memory_allocated s \<and> bytes_in_use t = bytes_in_use s \<and>
    chunk_heap t (b_id b) = Some (f k) \<and> block_of t (b_id b) \<in> client_blocks t \<and>
    map extent (pool_blocks t) = map extent (pool_blocks s)"
proof -
  have bs: "b \<in> set (pool_blocks s)" "b_used b" "\<not> is_small_block s b"
    using b by (auto simp: client_blocks_def)
  have ok: "pool_ok s" using inv by (simp add: pool_inv_def)
  obtain ids where ids: "pinv {} ids s" "coalesced (blocks_of s ids)" "pool_blocks s = blocks_of s ids"
    by (rule pool_okE [OF ok])
  define c where "c = b_id b"
  have c: "c \<in> set ids" "b = block_of s c"
    using lookup_chunk_block [OF ids(1)] bs(1) ids(3) by (auto simp: c_def)
  obtain k where k: "chunk_heap s c = Some k" using pinv_chunk [OF ids(1) c(1)] by metis
  let ?t = "s\<lparr> chunk_heap := (chunk_heap s)(c \<mapsto> f k) \<rparr>"
  have ku: "c_used k" using bs(2) k unfolding c(2) by simp
  have invt: "pinv {} ids ?t"
    by (rule pinv_flag_upd [OF ids(1) k]) (use f [of k] ku pinv_flags [OF ids(1) k] in auto)
  let ?b = "block_of ?t c"
  have bb: "b_addr ?b = b_addr b" "b_size ?b = b_size b" "b_used ?b"
    using f [of k] k ku unfolding c(2) by (auto simp: block_of_def Let_def same_geom_def)
  have other: "block_of ?t d = block_of s d" if "d \<noteq> c" for d using that by (simp add: block_of_upd)
  define g where "g d = (if d = b then ?b else d)" for d
  have gm: "block_of ?t d = g (block_of s d)" for d
  proof (cases "d = c")
    case False
    then have "block_of s d \<noteq> b" unfolding c(2) by (metis block_of_simps(6))
    then show ?thesis using other False by (simp add: g_def)
  qed (simp add: g_def c(2))
  have pt: "pool_blocks ?t = map g (pool_blocks s)"
    using pool_blocks_eq [OF invt] ids(3) gm by (simp add: blocks_of_def)
  have gs: "b_addr (g d) = b_addr d" "b_size (g d) = b_size d" "b_used (g d) = b_used d" for d
    using bb bs(2) by (auto simp: g_def)
  have gs4: "is_small_block s (g d) = is_small_block s d" for d
    by (cases "small_allocs s") (simp_all add: is_small_block_def gs(1))
  have co: "coalesced (pool_blocks ?t)"
  proof -
    have "adjacent_free (\<lambda>b. \<not> b_used b) (map g (pool_blocks s)) =
        adjacent_free (\<lambda>b. \<not> b_used b) (pool_blocks s)"
      unfolding adjacent_free_map by (rule adjacent_free_cong) (simp add: gs)
    then show ?thesis using ids(2,3) by (simp add: coalesced_def pt)
  qed
  have okt: "pool_ok ?t" using pool_okI [OF invt] co pool_blocks_eq [OF invt] by simp
  have sm: "is_small_block ?t = is_small_block s" by (rule is_small_block_cong) simp
  have cb: "client_blocks ?t = g ` client_blocks s"
    unfolding client_blocks_def pt sm using gs gs4 by auto
  have ge: "extent (g d) = extent d" for d using gs by (simp add: extent_def)
  then have "extent ` client_blocks ?t = extent ` client_blocks s"
    unfolding cb by (simp add: image_image)
  then have live: "pool_live ?t = pool_live s" by (simp add: pool_live_def small_live_def)
  have "small_ok ?t"
  proof (cases "small_allocs s")
    case None
    then show ?thesis by (simp add: small_ok_def)
  next
    case (Some sa)
    obtain d where d: "sa_ok sa" "kAlignment sa = alignment s" "d \<in> set (pool_blocks s)"
      "b_addr d = sa_chunk_ptr sa" "b_used d" "kSize sa \<le> b_size d"
      "high_memory_allocated s \<Longrightarrow> d \<noteq> last (pool_blocks s)" "is_small_block s d"
      using small_okD [OF inv Some] by blast
    have "d \<noteq> b" using d(8) bs(3) by auto
    then have "g d = d" by (simp add: g_def)
    then have "d \<in> set (pool_blocks ?t)" using d(3) unfolding pt by (metis image_eqI list.set_map)
    moreover have "last (pool_blocks ?t) = g (last (pool_blocks s))"
      unfolding pt using pool_blocks_ne [OF ok] by (simp add: last_map)
    then have "high_memory_allocated s \<Longrightarrow> d \<noteq> last (pool_blocks ?t)"
      using d(4,7,8) gs(1) bs(3) pool_block_addr_inj [OF ok d(3)] pool_blocks_ne [OF ok]
      by (metis last_in_set)
    ultimately show ?thesis using Some d(1,2,4-6) by (auto simp: small_ok_def)
  qed
  then have "pool_inv ?t" using okt inv by (simp add: pool_inv_def)
  moreover have "?b \<in> client_blocks ?t" unfolding cb using b by (auto simp: g_def)
  moreover have "map extent (pool_blocks ?t) = map extent (pool_blocks s)"
    unfolding pt by (simp add: ge)
  ultimately show ?thesis
    using k live upd_chunk_Some [OF k] unfolding c_def [symmetric] by simp
qed

text \<open>What the events and the defragmenter's flag leave alone.\<close>

lemma pool_view_fields [simp]:
  "pool_inv (s\<lparr> hpu_events := es \<rparr>) = pool_inv s"
  "pool_inv (s\<lparr> dev_events := ec \<rparr>) = pool_inv s"
  "pool_inv (s\<lparr> defragmenter_state_started := d \<rparr>) = pool_inv s"
  "pool_live (s\<lparr> hpu_events := es \<rparr>) = pool_live s"
  "pool_live (s\<lparr> dev_events := ec \<rparr>) = pool_live s"
  "pool_live (s\<lparr> defragmenter_state_started := d \<rparr>) = pool_live s"
  "client_blocks (s\<lparr> hpu_events := es \<rparr>) = client_blocks s"
  "client_blocks (s\<lparr> dev_events := ec \<rparr>) = client_blocks s"
  "pool_blocks (s\<lparr> dev_events := ec \<rparr>) = pool_blocks s"
  "pool_blocks (s\<lparr> hpu_events := es \<rparr>) = pool_blocks s"
  "pool_blocks (s\<lparr> defragmenter_state_started := d \<rparr>) = pool_blocks s"
  by (simp_all add: pool_inv_def pool_ok_def small_ok_def pool_live_def small_live_def
      client_blocks_def is_small_block_def pool_blocks_def blocks_of_def chunks_ordered_def
      cong: option.case_cong)

definition same_view :: "pool \<Rightarrow> pool \<Rightarrow> bool" where
  "same_view s t \<longleftrightarrow> pool_inv t \<and> pool_live t = pool_live s \<and>
     high_memory_allocated t = high_memory_allocated s \<and> bytes_in_use t = bytes_in_use s \<and>
     same_config s t \<and> map extent (pool_blocks t) = map extent (pool_blocks s)"

lemma same_view_trans: "same_view s t \<Longrightarrow> same_view t u \<Longrightarrow> same_view s u"
  by (auto simp: same_view_def intro: same_config_trans)

lemma insert_events_loop_inv:
  assumes "insert_events_loop env c sts s = Inr t" "pool_inv s" "\<exists>b\<in>client_blocks s. b_id b = c"
  shows "same_view s t"
  using assms
proof (induction sts arbitrary: s)
  case Nil
  then show ?case by (simp add: same_view_def)
next
  case (Cons st sts)
  from Cons.prems(1) obtain ev ec s1 where e: "get_free_handle env (dev_events s) = Inr (ev, ec)"
    "upd_chunk c (\<lambda>ch. ch\<lparr> c_event_count := c_event_count ch + 1 \<rparr>) (s\<lparr> dev_events := ec \<rparr>) = Inr s1"
    "insert_events_loop env c sts (push_event st ev c s1) = Inr t"
    by (auto simp: bindR_eq_Inr split: if_splits)
  from Cons.prems(3) obtain b where b: "b \<in> client_blocks (s\<lparr> dev_events := ec \<rparr>)" "b_id b = c" by auto
  have inv: "pool_inv (s\<lparr> dev_events := ec \<rparr>)" using Cons.prems(2) by simp
  have "same_geom k (k\<lparr> c_event_count := c_event_count k + 1 \<rparr>) \<and>
      c_used (k\<lparr> c_event_count := c_event_count k + 1 \<rparr>) = c_used k \<and>
      c_bin_index (k\<lparr> c_event_count := c_event_count k + 1 \<rparr>) = c_bin_index k" for k :: chunk
    by (simp add: same_geom_def)
  from upd_used_inv [OF inv b(1), of "\<lambda>k. k\<lparr> c_event_count := c_event_count k + 1 \<rparr>", OF this]
  have s1: "pool_inv s1" "pool_live s1 = pool_live s" "frame_of s1 = frame_of (s\<lparr> dev_events := ec \<rparr>)"
    "high_memory_allocated s1 = high_memory_allocated s" "bytes_in_use s1 = bytes_in_use s"
    "block_of s1 c \<in> client_blocks s1" "map extent (pool_blocks s1) = map extent (pool_blocks s)"
    using e(2) b(2) by auto
  let ?s2 = "push_event st ev c s1"
  have "pool_inv ?s2" "\<exists>b\<in>client_blocks ?s2. b_id b = c"
    using s1(1,6) by (auto simp: push_event_def intro!: bexI [of _ "block_of s1 c"])
  from Cons.IH [OF e(3) this] have "same_view ?s2 t" .
  moreover have "same_config s ?s2"
    using frame_of_config [OF s1(3)] by (simp add: push_event_def same_config_def pool_span_def)
  ultimately show ?case
    using s1 by (auto simp: same_view_def push_event_def intro: same_config_trans)
qed

lemma insert_events_inv:
  assumes e: "insert_events env c s = Inr t" and inv: "pool_inv s"
    and b: "b \<in> client_blocks s" "b_id b = c"
  shows "same_view s t"
proof -
  have g: "same_geom k (k\<lparr> c_stream_uses := [] \<rparr>) \<and> c_used (k\<lparr> c_stream_uses := [] \<rparr>) = c_used k \<and>
      c_bin_index (k\<lparr> c_stream_uses := [] \<rparr>) = c_bin_index k" for k :: chunk
    by (simp add: same_geom_def)
  from upd_used_inv [OF inv b(1), of "\<lambda>k. k\<lparr> c_stream_uses := [] \<rparr>", OF g] obtain k s1 where
    s1: "chunk_heap s c = Some k" "upd_chunk c (\<lambda>k. k\<lparr> c_stream_uses := [] \<rparr>) s = Inr s1"
    "pool_inv s1" "pool_live s1 = pool_live s" "frame_of s1 = frame_of s"
    "high_memory_allocated s1 = high_memory_allocated s" "bytes_in_use s1 = bytes_in_use s"
    "block_of s1 c \<in> client_blocks s1" "map extent (pool_blocks s1) = map extent (pool_blocks s)"
    using b(2) by auto
  have "insert_events_loop env c (c_stream_uses k) s1 = Inr t"
    using e s1(1,2) by (simp add: insert_events_def deref_def)
  moreover have "\<exists>b\<in>client_blocks s1. b_id b = c" using s1(8) by (intro bexI [of _ "block_of s1 c"]) auto
  ultimately have "same_view s1 t" using insert_events_loop_inv s1(3) by blast
  moreover have "same_view s s1" using s1 frame_of_config [OF s1(5)] by (simp add: same_view_def)
  ultimately show ?thesis by (rule same_view_trans [rotated])
qed

text \<open>Where a live allocation is found.\<close>

lemma live_cases:
  assumes inv: "pool_inv s" and live: "(p, a) \<in> pool_live s"
  obtains (small) "(p, a) \<in> small_live s" "is_small_alloc s p = Inr True"
  | (big) b where "b \<in> client_blocks s" "p = b_addr b" "a = b_size b"
      "is_small_alloc s p = Inr False" "lookup_chunk s p = Inr (b_id b)"
      "chunk_heap s (b_id b) \<noteq> None" "b = block_of s (b_id b)"
proof (cases "(p, a) \<in> small_live s")
  case True
  from small_live_ok [OF inv True] obtain sa where sa: "small_allocs s = Some sa"
    "(p, a) \<in> sa_live sa" "sa_ok sa" by blast
  then obtain i where "p = unit_ptr sa i" "i < kUnits sa" "sa_map sa ! i" by (auto simp: sa_live_def)
  then have "is_small_alloc s p = Inr True"
    using sa_IsAllocated_unit [of sa i] sa by (simp add: is_small_alloc_def sa_ok_def)
  then show ?thesis using True small by blast
next
  case False
  then obtain b where b: "b \<in> client_blocks s" "p = b_addr b" "a = b_size b"
    using live by (auto simp: pool_live_def extent_def)
  then have bs: "b \<in> set (pool_blocks s)" "\<not> is_small_block s b" by (auto simp: client_blocks_def)
  have ok: "pool_ok s" using inv by (simp add: pool_inv_def)
  obtain ids where ids: "pinv {} ids s" "pool_blocks s = blocks_of s ids" by (rule pool_okE [OF ok])
  have lk: "lookup_chunk s (b_addr b) = Inr (b_id b) \<and> b_id b \<in> set ids \<and> b = block_of s (b_id b)"
    using lookup_chunk_block [OF ids(1)] bs(1) ids(2) by simp
  then have "chunk_heap s (b_id b) \<noteq> None" using pinv_dom [OF ids(1)] by blast
  then show ?thesis using big [of b] b lk is_small_alloc_block [OF inv bs] by blast
qed

lemma record_stream_inv:
  assumes inv: "pool_inv s" and live: "(p, a) \<in> pool_live s"
  shows "\<exists>t. record_stream env p st s = Inr t \<and> same_view s t"
proof -
  have p0: "p \<noteq> 0" using device_pool.live_pos [OF inv live] by simp
  show ?thesis
  proof (rule live_cases [OF inv live])
    assume "is_small_alloc s p = Inr True"
    then have "record_stream env p st s = Inr s" using p0 by (simp add: record_stream_def)
    then show ?thesis using inv by (simp add: same_view_def)
  next
    fix b assume b: "b \<in> client_blocks s" "p = b_addr b" "is_small_alloc s p = Inr False"
      "lookup_chunk s p = Inr (b_id b)" "chunk_heap s (b_id b) \<noteq> None" "b = block_of s (b_id b)"
    then obtain k where k: "chunk_heap s (b_id b) = Some k" by auto
    have ku: "c_used k" using b(1,6) k by (metis (mono_tags) block_of_simps(3) client_blocks_def mem_Collect_eq)
    let ?f = "\<lambda>ch. ch\<lparr> c_stream_uses := List.insert st (c_stream_uses ch) \<rparr>"
    have g: "same_geom k (?f k) \<and> c_used (?f k) = c_used k \<and> c_bin_index (?f k) = c_bin_index k"
      for k :: chunk by (simp add: same_geom_def)
    from upd_used_inv [OF inv b(1), of ?f, OF g] obtain t where
      t: "upd_chunk (b_id b) ?f s = Inr t" "pool_inv t"
      "pool_live t = pool_live s" "frame_of t = frame_of s"
      "high_memory_allocated t = high_memory_allocated s" "bytes_in_use t = bytes_in_use s"
      "map extent (pool_blocks t) = map extent (pool_blocks s)" by auto
    have "record_stream env p st s =
        Inr (if de_stream env st = de_stream env (c_stream k) then s else t)"
      using p0 b(3,4) k ku t(1) by (simp add: record_stream_def deref_def)
    then show ?thesis using t(2-) inv frame_of_config [OF t(4)] by (simp add: same_view_def)
  qed
qed

lemma pool_free_chunk_inv:
  assumes inv: "pool_inv s" and live: "(p, a) \<in> pool_live s"
    and ev: "\<forall>b\<in>client_blocks s. b_addr b = p \<longrightarrow> b_uses b = [] \<longrightarrow> b_events b = 0"
    and run: "pool_free_chunk env p s = Inr t"
  shows "pool_inv t \<and> same_config s t \<and>
    (same_view s t \<or> delete_chunk p s = Inr t \<and> pool_idle p s)"
proof -
  have p0: "p \<noteq> 0" using device_pool.live_pos [OF inv live] by simp
  show ?thesis
  proof (rule live_cases [OF inv live])
    assume s: "(p, a) \<in> small_live s" "is_small_alloc s p = Inr True"
    then have "delete_chunk p s = Inr t" using run p0 by (simp add: pool_free_chunk_def)
    moreover have "pool_idle p s"
    proof -
      have "b_addr b \<noteq> p" if b: "b \<in> client_blocks s" for b
      proof
        assume "b_addr b = p"
        moreover have "0 < b_size b" "0 < a"
          using pool_block_facts(2) [of s b] inv b device_pool.live_pos [OF inv live]
          by (auto simp: pool_inv_def client_blocks_def)
        ultimately show False
          using client_block_not_small [OF inv _ _ s(1), of b] b by (auto simp: client_blocks_def)
      qed
      then show ?thesis by (auto simp: pool_idle_def)
    qed
    ultimately show ?thesis using delete_small_inv [OF inv s(1)] by auto
  next
    fix b assume b: "b \<in> client_blocks s" "p = b_addr b" "a = b_size b" "is_small_alloc s p = Inr False"
      "lookup_chunk s p = Inr (b_id b)" "chunk_heap s (b_id b) \<noteq> None" "b = block_of s (b_id b)"
    then obtain k where k: "chunk_heap s (b_id b) = Some k" by auto
    have ku: "c_stream_uses k = b_uses b" using b(7) k by (metis block_of_simps(4))
    show ?thesis
    proof (cases "b_uses b = []")
      case True
      then have "delete_chunk p s = Inr t"
        using run p0 b(4,5) k ku by (simp add: pool_free_chunk_def deref_def)
      moreover have "d = b" if "d \<in> client_blocks s" "b_addr d = p" for d
        using pool_block_addr_inj [of s d b] that b(1,2) inv by (auto simp: client_blocks_def pool_inv_def)
      then have "pool_idle p s" using ev b(1,2) True unfolding pool_idle_def by metis
      ultimately show ?thesis
        using delete_client_inv [OF inv b(1) True] ev b(1-3) True frame_of_config by auto
    next
      case False
      then have "insert_events env (b_id b) s = Inr t"
        using run p0 b(4,5) k ku by (simp add: pool_free_chunk_def deref_def)
      then show ?thesis using insert_events_inv inv b(1) by (auto simp: same_view_def)
    qed
  qed
qed

end
