(* ===== verification/Pool_Create.thy ===== *)
theory Pool_Create
  imports Pool_Run
begin

text \<open>
  Creating the pool: the checks of \<open>pool_create\<close> on the bins pass, the one chunk it makes and
  the chunk of the small allocations satisfy the invariant, and nothing is live.
\<close>

section \<open>The bins of a power-of-two alignment\<close>

lemma Log2_power: "k < 64 \<Longrightarrow> Log2FloorNonZero (2 ^ k) = k"
proof (rule Log2FloorNonZero_unique)
  assume "k < 64"
  then show "(2::nat) ^ k < u64_lim"
    unfolding u64_lim_def by (rule power_strict_increasing) simp
qed simp_all

lemma bin_index_for_range:
  assumes m: "m = 2 ^ b" and i: "i < kNumBins" and b: "b \<le> 42"
    and x: "m * 2 ^ i \<le> x" "x < m * 2 ^ (i + 1)"
  shows "bin_index_for m b x = i"
proof -
  have "m \<le> m * 2 ^ i" by simp
  then have "m \<le> x" using x(1) by (rule le_trans)
  then have mx: "max x m = x" by simp
  have lo: "2 ^ i \<le> x div 2 ^ b" using x(1) m by (simp add: less_eq_div_iff_mult_less_eq mult.commute)
  have hi: "x div 2 ^ b < 2 ^ (i + 1)" using x(2) m by (simp add: div_less_iff_less_mult mult.commute)
  have "(2::nat) ^ (i + 1) \<le> 2 ^ 63" using i by (intro power_increasing) (simp_all add: kNumBins_def)
  then have "x div 2 ^ b < u64_lim" using hi by (simp add: u64_lim_def)
  then have "Log2FloorNonZero (x div 2 ^ b) = i" using Log2FloorNonZero_unique lo hi by blast
  then show ?thesis using i by (simp add: bin_index_for_def Let_def mx kNumBins_def)
qed

lemma bin_index_for_above:
  assumes m: "m = 2 ^ b" and i: "i + 1 < kNumBins" and b: "b \<le> 42"
  shows "bin_index_for m b (m * 2 ^ (i + 1)) = i + 1"
  by (rule bin_index_for_range [OF m i b]) (simp_all add: m)

lemma bin_check_ok:
  assumes s: "kMinAllocationSize s = 2 ^ b" "kMinAllocationBits s = b" and b: "8 \<le> b" "b \<le> 42"
    and i: "i < kNumBins"
  shows "bin_check s i"
proof -
  let ?n = "2 ^ b * 2 ^ i :: nat"
  have i20: "i \<le> 20" using i by (simp add: kNumBins_def)
  have "(2::nat) ^ (b + i + 1) \<le> 2 ^ 63" using b i20 by (intro power_increasing) auto
  then have lim: "?n * 2 < u64_lim" by (simp add: power_add u64_lim_def)
  have "(2::nat) ^ 8 \<le> 2 ^ (b + i)" using b by (intro power_increasing) auto
  then have big: "256 \<le> ?n" by (simp add: power_add)
  have e: "BinNumToSize s i = ?n" using lim s by (simp add: BinNumToSize_def mul64_exact)
  have d: "mul64 ?n 2 = ?n * 2" "add64 ?n 255 = ?n + 255" "sub64 (?n * 2) 1 = ?n * 2 - 1"
    using lim big by (simp_all add: mul64_exact add64_exact sub64_exact)
  have r: "BinIndexForSize s x = i" if "?n \<le> x" "x < ?n * 2" for x
    unfolding BinIndexForSize_def s by (rule bin_index_for_range [OF refl i b(2)]) (use that in auto)
  have u: "BinIndexForSize s (?n * 2) \<noteq> i" if "i + 1 < kNumBins"
    using bin_index_for_above [OF refl that b(2)] unfolding BinIndexForSize_def s
    by (simp add: mult_ac)
  show ?thesis
    unfolding bin_check_def Let_def e d using r [of ?n] r [of "?n + 255"] r [of "?n * 2 - 1"] u big
    by simp
qed

section \<open>The first chunk\<close>

definition first_state :: "pool \<Rightarrow> nat \<Rightarrow> nat \<Rightarrow> pool" where
  "first_state s base n =
     (let a = base + header_bytes s;
          c = next_host s
      in s\<lparr> bins := replicate kNumBins [],
             chunk_heap := [c \<mapsto> Chunk_new\<lparr> c_memptr := a, c_size := n - header_bytes s \<rparr>],
             next_host := c + 1,
             prealloc_pool := Live_pool \<lparr> pl_next = add64 a n, pl_end = base + n, pl_start = c,
               pl_top = c, pl_memptr = a, pl_basememptr = base \<rparr>,
             chunks := [(a, c)] \<rparr>)"

lemma first_state_pinv:
  assumes "cfg_ok s" "0 < header_bytes s" "header_bytes s < n" "base + n < u64_lim" "next_host s \<noteq> 0"
  shows "pinv {next_host s} [next_host s] (first_state s base n)"
    "block_of (first_state s base n) (next_host s) =
      \<lparr> b_id = next_host s, b_addr = base + header_bytes s, b_size = n - header_bytes s,
        b_used = False, b_extra = 0, b_stream = 0, b_assoc = False, b_uses = [], b_events = 0 \<rparr>"
proof -
  let ?c = "next_host s" and ?s = "first_state s base n"
  have "links_ok [?c] ?s"
    using assms by (intro links_okI [where sp = "\<lparr> pl_next = add64 (base + header_bytes s) n,
        pl_end = base + n, pl_start = ?c, pl_top = ?c, pl_memptr = base + header_bytes s,
        pl_basememptr = base \<rparr>"]) (auto simp: first_state_def Let_def Chunk_new_def)
  moreover have "bins_ok {?c} ?s"
    by (auto simp: bins_ok_def first_state_def Let_def bin_sorted_def split: if_splits)
  moreover have "flags_ok {?c} ?s"
    by (rule flags_okI) (auto simp: first_state_def Let_def Chunk_new_def split: if_splits)
  moreover have "cfg_ok ?s" using assms(1) by (simp add: cfg_ok_def first_state_def Let_def)
  ultimately show "pinv {?c} [?c] ?s" by (simp add: pinv_def)
  show "block_of ?s ?c =
      \<lparr> b_id = ?c, b_addr = base + header_bytes s, b_size = n - header_bytes s,
        b_used = False, b_extra = 0, b_stream = 0, b_assoc = False, b_uses = [], b_events = 0 \<rparr>"
    by (simp add: block_of_def first_state_def Let_def Chunk_new_def)
qed

section \<open>Creation\<close>

definition pool_size :: "dev_env \<Rightarrow> nat \<Rightarrow> nat res" where
  "pool_size env sz =
     (if sz > de_free_mem env \<or> sz = default_pool_size then acquire_size env else Inr sz)"

definition small_region :: "nat \<Rightarrow> nat" where
  "small_region al = 6 * 1024 * al"

text \<open>A configuration under which creation succeeds: the alignment is a power of two of at least
  128 bytes and the pool holds the header and the region for small allocations.\<close>

definition create_ok :: "dev_env \<Rightarrow> nat \<Rightarrow> nat \<Rightarrow> nat \<Rightarrow> nat \<Rightarrow> nat \<Rightarrow> bool" where
  "create_ok env al h sz n base \<longleftrightarrow>
     (\<exists>e. al = 2 ^ e \<and> 7 \<le> e \<and> e \<le> 41) \<and> h \<noteq> 0 \<and> pool_size env sz = Inr n \<and>
     de_malloc env n = Some base \<and> base + n < u64_lim \<and> al + small_region al \<le> n"

lemma small_setup_step:
  assumes ok: "pool_ok u" and b: "pool_blocks u = [b]" "\<not> b_used b" "k \<le> b_size b"
    and u: "small_allocs u = None" "\<not> high_memory_allocated u" "alignment u = al"
      "kMinAllocationSize u = 2 * al" "k \<le> max_pool_size u"
    and k: "k = 6144 * al" "0 < al" "2 * al < u64_lim"
  shows "\<exists>s sa. small_setup k u = Inr s \<and> pool_inv s \<and> pool_live s = {} \<and>
     small_allocs s = Some sa \<and> sa_chunk_ptr sa = b_addr b \<and> kSize sa = k \<and>
     pool_blocks s = alloc_parts u k 0 b \<and> \<not> high_memory_allocated s \<and> alignment s = al \<and>
     max_pool_size s = max_pool_size u \<and> hpu_events s = hpu_events u \<and> dev_events s = dev_events u \<and>
     bytes_in_use s = add64 (add64 (bytes_in_use u) (taken u k b)) k"
proof -
  have bf: "0 < b_addr b" "b_addr b + b_size b < u64_lim"
    using pool_block_facts [OF ok, of b] b(1) by auto
  have k0: "0 < k" "k < u64_lim" "k mod al = 0" using k b(3) bf by auto
  have fit: "fits k 0 False b" using b by (simp add: fits_def)
  have sp: "alloc_blocks u k 0 False [b] = Some (b, alloc_parts u k 0 b)"
    using fit by (simp add: alloc_blocks_def replace_block_def)
  from alloc_large_step [OF ok k0(1,2) u(5), of 0 False] sp b(1) obtain t where
    t: "alloc_large k 0 False u = Inr (b_addr b, t)" "pool_ok t"
      "pool_blocks t = alloc_parts u k 0 b" "frame_of t = frame_of u"
      "high_memory_allocated t = high_memory_allocated u"
      "bytes_in_use t = add64 (bytes_in_use u) (taken u k b)" by auto
  have mt: "kMinAllocationSize t = kMinAllocationSize u"
    using t(4) by (auto simp: frame_of_def rest_of_def dest: arg_cong [where f = kMinAllocationSize])
  note fr = frame_of_sel [OF t(4)]
  have al: "alloc_chunk k 0 False u = Inr (b_addr b, t)"
    using u(1,3) k(2) k0(3) t(1) by (simp add: alloc_chunk_def)
  have bz: "BinNumToSize t 0 = 2 * al" using u(4) mt k(3) by (simp add: BinNumToSize_def mul64_exact)
  have "\<exists>sa. sa_new (b_addr b) al (2 * al) k = Inr sa \<and> sa_inv sa \<and> sa_chunk_ptr sa = b_addr b \<and>
       sa_map sa = replicate (k div al) False \<and> kAlignment sa = al \<and> kSize sa = k"
    by (rule sa_new_inv) (use k bf b(3) in auto)
  then obtain sa where sa: "sa_new (b_addr b) al (2 * al) k = Inr sa" "sa_inv sa"
    "sa_chunk_ptr sa = b_addr b" "sa_map sa = replicate (k div al) False" "kAlignment sa = al"
    "kSize sa = k" by auto
  let ?s = "t\<lparr> small_allocs := Some sa, bytes_in_use := add64 (bytes_in_use t) k,
     stats := (stats t)\<lparr> num_allocs := 0, ms_bytes_in_use := add64 (ms_bytes_in_use (stats t)) k \<rparr> \<rparr>"
  have run: "small_setup k u = Inr ?s"
    using al sa(1) bz fr(2) u(3) by (simp add: small_setup_def upd_stats_def)
  have pb: "pool_blocks ?s = alloc_parts u k 0 b"
    using t(3) by (simp add: pool_blocks_def blocks_of_def chunks_ordered_def)
  have okt: "pool_ok ?s"
    using t(2) by (simp add: pool_ok_def pool_blocks_def blocks_of_def chunks_ordered_def)
  let ?a = "allocated k 0 (taken u k b) b"
  have a: "b_addr ?a = b_addr b" "b_used ?a" "k \<le> b_size ?a"
    using b(3) by (auto simp: allocated_def place_def taken_def)
  have sok: "sa_ok sa" using sa(2,3) bf by (simp add: sa_ok_def)
  have "small_ok ?s"
    using sok sa a u(2,3) t(5) fr(2) pb by (auto simp: small_ok_def alloc_parts_def)
  then have inv: "pool_inv ?s" using okt k(2) fr(2) u(3) by (simp add: pool_inv_def)
  have "client_blocks ?s = {}"
    using pb a sa(3) by (auto simp: client_blocks_def is_small_block_def alloc_parts_def tail_block_def)
  moreover have "sa_live sa = {}" using sa(2,4) by (auto simp: sa_live_def sa_inv_def)
  ultimately have "pool_live ?s = {}" by (simp add: pool_live_def small_live_def)
  then show ?thesis using run inv pb sa(3,6) u t(5,6) fr by (intro exI [of _ ?s] exI [of _ sa]) simp
qed

lemma create_chunk_run:
  assumes s: "kMinAllocationSize s = 2 ^ b" "kMinAllocationBits s = b" "8 \<le> b" "b \<le> 42"
    "chunks s = []" "chunk_heap s = (\<lambda>_. None)" "max_pool_size s = n"
    and lim: "header_bytes s < n" "base + n < u64_lim"
  shows "create_chunk base n s = InsertFreeChunkIntoBin (next_host s) (first_state s base n)"
proof -
  have "bin_check (s\<lparr> bins := replicate kNumBins [] \<rparr>) i" if "i < kNumBins" for i
    by (rule bin_check_ok [of _ b]) (use s that in auto)
  then have la: "list_all (bin_check (s\<lparr> bins := replicate kNumBins [] \<rparr>)) [0..<kNumBins]"
    by (simp add: list_all_iff)
  have ar: "add64 base (header_bytes s) = base + header_bytes s" "add64 base n = base + n"
    "sub64 n (header_bytes s) = n - header_bytes s"
    using lim by (simp_all add: add64_exact sub64_exact)
  show ?thesis using la s(5-7)
    by (simp add: create_chunk_def Let_def new_chunk_def first_state_def ar)
qed

lemma create_size_run:
  assumes "pool_size env sz = Inr n"
  shows "\<exists>st. create_size env sz s = Inr (n, s\<lparr> stats := st \<rparr>)"
proof -
  have "s\<lparr> stats := stats s \<rparr> = s" by simp
  then have "\<exists>st. s = s\<lparr> stats := st \<rparr>" by metis
  then show ?thesis using assms
    by (auto simp: pool_size_def create_size_def upd_stats_def bindR_eq_Inr split: if_splits)
qed

lemma pool_create_step:
  assumes c: "create_ok env al h sz n base"
  shows "\<exists>s sa. pool_create env dev sz (pool_new al h ec) = Inr s \<and> pool_inv s \<and> pool_live s = {} \<and>
     small_allocs s = Some sa \<and> sa_chunk_ptr sa = base + al \<and> kSize sa = small_region al \<and>
     \<not> high_memory_allocated s \<and> alignment s = al \<and> max_pool_size s = n \<and> hpu_events s = [] \<and> dev_events s = ec \<and>
     blocks_size (pool_blocks s) = n - al \<and> b_addr (hd (pool_blocks s)) = base + al \<and>
     bytes_in_use s =
       add64 (add64 al (blocks_size (used_blocks (pool_blocks s)))) (small_region al) \<and>
     (2 * small_region al \<le> n - al \<longrightarrow> (\<exists>b d. pool_blocks s = [b, d] \<and> b_used b \<and> \<not> b_used d \<and>
        extent b = (base + al, small_region al) \<and>
        extent d = (base + al + small_region al, n - al - small_region al))) \<and>
     (al dvd base \<longrightarrow> al dvd n \<longrightarrow> (\<forall>b\<in>set (pool_blocks s). al dvd b_addr b \<and> al dvd b_size b)) \<and>
     (\<forall>b\<in>set (pool_blocks s). b_uses b = [] \<and> b_events b = 0)"
proof -
  from c obtain e where e: "al = 2 ^ e" "7 \<le> e" "e \<le> 41" by (auto simp: create_ok_def)
  from c have h: "h \<noteq> 0" and sz: "pool_size env sz = Inr n" and ml: "de_malloc env n = Some base"
    and lim: "base + n < u64_lim" "al + small_region al \<le> n" by (auto simp: create_ok_def)
  have al: "0 < al" "Log2FloorNonZero al = e" using e Log2_power [of e] by auto
  have "(2::nat) ^ e \<le> 2 ^ 41" using e(3) by (intro power_increasing) auto
  then have al2: "2 * al < u64_lim" "6144 * al < u64_lim" using e(1) by (auto simp: u64_lim_def)
  from create_size_run [OF sz, of "(pool_new al h ec)\<lparr> pool_id := dev \<rparr>"] obtain st where
    cs: "create_size env sz ((pool_new al h ec)\<lparr> pool_id := dev \<rparr>) =
      Inr (n, (pool_new al h ec)\<lparr> pool_id := dev, stats := st \<rparr>)" by auto
  define s0 where "s0 = (pool_new al h ec)\<lparr> pool_id := dev, stats := st, max_pool_size := n \<rparr>"
  have s0: "kMinAllocationSize s0 = 2 ^ (e + 1)" "kMinAllocationBits s0 = e + 1" "header_bytes s0 = al"
    "next_host s0 = h" "chunk_heap s0 = (\<lambda>_. None)" "chunks s0 = []" "alignment s0 = al"
    "bytes_in_use s0 = 0" "small_allocs s0 = None" "\<not> high_memory_allocated s0" "hpu_events s0 = []"
    "max_pool_size s0 = n" "dev_events s0 = ec"
    using al(2) by (simp_all add: s0_def pool_new_def)
  have cfg: "cfg_ok s0" using s0 e(3) by (simp add: cfg_ok_def)
  have len: "al < n" "small_region al \<le> n - al" using lim al by (simp_all add: small_region_def)
  let ?f = "first_state s0 base n"
  note fs = first_state_pinv [OF cfg, of n base, unfolded s0(3,4), OF al(1) len(1) lim(1) h]
  obtain t where t: "InsertFreeChunkIntoBin h ?f = Inr t" "pinv {} [h] t" "bin_step ?f t"
    using Insert_step [OF fs(1), of h] by auto
  let ?g = "\<lambda>st. st\<lparr> ms_pool_id := dev, memory_limit := n,
     ms_bytes_in_use := add64 (ms_bytes_in_use st) al,
     pre_allocate_size := add64 (pre_allocate_size st) al \<rparr>"
  let ?u = "upd_stats ?g (t\<lparr> bytes_in_use := add64 (bytes_in_use t) al \<rparr>)"
  have rt: "rest_of t = rest_of ?f" using t(3) by (simp add: bin_step_def)
  have hb: "header_bytes t = al" "kMinAllocationSize t = 2 * al"
    using rt s0 e(1) by (auto simp: rest_of_def first_state_def Let_def
        dest: arg_cong [where f = header_bytes] arg_cong [where f = kMinAllocationSize])
  have r: "bytes_in_use t = 0" "small_allocs t = None" "\<not> high_memory_allocated t"
    "hpu_events t = []" "alignment t = al" "max_pool_size t = n" "dev_events t = ec"
    using rest_of_sel [OF rt] s0 by (simp_all add: first_state_def Let_def)
  have kk: "mul64 6144 al = small_region al" using al2 by (simp add: mul64_exact small_region_def)
  have run: "pool_create env dev sz (pool_new al h ec) = small_setup (small_region al) ?u"
  proof -
    have "create_chunk base n s0 = Inr t"
      using create_chunk_run [of s0 "e + 1" n base] s0 e len(1) lim(1) t(1) by simp
    then show ?thesis using cs ml hb r kk by (simp add: pool_create_def s0_def [symmetric])
  qed
  have inv: "pinv {} [h] ?u" using t(2) by (simp add: upd_stats_def)
  let ?b = "\<lparr> b_id = h, b_addr = base + al, b_size = n - al, b_used = False, b_extra = 0,
     b_stream = 0, b_assoc = False, b_uses = [], b_events = 0 \<rparr>"
  have "block_of ?u h = block_of ?f h"
    using t(3) by (simp add: upd_stats_def bin_step_def)
  then have bu: "blocks_of ?u [h] = [?b]" using fs(2) by simp
  have oku: "pool_ok ?u" by (rule pool_okI [OF inv]) (simp add: bu coalesced_Cons)
  have pu: "pool_blocks ?u = [?b]" using pool_blocks_eq [OF inv] bu by simp
  have "\<exists>s sa. small_setup (small_region al) ?u = Inr s \<and> pool_inv s \<and> pool_live s = {} \<and>
     small_allocs s = Some sa \<and> sa_chunk_ptr sa = b_addr ?b \<and> kSize sa = small_region al \<and>
     pool_blocks s = alloc_parts ?u (small_region al) 0 ?b \<and> \<not> high_memory_allocated s \<and>
     alignment s = al \<and> max_pool_size s = max_pool_size ?u \<and> hpu_events s = hpu_events ?u \<and> dev_events s = dev_events ?u \<and>
     bytes_in_use s = add64 (add64 (bytes_in_use ?u) (taken ?u (small_region al) ?b)) (small_region al)"
    by (rule small_setup_step [OF oku pu])
      (use len lim al al2 hb r in \<open>auto simp: upd_stats_def small_region_def\<close>)
  then obtain s sa where s: "small_setup (small_region al) ?u = Inr s" "pool_inv s" "pool_live s = {}"
    "small_allocs s = Some sa" "sa_chunk_ptr sa = base + al" "kSize sa = small_region al"
    "pool_blocks s = alloc_parts ?u (small_region al) 0 ?b" "\<not> high_memory_allocated s"
    "alignment s = al" "max_pool_size s = max_pool_size ?u" "hpu_events s = hpu_events ?u" "dev_events s = dev_events ?u"
    "bytes_in_use s = add64 (add64 (bytes_in_use ?u) (taken ?u (small_region al) ?b)) (small_region al)"
    by auto
  have bl: "blocks_size (pool_blocks s) = n - al" "b_addr (hd (pool_blocks s)) = base + al"
    "blocks_size (used_blocks (pool_blocks s)) = taken ?u (small_region al) ?b"
    unfolding s(7) using len
    by (auto simp: alloc_parts_def taken_def tail_block_def allocated_def place_def should_split_def)
  have sp: "should_split ?u (small_region al) (n - al)" if "2 * small_region al \<le> n - al"
    using that al al2 by (auto simp: should_split_def mul64_def small_region_def intro: order_trans [OF mod_less_eq_dividend])
  have two: "\<exists>b d. pool_blocks s = [b, d] \<and> b_used b \<and> \<not> b_used d \<and>
      extent b = (base + al, small_region al) \<and>
      extent d = (base + al + small_region al, n - al - small_region al)"
    if "2 * small_region al \<le> n - al"
    unfolding s(7) using sp [OF that]
    by (simp add: alloc_parts_def taken_def tail_block_def allocated_def place_def extent_def)
  have dv: "\<forall>b\<in>set (pool_blocks s). al dvd b_addr b \<and> al dvd b_size b" if "al dvd base" "al dvd n"
    unfolding s(7) using that len
    by (auto simp: alloc_parts_def taken_def tail_block_def allocated_def place_def small_region_def
        intro!: dvd_diff_nat)
  have id: "\<forall>b\<in>set (pool_blocks s). b_uses b = [] \<and> b_events b = 0"
    unfolding s(7) by (auto simp: alloc_parts_def tail_block_def allocated_def place_def)
  have "al < u64_lim" using al2 by simp
  then have "bytes_in_use ?u = al" using r by (simp add: upd_stats_def add64_def)
  then show ?thesis using run s bl r two dv id
    by (intro exI [of _ s] exI [of _ sa]) (simp add: upd_stats_def)
qed

end
