(* ===== verification/Pool_Reach.thy ===== *)
theory Pool_Reach
  imports Pool_Create
begin

text \<open>
  All operations as one step relation, and what holds in every state reachable from
  \<open>pool_create\<close>: the invariant, the tiling of the pool's memory by the chunks, and their
  alignment. The relation demands of the clients what the code demands of them: sizes are
  aligned, only live allocations are freed, and an allocation is not freed while events of it
  are pending.
\<close>

section \<open>The steps of the pool\<close>

inductive pool_step :: "dev_env \<Rightarrow> pool \<Rightarrow> pool \<Rightarrow> bool" for env :: dev_env where
  Alloc: "pool_request (n, st, us) s \<Longrightarrow> alloc_chunk n st us s = Inr (p, t) \<Longrightarrow> pool_step env s t"
| Free: "(p, a) \<in> pool_live s \<Longrightarrow> pool_idle p s \<Longrightarrow> delete_chunk p s = Inr t \<Longrightarrow> pool_step env s t"
| Deferred_free: "(p, a) \<in> pool_live s \<Longrightarrow>
    \<forall>b\<in>client_blocks s. b_addr b = p \<longrightarrow> b_uses b = [] \<longrightarrow> b_events b = 0 \<Longrightarrow>
    pool_free_chunk env p s = Inr t \<Longrightarrow> pool_step env s t"
| Record: "(p, a) \<in> pool_live s \<Longrightarrow> record_stream env p st s = Inr t \<Longrightarrow> pool_step env s t"
| Workspace: "0 < n \<Longrightarrow> n mod alignment s = 0 \<Longrightarrow>
    (high_memory_allocated s \<longrightarrow> ws_idle (pool_blocks s)) \<Longrightarrow>
    extend_high_memory_allocation n cur s = Inr (p, t) \<Longrightarrow> pool_step env s t"
| Defragmenting: "pool_step env s (set_defragmenter_state b s)"

inductive pool_reach :: "dev_env \<Rightarrow> nat \<Rightarrow> nat \<Rightarrow> nat \<Rightarrow> nat \<Rightarrow> pool \<Rightarrow> bool"
  for env :: dev_env and al n base :: nat and sz :: nat where
  Created: "create_ok env al h sz n base \<Longrightarrow> pool_create env dev sz (pool_new al h ec) = Inr s \<Longrightarrow>
    pool_reach env al n base sz s"
| Step: "pool_reach env al n base sz s \<Longrightarrow> pool_step env s t \<Longrightarrow> pool_reach env al n base sz t"

inductive_cases pool_stepE: "pool_step env s t"

lemma pool_step_inv: "pool_step env s t \<Longrightarrow> pool_inv s \<Longrightarrow> pool_inv t"
proof (induction rule: pool_step.induct)
  case (Alloc n st us s p t)
  then show ?case using alloc_chunk_inv by fastforce
next
  case (Free p a s t)
  then show ?case using delete_chunk_inv by fastforce
next
  case (Deferred_free p a s t)
  then show ?case using pool_free_chunk_inv by blast
next
  case (Record p a s st t)
  then show ?case using record_stream_inv [of s p a env st] by (auto simp: same_view_def)
next
  case (Workspace n s cur p t)
  then show ?case using extend_inv [of s n cur] by auto
qed (simp add: set_defragmenter_state_def)

lemma pool_reach_inv: "pool_reach env al n base sz s \<Longrightarrow> pool_inv s"
proof (induction rule: pool_reach.induct)
  case (Created h dev ec s)
  then show ?case using pool_create_step [OF Created(1), of dev ec] by auto
qed (rule pool_step_inv)

section \<open>The chunks tile the memory\<close>

fun tiles :: "nat \<Rightarrow> block list \<Rightarrow> nat \<Rightarrow> bool" where
  "tiles a [] e \<longleftrightarrow> a = e"
| "tiles a (b # bs) e \<longleftrightarrow> b_addr b = a \<and> 0 < b_size b \<and> tiles (a + b_size b) bs e"

lemma seg_tiles: "seg (chunk_heap s) p a cs nx e \<Longrightarrow> tiles a (blocks_of s cs) e"
proof (induction cs arbitrary: p a)
  case (Cons c cs)
  then obtain k where "chunk_heap s c = Some k" "c_memptr k = a" "0 < c_size k"
    "seg (chunk_heap s) c (a + c_size k) cs nx e" by (auto split: option.splits)
  then show ?case using Cons.IH by simp
qed simp

lemma pool_tiles:
  assumes "pool_ok s"
  shows "tiles (fst (pool_span s)) (pool_blocks s) (snd (pool_span s))"
proof -
  obtain ids where ids: "pinv {} ids s" "pool_blocks s = blocks_of s ids" by (rule pool_okE [OF assms])
  obtain p where "prealloc_pool s = Live_pool p"
    "seg (chunk_heap s) 0 (pl_memptr p) ids 0 (pl_end p)" using pinvD [OF ids(1)] by auto
  then show ?thesis using seg_tiles ids(2) by (auto simp: pool_span_def)
qed

section \<open>Alignment\<close>

definition aligned_blocks :: "nat \<Rightarrow> block list \<Rightarrow> bool" where
  "aligned_blocks al bs \<longleftrightarrow> (\<forall>b\<in>set bs. al dvd b_addr b \<and> al dvd b_size b)"

definition pool_aligned :: "pool \<Rightarrow> bool" where
  "pool_aligned s \<longleftrightarrow> aligned_blocks (alignment s) (pool_blocks s)"

lemma aligned_blocks_simps [simp]:
  "aligned_blocks al []" 
  "aligned_blocks al (b # bs) \<longleftrightarrow> (al dvd b_addr b \<and> al dvd b_size b) \<and> aligned_blocks al bs"
  "aligned_blocks al (xs @ ys) \<longleftrightarrow> aligned_blocks al xs \<and> aligned_blocks al ys"
  by (auto simp: aligned_blocks_def)

lemma aligned_absorb: "aligned_blocks al (b # ys) \<Longrightarrow> aligned_blocks al (absorb b ys)"
  by (cases ys) auto

lemma aligned_coalesce: "aligned_blocks al (xs @ b # ys) \<Longrightarrow> aligned_blocks al (coalesce xs b ys)"
proof (cases xs rule: rev_cases)
  case Nil
  then show "aligned_blocks al (xs @ b # ys) \<Longrightarrow> ?thesis" by (simp add: coalesce_def aligned_absorb)
next
  case (snoc zs z)
  assume a: "aligned_blocks al (xs @ b # ys)"
  then have "aligned_blocks al (absorb b ys)" by (simp add: aligned_absorb)
  then have "aligned_blocks al (absorb z (absorb b ys))"
    using a snoc by (intro aligned_absorb) simp
  then show ?thesis using a snoc by (auto simp: coalesce_def aligned_absorb)
qed

lemma aligned_free_block:
  assumes "free_block a bs = Some bs'" "aligned_blocks al bs"
  shows "aligned_blocks al bs'"
proof -
  from assms(1) obtain b ys where b: "dropWhile (\<lambda>b. b_addr b \<noteq> a) bs = b # ys"
    "bs' = coalesce (takeWhile (\<lambda>b. b_addr b \<noteq> a) bs) (freed b) ys"
    by (auto simp: free_block_def split: list.splits)
  have "bs = takeWhile (\<lambda>b. b_addr b \<noteq> a) bs @ b # ys" using b(1) by (metis takeWhile_dropWhile_id)
  then have "aligned_blocks al (takeWhile (\<lambda>b. b_addr b \<noteq> a) bs @ b # ys)" using assms(2) by metis
  then show ?thesis unfolding b(2) by (intro aligned_coalesce) (simp add: freed_def)
qed

lemma aligned_alloc_blocks:
  assumes "alloc_blocks s n st us bs = Some (b, bs')" "aligned_blocks al bs" "al dvd n"
  shows "aligned_blocks al bs'"
proof -
  from assms(1) have b: "best_block (fits n st us) bs = Some b"
    "bs' = replace_block b (alloc_parts s n st b) bs"
    by (auto simp: alloc_blocks_def split: option.splits)
  have "b \<in> set bs" using b(1)
    by (induction bs) (auto split: option.splits if_splits)
  then show ?thesis
    using assms(2,3) set_replace_block [of b bs]
    unfolding b(2) aligned_blocks_def
    by (auto simp: alloc_parts_def taken_def allocated_def place_def tail_block_def)
qed

lemma aligned_ws_start: "aligned_blocks al bs \<Longrightarrow> bs \<noteq> [] \<Longrightarrow> aligned_blocks al (ws_start high bs)"
proof -
  assume a: "aligned_blocks al bs" "bs \<noteq> []"
  then have "aligned_blocks al (butlast bs @ [last bs])" by simp
  then have "aligned_blocks al (coalesce (butlast bs) ((last bs)\<lparr> b_used := False \<rparr>) [])"
    by (intro aligned_coalesce) simp
  then show ?thesis using a by (simp add: ws_start_def ws_release_def)
qed

lemma aligned_ws_cut:
  assumes "aligned_blocks al bs" "bs \<noteq> []" "al dvd sz" "sz \<le> b_size (last bs)"
  shows "aligned_blocks al (ws_cut m sz bs)"
proof -
  have "aligned_blocks al (butlast bs @ [last bs])" using assms by simp
  then show ?thesis using assms(3,4) by (auto simp: ws_cut_def Let_def tail_block_def)
qed

lemma aligned_set: "extent ` set bs' = extent ` set bs \<Longrightarrow> aligned_blocks al bs' = aligned_blocks al bs"
proof -
  assume e: "extent ` set bs' = extent ` set bs"
  have "aligned_blocks al xs \<longleftrightarrow> (\<forall>(a, n)\<in>extent ` set xs. al dvd a \<and> al dvd n)" for xs
    by (auto simp: aligned_blocks_def extent_def)
  note this [of bs'] this [of bs]
  then show ?thesis unfolding e by blast
qed

text \<open>Every step keeps the configuration and the alignment of the chunks.\<close>

lemma delete_chunk_blocks:
  assumes inv: "pool_inv s" and live: "(p, a) \<in> pool_live s" and idle: "pool_idle p s"
    and run: "delete_chunk p s = Inr t"
  shows "same_config s t \<and>
    (pool_blocks t = pool_blocks s \<or> free_block p (pool_blocks s) = Some (pool_blocks t))"
proof (cases "(p, a) \<in> small_live s")
  case True
  from delete_small_inv [OF inv this] run show ?thesis by auto
next
  case False
  then obtain b where b: "b \<in> client_blocks s" "extent b = (p, a)" using live by (auto simp: pool_live_def)
  then have "b_uses b = [] \<and> b_events b = 0" "b_addr b = p"
    using idle by (auto simp: pool_idle_def extent_def)
  then show ?thesis using delete_client_inv [OF inv b(1)] run frame_of_config by auto
qed

lemma same_view_aligned: "same_view s t \<Longrightarrow> pool_aligned s \<Longrightarrow> pool_aligned t"
proof -
  assume v: "same_view s t" and a: "pool_aligned s"
  have "map extent (pool_blocks t) = map extent (pool_blocks s)" "alignment t = alignment s"
    using v by (simp_all add: same_view_def same_config_def)
  then have "extent ` set (pool_blocks t) = extent ` set (pool_blocks s)"
    by (metis list.set_map)
  from aligned_set [OF this] show ?thesis
    using a \<open>alignment t = alignment s\<close> by (simp add: pool_aligned_def)
qed

lemma pool_step_aligned:
  "pool_step env s t \<Longrightarrow> pool_inv s \<Longrightarrow> same_config s t \<and> (pool_aligned s \<longrightarrow> pool_aligned t)"
proof (induction rule: pool_step.induct)
  case (Alloc n st us s p t)
  then have "same_config s t" and c: "pool_blocks t = pool_blocks s \<or>
      (\<exists>b. alloc_blocks s n st us (pool_blocks s) = Some (b, pool_blocks t))"
    using alloc_chunk_inv [OF Alloc(3,1)] by auto
  moreover have "alignment s dvd n" using Alloc(1) by (auto simp: pool_request_def)
  ultimately show ?case using aligned_alloc_blocks by (auto simp: pool_aligned_def same_config_def)
next
  case (Free p a s t)
  from delete_chunk_blocks [OF Free(4,1,2,3)] show ?case
    using aligned_free_block by (auto simp: pool_aligned_def same_config_def)
next
  case (Deferred_free p a s t)
  from pool_free_chunk_inv [OF Deferred_free(4,1,2,3)]
  have "same_config s t" "same_view s t \<or> delete_chunk p s = Inr t \<and> pool_idle p s" by auto
  then show ?case
    using same_view_aligned [of s t] delete_chunk_blocks [OF Deferred_free(4,1)] aligned_free_block
    by (auto simp: pool_aligned_def same_config_def)
next
  case (Record p a s st t)
  then show ?case using record_stream_inv [of s p a env st] same_view_aligned [of s t]
    by (auto simp: same_view_def)
next
  case (Workspace n s cur p t)
  from extend_inv [OF Workspace(5,1), of cur] Workspace(3,4)
  have t: "pool_inv t" "frame_of t = frame_of s" "extend_result n cur s p t" by auto
  note c = frame_of_config [OF t(2)]
  have ne: "pool_blocks s \<noteq> []" using Workspace(5) pool_blocks_ne by (auto simp: pool_inv_def)
  let ?b1 = "ws_start (high_memory_allocated s) (pool_blocks s)"
  have ne1: "?b1 \<noteq> []" using ne by (auto simp: ws_start_def ws_release_def coalesce_def)
  have "aligned_blocks al (pool_blocks t)" if a: "aligned_blocks al (pool_blocks s)" "al dvd n" for al
  proof -
    have a1: "aligned_blocks al ?b1" by (rule aligned_ws_start [OF a(1) ne])
    then have "aligned_blocks al (butlast ?b1 @ [last ?b1])" using ne1 by simp
    then have "aligned_blocks al (butlast ?b1 @ [(last ?b1)\<lparr> b_used := True \<rparr>])" by simp
    moreover have "n \<le> b_size (last ?b1) \<Longrightarrow> aligned_blocks al (ws_cut (next_host s) n ?b1)"
      by (rule aligned_ws_cut [OF a1 ne1 a(2)])
    ultimately show ?thesis
      using t(3) a(1) unfolding extend_result_def Let_def by (auto split: if_splits)
  qed
  then show ?case using c Workspace(2) by (auto simp: pool_aligned_def same_config_def)
next
  case (Defragmenting s b)
  then show ?case by (simp add: set_defragmenter_state_def pool_aligned_def)
qed

section \<open>Accounting\<close>

text \<open>The bytes of the chunks in use; \<open>bytes_in_use\<close> moves with it.\<close>

definition used_size :: "pool \<Rightarrow> nat" where
  "used_size s = blocks_size (used_blocks (pool_blocks s))"

definition same_overhead :: "pool \<Rightarrow> pool \<Rightarrow> bool" where
  "same_overhead s t \<longleftrightarrow>
     add64 (bytes_in_use t) (used_size s) = add64 (bytes_in_use s) (used_size t)"

lemma tiles_size: "tiles a bs e \<Longrightarrow> a + blocks_size bs = e"
  by (induction bs arbitrary: a) fastforce+

lemma used_size_le: "blocks_size (used_blocks bs) \<le> blocks_size bs"
  by (induction bs) auto

lemma add64_assoc: "add64 (add64 a b) c = add64 a (b + c)"
  by (simp add: add64_def mod_simps add.assoc)

lemma same_overhead_alloc:
  assumes ok: "pool_ok s" and n: "0 < n" "n < u64_lim" "n \<le> max_pool_size s"
    and run: "alloc_large n st us s = Inr (p, t)"
  shows "same_overhead s t"
proof (cases "alloc_blocks s n st us (pool_blocks s)")
  case None
  then show ?thesis using alloc_large_step [OF ok n, of st us] run by (simp add: same_overhead_def)
next
  case (Some q)
  obtain b where q: "q = (b, pool_blocks t)" "b \<in> set (pool_blocks s)" "best_fit n st us b (pool_blocks s)"
    "bytes_in_use t = add64 (bytes_in_use s) (taken s n b)"
    using alloc_large_step [OF ok n, of st us] run Some by (auto split: prod.splits)
  have nu: "\<not> b_used b" using q(3) by (simp add: best_fit_def fits_def)
  obtain xs ys where sp: "pool_blocks s = xs @ b # ys" using in_set_split [OF q(2)] by auto
  have ds: "b \<notin> set xs" "b \<notin> set ys" using pool_blocks_distinct [OF ok] sp by auto
  have "pool_blocks t = replace_block b (alloc_parts s n st b) (pool_blocks s)"
    using Some q(1) by (auto simp: alloc_blocks_def split: option.splits)
  then have "pool_blocks t = xs @ alloc_parts s n st b @ ys" using replace_block_split [OF ds] sp by simp
  then have "used_size t = used_size s + taken s n b"
    using nu sp by (simp add: used_size_def alloc_parts_def allocated_def place_def tail_block_def)
  then show ?thesis using q(4) by (simp add: same_overhead_def add64_assoc add.commute)
qed

lemma same_overhead_free:
  assumes inv: "pool_inv s" and b: "b \<in> client_blocks s" "b_uses b = []" "b_events b = 0"
    and run: "delete_chunk (b_addr b) s = Inr t"
  shows "same_overhead s t"
proof -
  have ok: "pool_ok s" and bs: "b \<in> set (pool_blocks s)" "b_used b"
    using inv b(1) by (auto simp: pool_inv_def client_blocks_def)
  from delete_client_inv [OF inv b] run have t:
    "free_block (b_addr b) (pool_blocks s) = Some (pool_blocks t)"
    "bytes_in_use t = sub64 (bytes_in_use s) (b_size b)" by auto
  obtain xs ys where sp: "pool_blocks s = xs @ b # ys" using in_set_split [OF bs(1)] by auto
  have ds: "b \<notin> set xs" "b \<notin> set ys" using pool_blocks_distinct [OF ok] sp by auto
  have "b_addr d \<noteq> b_addr b" if "d \<in> set xs" for d
    using pool_block_addr_inj [OF ok _ bs(1), of d] that ds sp by auto
  then have "free_block (b_addr b) (xs @ b # ys) = Some (coalesce xs (freed b) ys)"
    by (intro free_block_split) auto
  then have pt: "pool_blocks t = coalesce xs (freed b) ys" using t(1) sp by simp
  have "used_size s = used_size t + b_size b"
    unfolding used_size_def pt using used_blocks_coalesce [of "freed b" xs ys] sp bs(2)
    by (simp add: freed_def)
  moreover have "b_size b < u64_lim" using pool_block_facts(3) [OF ok bs(1)] by simp
  then have "add64 (sub64 (bytes_in_use s) (b_size b)) (b_size b) = bytes_in_use s mod u64_lim"
    by (simp add: add64_def sub64_def mod_simps)
  ultimately show ?thesis
    unfolding same_overhead_def t(2)
    by (metis add64_assoc add64_def add.commute mod_add_left_eq)
qed

section \<open>The span of a reachable pool\<close>

lemma tiles_hd: "tiles a bs e \<Longrightarrow> bs \<noteq> [] \<Longrightarrow> b_addr (hd bs) = a"
  by (cases bs) auto

lemma pool_reach_span:
  "pool_reach env al n base sz s \<Longrightarrow>
   pool_span s = (base + al, base + n) \<and> alignment s = al \<and> max_pool_size s = n"
proof (induction rule: pool_reach.induct)
  case (Created h dev ec s)
  have n: "al + small_region al \<le> n" using Created(1) by (auto simp: create_ok_def)
  from pool_create_step [OF Created(1), of dev ec] Created(2)
  have s: "pool_inv s" "alignment s = al" "max_pool_size s = n"
    "blocks_size (pool_blocks s) = n - al" "b_addr (hd (pool_blocks s)) = base + al" by auto
  have ok: "pool_ok s" using s(1) by (simp add: pool_inv_def)
  note t = pool_tiles [OF ok]
  have "fst (pool_span s) = base + al" using tiles_hd [OF t pool_blocks_ne [OF ok]] s(5) by simp
  moreover have "snd (pool_span s) = base + n" using tiles_size [OF t] s(4) n calculation by simp
  ultimately show ?case using s by (simp add: prod_eq_iff)
next
  case (Step s t)
  then show ?case using pool_step_aligned [OF Step(2) pool_reach_inv [OF Step(1)]]
    by (simp add: same_config_def)
qed

lemma pool_reach_aligned:
  "pool_reach env al n base sz s \<Longrightarrow> al dvd base \<Longrightarrow> al dvd n \<Longrightarrow> pool_aligned s"
proof (induction rule: pool_reach.induct)
  case (Created h dev ec s)
  then show ?case using pool_create_step [OF Created(1), of dev ec]
    by (auto simp: pool_aligned_def aligned_blocks_def)
next
  case (Step s t)
  then show ?case using pool_step_aligned [OF Step(2) pool_reach_inv [OF Step(1)]] by simp
qed

lemma tiles_inside: "tiles a bs e \<Longrightarrow> b \<in> set bs \<Longrightarrow> a \<le> b_addr b \<and> b_addr b + b_size b \<le> e"
proof (induction bs arbitrary: a)
  case (Cons d bs)
  have "a + b_size d \<le> e" using tiles_size [of "a + b_size d" bs e] Cons.prems(1) by simp
  then show ?case using Cons.prems Cons.IH [of "a + b_size d"] by auto
qed simp

lemma pool_live_inside:
  assumes inv: "pool_inv s" and live: "(p, a) \<in> pool_live s"
  shows "fst (pool_span s) \<le> p \<and> p + a \<le> snd (pool_span s)"
proof -
  note t = pool_tiles [of s] and ok = inv [unfolded pool_inv_def, THEN conjunct1]
  have "\<exists>b\<in>set (pool_blocks s). b_addr b \<le> p \<and> p + a \<le> b_addr b + b_size b"
    using live small_live_inside [OF inv, of p a]
    by (auto simp: pool_live_def client_blocks_def extent_def)
  then show ?thesis using tiles_inside [OF t [OF ok]] by fastforce
qed

text \<open>Small allocations leave the accounting of the chunks alone.\<close>

lemma same_overhead_chunk:
  assumes inv: "pool_inv s" and r: "pool_request (n, st, us) s" and n: "n \<le> max_pool_size s"
    and run: "alloc_chunk n st us s = Inr (p, t)"
  shows "same_overhead s t"
proof -
  have ok: "pool_ok s" using inv by (simp add: pool_inv_def)
  have "0 < n" "n < u64_lim" using r by (auto simp: pool_request_def)
  note l = same_overhead_alloc [OF ok this n]
  have small: "same_overhead s (s\<lparr> small_allocs := x, stats := st \<rparr>)" for x st
    by (simp add: same_overhead_def used_size_def)
  show ?thesis
    using run l small unfolding alloc_chunk_unfold [OF inv r]
    by (auto split: option.splits sum.splits prod.splits if_splits)
qed

lemma same_overhead_delete:
  assumes inv: "pool_inv s" and live: "(p, a) \<in> pool_live s" and idle: "pool_idle p s"
    and run: "delete_chunk p s = Inr t"
  shows "same_overhead s t"
  using inv live
proof (cases rule: live_cases)
  case small
  then show ?thesis using delete_small_inv [OF inv small(1)] run
    by (auto simp: same_overhead_def used_size_def)
next
  case (big b)
  then show ?thesis using same_overhead_free [OF inv big(1), of t] run idle by (simp add: pool_idle_def)
qed

end
