(* ===== verification/Pool_Queries.thy ===== *)
theory Pool_Queries
  imports Pool_Reach
begin

text \<open>
  The queries of the pool return without error in every good state, their loops end within the
  fuel the definitions give them, and their results are read off the list of blocks.
\<close>

section \<open>Chunks and blocks\<close>

lemma pool_chunk_at:
  assumes "pool_ok s" "c \<in> set (chunks_ordered s)"
  shows "\<exists>k. deref s c = Inr k \<and> chunk_heap s c = Some k \<and> b_size (block_of s c) = c_size k \<and>
    b_addr (block_of s c) = c_memptr k \<and> b_used (block_of s c) = c_used k \<and> 0 < c_size k \<and>
    c_memptr k + c_size k < u64_lim"
proof -
  have "pinv {} (chunks_ordered s) s" using assms(1) by (simp add: pool_ok_def)
  from pinv_chunk [OF this assms(2)] show ?thesis by (metis block_of_simps(1-3))
qed

lemma occupied_loop_blocks:
  "pool_ok s \<Longrightarrow> set cs \<subseteq> set (chunks_ordered s) \<Longrightarrow>
   occupied_loop s cs = Inr (map extent (used_blocks (blocks_of s cs)))"
proof (induction cs)
  case (Cons c cs)
  then obtain k where "deref s c = Inr k" "b_size (block_of s c) = c_size k"
    "b_addr (block_of s c) = c_memptr k" "b_used (block_of s c) = c_used k" "0 < c_size k"
    using pool_chunk_at [of s c] by auto
  then show ?case using Cons by (simp add: extent_def)
qed simp

lemma get_occupied_chunk_map_blocks:
  "pool_ok s \<Longrightarrow> get_occupied_chunk_map s = Inr (map extent (used_blocks (pool_blocks s)))"
  by (simp add: get_occupied_chunk_map_def occupied_loop_blocks pool_blocks_def)

lemma memory_mask_loop_blocks:
  "pool_ok s \<Longrightarrow> set cs \<subseteq> set (chunks_ordered s) \<Longrightarrow>
   memory_mask_loop s cs =
     Inr (concat (map (\<lambda>b. [if b_used b then 1 else 0, b_size b]) (blocks_of s cs)))"
proof (induction cs)
  case (Cons c cs)
  then obtain k where "deref s c = Inr k" "b_size (block_of s c) = c_size k"
    "b_used (block_of s c) = c_used k"
    using pool_chunk_at [of s c] by auto
  then show ?case using Cons by simp
qed simp

lemma get_memory_mask_blocks:
  "pool_ok s \<Longrightarrow> get_memory_mask s =
     Inr (concat (map (\<lambda>b. [if b_used b then 1 else 0, b_size b]) (pool_blocks s)))"
  by (simp add: get_memory_mask_def memory_mask_loop_blocks pool_blocks_def)

lemma get_tail_chunk_info_block:
  assumes "pool_ok s"
  shows "get_tail_chunk_info s = Inr (extent (last (pool_blocks s)))"
proof -
  obtain ids where ids: "pinv {} ids s" "pool_blocks s = blocks_of s ids" by (rule pool_okE [OF assms])
  from pinv_last [OF ids(1)] obtain p where p: "prealloc_pool s = Live_pool p" "pl_top p = last ids"
    "last ids \<noteq> 0" "last ids \<in> set ids" "block_of s (last ids) = last (blocks_of s ids)" by auto
  obtain k where k: "chunk_heap s (last ids) = Some k" "deref s (last ids) = Inr k"
    using pinv_chunk [OF ids(1) p(4)] by metis
  have "extent (block_of s (last ids)) = (c_memptr k, c_size k)" using k(1) by (simp add: extent_def)
  then show ?thesis using p(1-3,5) k ids(2) by (simp add: get_tail_chunk_info_def deref_pool_def)
qed

section \<open>The largest free chunk\<close>

text \<open>
  In a coalesced pool the free neighbours \<open>getContigousChunkSize\<close> looks for do not exist: for a
  free chunk it returns the size of the chunk, and both its loops end after one step.
\<close>

lemma getContigousChunkSize_free:
  assumes ok: "pool_ok s" and c: "c \<in> set (chunks_ordered s)" "\<not> b_used (block_of s c)"
  shows "getContigousChunkSize s c = Inr (b_size (block_of s c))"
proof -
  obtain ids where ids: "pinv {} ids s" "coalesced (blocks_of s ids)" "chunks_ordered s = ids"
    by (rule pool_okE [OF ok])
  obtain k where k: "deref s c = Inr k" "chunk_heap s c = Some k" "b_size (block_of s c) = c_size k"
    "c_memptr k + c_size k < u64_lim" using pool_chunk_at [OF ok c(1)] by metis
  obtain xs ys where sp: "ids = xs @ c # ys" using in_set_split c(1) ids(3) by metis
  have lk: "c_prev k = (if xs = [] then 0 else last xs)" "c_next k = (if ys = [] then 0 else hd ys)"
    using pinv_at [OF ids(1) [unfolded sp]] k(2) by auto
  have co: "xs \<noteq> [] \<Longrightarrow> b_used (block_of s (last xs))" "ys \<noteq> [] \<Longrightarrow> b_used (block_of s (hd ys))"
    using ids(2) sp c(2) last_blocks_of [of xs s] hd_map [of ys "block_of s"]
    by (auto simp: coalesced_append coalesced_Cons blocks_of_def)
  have pv: "contig_prev (Suc n) s c acc = Inr acc" for n acc
  proof (cases "xs = []")
    case False
    have "last xs \<in> set (chunks_ordered s)" using False sp ids(3) by simp
    from pool_chunk_at [OF ok this] obtain l where "deref s (last xs) = Inr l"
      "c_used l = b_used (block_of s (last xs))" by metis
    then show ?thesis using k(1) lk co False by simp
  qed (simp add: k(1) lk)
  have nx: "contig_next (Suc n) s c acc = Inr acc" for n acc
  proof (cases "ys = []")
    case False
    have "hd ys \<in> set (chunks_ordered s)" using False sp ids(3) by simp
    from pool_chunk_at [OF ok this] obtain l where "deref s (hd ys) = Inr l"
      "c_used l = b_used (block_of s (hd ys))" by metis
    then show ?thesis using k(1) lk co False by simp
  qed (simp add: k(1) lk)
  have "b_size (block_of s c) < u64_lim" using k(3,4) by simp
  then show ?thesis 
    by (simp add: getContigousChunkSize_def pv nx k(1,3) add64_def
        del: contig_prev.simps contig_next.simps)
qed

definition free_sizes :: "block list \<Rightarrow> nat list" where
  "free_sizes bs = map b_size (filter (\<lambda>b. \<not> b_used b) bs)"

lemma max_cntgs_loop_blocks:
  "pool_ok s \<Longrightarrow> set cs \<subseteq> set (chunks_ordered s) \<Longrightarrow>
   max_cntgs_loop s cs m = Inr (fold max (free_sizes (blocks_of s cs)) m)"
proof (induction cs arbitrary: m)
  case (Cons c cs)
  then obtain k where k: "deref s c = Inr k" "b_size (block_of s c) = c_size k"
    "b_used (block_of s c) = c_used k" "0 < c_size k"
    using pool_chunk_at [of s c] by auto
  show ?case
  proof (cases "c_used k")
    case True
    then show ?thesis using Cons k by (simp add: free_sizes_def)
  next
    case False
    then have "getContigousChunkSize s c = Inr (b_size (block_of s c))"
      using getContigousChunkSize_free Cons.prems k(3) by simp
    moreover have "(if m < x then x else m) = max x m" for x :: nat by simp
    ultimately show ?thesis using Cons k False by (simp add: free_sizes_def)
  qed
qed (simp add: free_sizes_def)

lemma get_max_cntgs_chunk_size_blocks:
  "pool_ok s \<Longrightarrow> get_max_cntgs_chunk_size s = Inr (fold max (free_sizes (pool_blocks s)) 0)"
  by (simp add: get_max_cntgs_chunk_size_def max_cntgs_loop_blocks pool_blocks_def)

lemma fold_max_Max: "fold max xs (m::nat) = Max (insert m (set xs))"
proof (induction xs arbitrary: m)
  case (Cons x xs)
  show ?case unfolding fold_simps Cons.IH by (cases "xs = []") (simp_all add: max.left_commute max.assoc)
qed simp

section \<open>The size of an allocation\<close>

lemma allocated_size_live:
  assumes inv: "pool_inv s" and live: "(p, a) \<in> pool_live s"
  shows "allocated_size p s = Inr a"
proof (rule live_cases [OF inv live])
  assume l: "(p, a) \<in> small_live s" and sm: "is_small_alloc s p = Inr True"
  from small_live_ok [OF inv l] obtain sa where sa: "small_allocs s = Some sa"
    "(p, a) \<in> sa_live sa" "sa_ok sa" by blast
  then obtain i where i: "p = unit_ptr sa i" "a = kAlignment sa" "i < kUnits sa" "sa_map sa ! i"
    by (auto simp: sa_live_def)
  have "sa_Size sa p = Inr a"
    using sa(3) i unit_ptr_units [of sa i] sa_unit_size [of sa i]
    by (simp add: sa_Size_def sa_ok_def) (simp add: sa_inv_def)
  then show ?thesis using sm sa(1) by (simp add: allocated_size_def)
next
  fix b assume b: "p = b_addr b" "a = b_size b" "is_small_alloc s p = Inr False"
    "lookup_chunk s p = Inr (b_id b)" "chunk_heap s (b_id b) \<noteq> None" "b = block_of s (b_id b)"
  then obtain k where k: "chunk_heap s (b_id b) = Some k" by auto
  then have "c_size k = a" using b(2,6) by (metis block_of_simps(2))
  then show ?thesis using b(3,4) k by (simp add: allocated_size_def deref_def)
qed

end
