(* ===== verification/Pool_Example.thy ===== *)
theory Pool_Example
  imports Pool_Queries
begin

text \<open>
  A pool of 4 MB at address 4096 on a device whose malloc always succeeds, and the pool after one
  allocation in it. The states at which the properties of the pool are applied.
\<close>

definition demo_env :: dev_env where
  "demo_env = \<lparr> de_free_mem = 8388608, de_malloc = (\<lambda>n. Some 4096), de_hccl_allowance = 0,
     de_mem_acquire_perc = 100, de_event_create = (\<lambda>n. Some (n + 1)), de_event_query = (\<lambda>_. True),
     de_event_sync = (\<lambda>_. True), de_event_record = (\<lambda>_ _. True), de_stream = (\<lambda>n. n),
     de_recipe_count = 1 \<rparr>"

definition demo_new :: pool where
  "demo_new = pool_new 128 1 (event_handle_cache_new 0)"

definition pool_of :: "pool res \<Rightarrow> pool" where
  "pool_of r = (case r of Inr s \<Rightarrow> s | Inl _ \<Rightarrow> demo_new)"

definition demo_pool :: pool where
  "demo_pool = pool_of (pool_create demo_env 0 4194304 demo_new)"

lemma demo_create: "create_ok demo_env 128 1 4194304 4194304 4096"
proof -
  have "\<exists>e. (128::nat) = 2 ^ e \<and> 7 \<le> e \<and> e \<le> 41" by (rule exI [of _ 7]) simp
  then show ?thesis
    by (simp add: create_ok_def demo_env_def pool_size_def default_pool_size_def u64_lim_def
        small_region_def)
qed

lemma demo_pool_facts:
  shows "pool_create demo_env 0 4194304 demo_new = Inr demo_pool" "pool_inv demo_pool"
    "pool_live demo_pool = {}" "alignment demo_pool = 128" "max_pool_size demo_pool = 4194304"
    "\<not> high_memory_allocated demo_pool"
    "hpu_events demo_pool = [] \<and> dev_events demo_pool = event_handle_cache_new 0"
    "\<exists>sa. small_allocs demo_pool = Some sa \<and> kAlignment sa = 128 \<and> kSize sa = 786432 \<and>
       sa_chunk_ptr sa = 4224"
    "\<exists>b d. pool_blocks demo_pool = [b, d] \<and> b_used b \<and> \<not> b_used d \<and> extent b = (4224, 786432) \<and>
       extent d = (790656, 3407744)"
proof -
  from pool_create_step [OF demo_create, of 0 "event_handle_cache_new 0"] obtain s sa where
    s: "pool_create demo_env 0 4194304 demo_new = Inr s" "pool_inv s" "pool_live s = {}"
    "small_allocs s = Some sa" "sa_chunk_ptr sa = 4096 + 128" "kSize sa = small_region 128"
    "\<not> high_memory_allocated s" "alignment s = 128" "max_pool_size s = 4194304" "hpu_events s = [] \<and> dev_events s = event_handle_cache_new 0"
    "2 * small_region 128 \<le> 4194304 - 128 \<longrightarrow> (\<exists>b d. pool_blocks s = [b, d] \<and> b_used b \<and> \<not> b_used d \<and>
       extent b = (4096 + 128, small_region 128) \<and>
       extent d = (4096 + 128 + small_region 128, 4194304 - 128 - small_region 128))"
    unfolding demo_new_def by blast
  have d: "demo_pool = s" using s(1) by (simp add: demo_pool_def pool_of_def)
  show "pool_create demo_env 0 4194304 demo_new = Inr demo_pool" "pool_inv demo_pool"
    "pool_live demo_pool = {}" "alignment demo_pool = 128" "max_pool_size demo_pool = 4194304"
    "\<not> high_memory_allocated demo_pool"
    "hpu_events demo_pool = [] \<and> dev_events demo_pool = event_handle_cache_new 0"
    using s d by auto
  show "\<exists>b d. pool_blocks demo_pool = [b, d] \<and> b_used b \<and> \<not> b_used d \<and> extent b = (4224, 786432) \<and>
       extent d = (790656, 3407744)"
    using s(11) d by (simp add: small_region_def)
  show "\<exists>sa. small_allocs demo_pool = Some sa \<and> kAlignment sa = 128 \<and> kSize sa = 786432 \<and>
       sa_chunk_ptr sa = 4224"
    using s small_okD [OF s(2,4)] d by (simp add: small_region_def) metis
qed

definition demo_alloc :: pool where
  "demo_alloc = (case alloc_chunk 512 1 False demo_pool of Inr (p, s) \<Rightarrow> s | Inl _ \<Rightarrow> demo_new)"

lemma demo_request: "pool_request (512, 1, False) demo_pool"
  using demo_pool_facts(4) by (simp add: pool_request_def u64_lim_def)

lemma demo_alloc_facts:
  shows "alloc_large 512 1 False demo_pool = Inr (790656, demo_alloc)"
    "alloc_chunk 512 1 False demo_pool = Inr (790656, demo_alloc)"
    "pool_inv demo_alloc" "pool_live demo_alloc = {(790656, 512)}" "pool_idle 790656 demo_alloc"
    "\<not> high_memory_allocated demo_alloc" "alignment demo_alloc = 128"
    "\<exists>b c d. pool_blocks demo_alloc = [b, c, d] \<and> b_used b \<and> b_used c \<and> \<not> b_used d \<and>
       extent b = (4224, 786432) \<and> extent c = (790656, 512) \<and> extent d = (791168, 3407232)"
    "\<exists>c. client_blocks demo_alloc = {c} \<and> extent c = (790656, 512) \<and> b_stream c = 1"
    "dev_events demo_alloc = event_handle_cache_new 0"
proof -
  note f = demo_pool_facts
  have ok: "pool_ok demo_pool" using f(2) by (simp add: pool_inv_def)
  from f(9) obtain b d where bl: "pool_blocks demo_pool = [b, d]" "b_used b" "\<not> b_used d"
    "extent b = (4224, 786432)" "extent d = (790656, 3407744)" by blast
  then have bd: "b_addr b = 4224" "b_size b = 786432" "b_addr d = 790656" "b_size d = 3407744" "b \<noteq> d"
    by (auto simp: extent_def)
  have fit: "\<not> fits 512 1 False b" "fits 512 1 False d" using bl bd by (simp_all add: fits_def)
  have sp: "should_split demo_pool 512 (b_size d)" "taken demo_pool 512 d = 512"
    using bd by (simp_all add: taken_def should_split_def mul64_def u64_lim_def)
  have ab: "alloc_blocks demo_pool 512 1 False (pool_blocks demo_pool) =
      Some (d, [b, allocated 512 1 512 d, tail_block (next_host demo_pool) 512 d])"
    using fit sp bd by (simp add: bl alloc_blocks_def replace_block_def alloc_parts_def)
  from alloc_large_step [OF ok, of 512 1 False] obtain p t where
    t: "alloc_large 512 1 False demo_pool = Inr (p, t)" "p = b_addr d"
      "pool_blocks t = [b, allocated 512 1 512 d, tail_block (next_host demo_pool) 512 d]"
      "high_memory_allocated t = high_memory_allocated demo_pool" "frame_of t = frame_of demo_pool"
    using ab f(5) by (auto simp: u64_lim_def)
  from f(8) obtain sa where sa: "small_allocs demo_pool = Some sa" "kAlignment sa = 128"
    "sa_chunk_ptr sa = 4224" by blast
  have "kThreshold sa = 256" using small_okD [OF f(2) sa(1)] sa(2) by (metis sa_ok_def sa_inv_def mult_2 numeral_Bit0)
  then have "sa_Allocate sa 512 = Inr (0, sa)" by (intro sa_Allocate_large) simp
  then have ac: "alloc_chunk 512 1 False demo_pool = Inr (p, t)"
    using alloc_chunk_unfold [OF f(2) demo_request] sa t(1) by simp
  have dt: "demo_alloc = t" using ac by (simp add: demo_alloc_def)
  show "alloc_large 512 1 False demo_pool = Inr (790656, demo_alloc)"
    "alloc_chunk 512 1 False demo_pool = Inr (790656, demo_alloc)"
    using t(1,2) ac dt bd by simp_all
  from alloc_chunk_inv [OF f(2) demo_request] ac t(2) bd(3) obtain a where
    a: "pool_inv t" "same_config demo_pool t" "pool_live t = insert (790656, a) {}" "pool_idle 790656 t"
    using f(3) by auto
  show "pool_inv demo_alloc" "pool_idle 790656 demo_alloc" using a dt by simp_all
  show "\<not> high_memory_allocated demo_alloc" using t(4) f(6) dt by simp
  show "alignment demo_alloc = 128" using a(2) f(4) dt by (simp add: same_config_def)
  let ?c = "allocated 512 1 512 d" and ?d = "tail_block (next_host demo_pool) 512 d"
  have bl2: "b_used b \<and> b_used ?c \<and> \<not> b_used ?d \<and>
       extent b = (4224, 786432) \<and> extent ?c = (790656, 512) \<and> extent ?d = (791168, 3407232)"
    using bl bd by (simp add: allocated_def place_def tail_block_def extent_def)
  then show "\<exists>b c d. pool_blocks demo_alloc = [b, c, d] \<and> b_used b \<and> b_used c \<and> \<not> b_used d \<and>
       extent b = (4224, 786432) \<and> extent c = (790656, 512) \<and> extent d = (791168, 3407232)"
    using t(3) dt by auto
  have smt: "small_allocs t = small_allocs demo_pool" using frame_of_sel(1) [OF t(5)] .
  have "small_live t = {}" using f(3) smt by (simp add: pool_live_def small_live_def)
  have "is_small_block t e \<longleftrightarrow> b_addr e = 4224" for e
    using smt sa by (simp add: is_small_block_def)
  then have cl: "client_blocks t = {?c}"
    using t(3) bl2 by (auto simp: client_blocks_def extent_def)
  then show "\<exists>c. client_blocks demo_alloc = {c} \<and> extent c = (790656, 512) \<and> b_stream c = 1"
    using bl2 dt by (simp add: allocated_def place_def)
  show "dev_events demo_alloc = event_handle_cache_new 0" using frame_of_sel(5) [OF t(5)] f(7) dt by simp
  from \<open>small_live t = {}\<close> show "pool_live demo_alloc = {(790656, 512)}" using bl2 dt cl by (simp add: pool_live_def)
qed

lemma demo_reach:
  "pool_reach demo_env 128 4194304 4096 4194304 demo_pool"
  "pool_reach demo_env 128 4194304 4096 4194304 demo_alloc"
proof -
  show r: "pool_reach demo_env 128 4194304 4096 4194304 demo_pool"
    using demo_create demo_pool_facts(1) unfolding demo_new_def by (rule Created)
  show "pool_reach demo_env 128 4194304 4096 4194304 demo_alloc"
    by (rule Step [OF r Alloc [OF demo_request demo_alloc_facts(2)]])
qed

text \<open>The chunk of the allocation, as a block.\<close>

lemma demo_client:
  "\<exists>b. b \<in> client_blocks demo_alloc \<and> b_addr b = 790656 \<and> b_size b = 512 \<and> b_uses b = [] \<and>
     b_events b = 0"
proof -
  note f = demo_alloc_facts
  from f(9) obtain c where "client_blocks demo_alloc = {c}" "extent c = (790656, 512)" by blast
  then show ?thesis using f(5) by (auto simp: pool_idle_def extent_def)
qed

end
