(* ===== verification/Pool_Events.thy ===== *)
theory Pool_Events
  imports Pool_Example
begin

text \<open>
  Freeing while other streams still use the memory: \<open>pool_free_chunk\<close> records one event per
  stream and leaves the allocation live, and what the event loops then do to it.
\<close>

lemma insert_events_loop_chunk:
  assumes "insert_events_loop env c sts s = Inr t" "chunk_heap s c = Some k"
  shows "chunk_heap t = (chunk_heap s)(c \<mapsto> k\<lparr> c_event_count := c_event_count k + int (length sts) \<rparr>)"
  using assms
proof (induction sts arbitrary: s k)
  case (Cons st sts)
  from Cons.prems obtain ev ec where
    run: "insert_events_loop env c sts (push_event st ev c
        (s\<lparr> dev_events := ec, chunk_heap := (chunk_heap s)(c \<mapsto> k\<lparr> c_event_count := c_event_count k + 1 \<rparr>) \<rparr>)) = Inr t"
    by (auto simp: bindR_eq_Inr upd_chunk_def deref_def push_event_def split: if_splits option.splits)
  from Cons.IH [OF this, of "k\<lparr> c_event_count := c_event_count k + 1 \<rparr>"]
  show ?case by (auto simp: push_event_def add.assoc fun_eq_iff)
qed (simp add: fun_upd_idem)

lemma free_deferred_step:
  assumes inv: "pool_inv s" and b: "b \<in> client_blocks s" "b_uses b \<noteq> []"
    and run: "pool_free_chunk env (b_addr b) s = Inr t"
  shows "same_view s t \<and> block_of t (b_id b) = b\<lparr> b_uses := [], b_events := b_events b + int (length (b_uses b)) \<rparr>"
proof -
  have live: "(b_addr b, b_size b) \<in> pool_live s" using b(1) by (auto simp: pool_live_def extent_def)
  have bs: "b \<in> set (pool_blocks s)" "\<not> is_small_block s b" using b(1) by (auto simp: client_blocks_def)
  note sm = is_small_alloc_block [OF inv bs]
  have ok: "pool_ok s" using inv by (simp add: pool_inv_def)
  from ok obtain ids where ids: "pinv {} ids s" "pool_blocks s = blocks_of s ids" by (rule pool_okE)
  note lk = lookup_chunk_block [OF ids(1), of b]
  have l: "lookup_chunk s (b_addr b) = Inr (b_id b)" "b = block_of s (b_id b)" "b_id b \<in> set ids"
    using lk bs(1) ids(2) by auto
  from upd_used_inv [OF inv b(1), of "\<lambda>k. k"] obtain k where k: "chunk_heap s (b_id b) = Some k"
    by (auto simp: same_geom_def)
  have bk: "b = block_of s (b_id b)" by (rule l(2))
  then have uses: "c_stream_uses k = b_uses b" "c_event_count k = b_events b" using k
    by (metis (no_types, lifting) block.select_convs block_of_def option.sel)+
  have p0: "b_addr b \<noteq> 0" using pool_block_facts(1) [OF ok bs(1)] by simp
  have e: "insert_events env (b_id b) s = Inr t"
    using run sm l(1) k uses b(2) p0 by (simp add: pool_free_chunk_def deref_def)
  have sv: "same_view s t" by (rule insert_events_inv [OF e inv b(1) refl])
  let ?u = "s\<lparr> chunk_heap := (chunk_heap s)(b_id b \<mapsto> k\<lparr> c_stream_uses := [] \<rparr>) \<rparr>"
  from e k have "insert_events_loop env (b_id b) (b_uses b) ?u = Inr t"
    using uses by (simp add: insert_events_def deref_def upd_chunk_def)
  from insert_events_loop_chunk [OF this, of "k\<lparr> c_stream_uses := [] \<rparr>"]
  have "chunk_heap t (b_id b) = Some (k\<lparr> c_stream_uses := [], c_event_count := c_event_count k + int (length (b_uses b)) \<rparr>)"
    by simp
  then have "block_of t (b_id b) = (block_of s (b_id b))\<lparr> b_uses := [], b_events := b_events b + int (length (b_uses b)) \<rparr>"
    using k uses by (simp add: block_of_def)
  then show ?thesis using sv bk by simp
qed

text \<open>The event loops hand the host address of the chunk to \<open>delete_chunk\<close>.\<close>

lemma decrement_event_last:
  assumes "chunk_heap s c = Some k" "c_event_count k = 1" "c \<noteq> 0"
    and "\<And>sa. small_allocs s = Some sa \<Longrightarrow> c < sa_chunk_ptr sa \<or> sa_chunk_ptr sa + kSize sa \<le> c"
    and "map_of (chunks s) c = None"
  shows "decrement_event c s = Inl Assert_failed"
  using assms
  by (auto simp: decrement_event_def upd_chunk_def deref_def delete_chunk_def is_small_alloc_def
      sa_IsAllocated_def lookup_chunk_def split: option.splits)

section \<open>The flag of the workspace\<close>

lemma free_workspace_merged:
  assumes inv: "pool_inv s" and hi: "high_memory_allocated s"
    and bl: "pool_blocks s = xs @ [f, b]" "\<not> b_used f" "b \<in> client_blocks s" "b_uses b = []" "b_events b = 0"
  shows "\<exists>t. delete_chunk (b_addr b) s = Inr t \<and> high_memory_allocated t \<and> pool_inv t \<and>
    extent (last (pool_blocks t)) = (b_addr f, b_size f + b_size b) \<and> \<not> b_used (last (pool_blocks t))"
proof -
  have ok: "pool_ok s" using inv by (simp add: pool_inv_def)
  have d: "distinct (pool_blocks s)" by (rule pool_blocks_distinct [OF ok])
  have ad: "b_addr e \<noteq> b_addr b" if "e \<in> set (xs @ [f])" for e
    using pool_block_addr_inj [OF ok, of e b] that d bl(1) by auto
  have fb: "free_block (b_addr b) (pool_blocks s) = Some (xs @ [f\<lparr> b_size := b_size f + b_size b \<rparr>])"
    using free_block_split [of b "b_addr b" "xs @ [f]" "[]"] ad bl(1,2)
    by (simp add: coalesce_def freed_def butlast_append)
  from delete_client_inv [OF inv bl(3-5)] obtain t where
    t: "delete_chunk (b_addr b) s = Inr t" "pool_inv t"
      "free_block (b_addr b) (pool_blocks s) = Some (pool_blocks t)"
      "high_memory_allocated t = (high_memory_allocated s \<and> b_id (last (pool_blocks t)) \<noteq> b_id b)" by blast
  then have pt: "pool_blocks t = xs @ [f\<lparr> b_size := b_size f + b_size b \<rparr>]" using fb by simp
  from ok obtain ids where ids: "pinv {} ids s" "pool_blocks s = blocks_of s ids" by (rule pool_okE)
  have "b_id f \<noteq> b_id b"
  proof
    assume e: "b_id f = b_id b"
    have "f \<in> set (pool_blocks s)" "b \<in> set (pool_blocks s)" using bl(1) by auto
    then have "f = block_of s (b_id f)" "b = block_of s (b_id b)"
      using lookup_chunk_block [OF ids(1)] ids(2) by auto
    then show False using e d bl(1) by auto
  qed
  then show ?thesis using t pt hi bl(2) by (simp add: extent_def)
qed

text \<open>A request for the workspace when the tail is not the workspace but in use.\<close>

lemma extend_on_live_tail:
  assumes inv: "pool_inv s" and hi: "high_memory_allocated s" and u: "b_used (last (pool_blocks s))"
    and idle: "ws_idle (pool_blocks s)" and sz: "0 < sz" "sz \<le> b_size (last (pool_blocks s))" "sz \<le> max_pool_size s"
  shows "extend_high_memory_allocation sz cur s = Inr (b_addr (last (pool_blocks s)), s)"
  using extend_inv [OF inv sz(1), of cur] idle hi u sz(2,3) by (auto simp: extend_result_def Let_def)

text \<open>A request that the free tail cannot hold.\<close>

lemma extend_too_large:
  assumes inv: "pool_inv s" and hi: "\<not> high_memory_allocated s" and u: "\<not> b_used (last (pool_blocks s))"
    and sz: "b_size (last (pool_blocks s)) < sz" "sz \<le> max_pool_size s"
  shows "\<exists>t. extend_high_memory_allocation sz cur s = Inr (0, t) \<and> pool_inv t \<and>
    bytes_in_use t = bytes_in_use s \<and> used_size t = used_size s + b_size (last (pool_blocks s)) \<and>
    \<not> high_memory_allocated t \<and>
    (\<forall>n c. 0 < n \<longrightarrow> n \<le> max_pool_size t \<longrightarrow> extend_high_memory_allocation n c t = Inr (0, t))"
proof -
  have ok: "pool_ok s" using inv by (simp add: pool_inv_def)
  have s0: "0 < sz" using sz(1) by simp
  let ?bs = "pool_blocks s"
  have ne: "?bs \<noteq> []" by (rule pool_blocks_ne [OF ok])
  from extend_inv [OF inv s0, of cur] hi obtain p t where
    t: "extend_high_memory_allocation sz cur s = Inr (p, t)" "pool_inv t" "extend_result sz cur s p t" by blast
  have r: "p = 0" "pool_blocks t = butlast ?bs @ [(last ?bs)\<lparr> b_used := True \<rparr>]"
    "\<not> high_memory_allocated t" "bytes_in_use t = bytes_in_use s"
    using t(3) hi u sz by (auto simp: extend_result_def ws_start_def Let_def)
  have us: "used_size t = used_size s + b_size (last ?bs)"
  proof -
    have "used_blocks ?bs = used_blocks (butlast ?bs)"
      using ne u by (metis append_butlast_last_id append_Nil2 used_blocks_simps)
    then show ?thesis by (simp add: used_size_def r(2))
  qed
  have "extend_high_memory_allocation n c t = Inr (0, t)" if "0 < n" for n c
    using extend_inv [OF t(2) that, of c] r by (auto simp: extend_result_def Let_def)
  then show ?thesis using t r us by blast
qed

section \<open>Two more states of the example\<close>

lemma demo_workspace:
  obtains s b f e where "extend_high_memory_allocation 1024 0 demo_pool = Inr (4197376, s)" "pool_inv s"
    "high_memory_allocated s" "pool_blocks s = [b, f, e]" "\<not> b_used f" "e \<in> client_blocks s"
    "b_uses e = []" "b_events e = 0" "b_addr e = 4197376" "b_size e = 1024" "max_pool_size s = 4194304"
proof -
  note f = demo_pool_facts
  from f(9) obtain b d where bl: "pool_blocks demo_pool = [b, d]" "\<not> b_used d" "b_addr d = 790656"
    "b_size d = 3407744" by (auto simp: extent_def)
  have "d \<in> set (pool_blocks demo_pool)" using bl by simp
  then have du: "b_uses d = []" "b_events d = 0"
    using pool_block_facts(4) [of demo_pool d] f(2) bl(2) by (auto simp: pool_inv_def)
  have st: "ws_start False [b, d] = [b, d]" by (simp add: ws_start_def)
  have cut: "ws_cut m 1024 [b, d] = [b, d\<lparr> b_size := 3406720 \<rparr>, (tail_block m 3406720 d)\<lparr> b_used := True \<rparr>]" for m
    using bl by (simp add: ws_cut_def Let_def)
  from extend_inv [OF f(2), of 1024 0] f(6) obtain p t where
    t: "extend_high_memory_allocation 1024 0 demo_pool = Inr (p, t)" "pool_inv t"
      "extend_result 1024 0 demo_pool p t" "frame_of t = frame_of demo_pool"
      "t = demo_pool \<or> (\<exists>w. last (pool_blocks t) = w \<and>
         client_blocks t = insert w (client_blocks demo_pool - old_workspace demo_pool))" by auto
  let ?w = "ws_block (next_host demo_pool) 1024 [b, d]"
  have r: "p = b_addr ?w" "pool_blocks t = ws_cut (next_host demo_pool) 1024 [b, d]" "high_memory_allocated t"
    using t(3) f(5,6) bl st by (auto simp: extend_result_def Let_def)
  have w: "?w = last (pool_blocks t)" using r(2) by (simp add: ws_block_def)
  have "t \<noteq> demo_pool" using r(3) f(6) by auto
  then have c: "last (pool_blocks t) \<in> client_blocks t" using t(5) by auto
  show ?thesis
    by (rule that [of t b "d\<lparr> b_size := 3406720 \<rparr>" "(tail_block (next_host demo_pool) 3406720 d)\<lparr> b_used := True \<rparr>"])
      (use t(1,2,4) r c bl du f(5) in \<open>auto simp: cut ws_block_def tail_block_def dest: frame_of_sel(3)\<close>)
qed

lemma demo_deferred:
  obtains t u b where "record_stream demo_env 790656 2 demo_alloc = Inr t" "pool_inv t"
    "pool_live t = {(790656, 512)}" "b \<in> client_blocks t" "b_addr b = 790656" "b_uses b \<noteq> []"
    "pool_free_chunk demo_env 790656 t = Inr u"
proof -
  note f = demo_alloc_facts
  from f(9) obtain c where c: "client_blocks demo_alloc = {c}" "extent c = (790656, 512)" "b_stream c = 1" by blast
  then have cin: "c \<in> client_blocks demo_alloc" by simp
  have ok: "pool_ok demo_alloc" using f(3) by (simp add: pool_inv_def)
  from ok obtain ids where ids: "pinv {} ids demo_alloc" "pool_blocks demo_alloc = blocks_of demo_alloc ids"
    by (rule pool_okE)
  have cb: "c \<in> set (pool_blocks demo_alloc)" "\<not> is_small_block demo_alloc c" "b_used c"
    using cin by (auto simp: client_blocks_def)
  have ad: "b_addr c = 790656" "b_size c = 512" using c(2) by (simp_all add: extent_def)
  have lk: "lookup_chunk demo_alloc 790656 = Inr (b_id c)" "c = block_of demo_alloc (b_id c)"
    using lookup_chunk_block [OF ids(1), of c] cb(1) ids(2) ad by auto
  have sm: "is_small_alloc demo_alloc 790656 = Inr False"
    using is_small_alloc_block [OF f(3) cb(1,2)] ad by simp
  let ?f = "\<lambda>k. k\<lparr> c_stream_uses := List.insert 2 (c_stream_uses k) \<rparr>"
  from upd_used_inv [OF f(3) cin, of ?f] obtain k t where
    t: "chunk_heap demo_alloc (b_id c) = Some k" "upd_chunk (b_id c) ?f demo_alloc = Inr t" "pool_inv t"
      "pool_live t = pool_live demo_alloc" "frame_of t = frame_of demo_alloc"
      "chunk_heap t (b_id c) = Some (?f k)" "block_of t (b_id c) \<in> client_blocks t"
    by (auto simp: same_geom_def)
  let ?b = "block_of t (b_id c)"
  have k: "c_stream k = 1" "c_used k" "c_memptr k = 790656" "c_size k = 512"
    using lk(2) t(1) c(3) cb(3) ad by (metis (no_types, lifting) block.select_convs block_of_def option.sel)+
  have rec: "record_stream demo_env 790656 2 demo_alloc = Inr t"
    using sm lk(1) t(1,2) k by (simp add: record_stream_def deref_def demo_env_def)
  have b: "b_addr ?b = 790656" "b_uses ?b \<noteq> []" "b_id ?b = b_id c"
    using t(6) k by (simp_all add: block_of_def) (metis empty_iff insertI1 list.set(1) set_insert List.set_insert)
  have tb: "?b \<in> set (pool_blocks t)" "\<not> is_small_block t ?b" using t(7) by (auto simp: client_blocks_def)
  have okt: "pool_ok t" using t(3) by (simp add: pool_inv_def)
  from okt obtain idt where idt: "pinv {} idt t" "pool_blocks t = blocks_of t idt" by (rule pool_okE)
  have lt: "lookup_chunk t 790656 = Inr (b_id c)"
    using lookup_chunk_block [OF idt(1), of ?b] tb(1) idt(2) b by auto
  have smt: "is_small_alloc t 790656 = Inr False" using is_small_alloc_block [OF t(3) tb] b(1) by simp
  have de: "dev_events t = event_handle_cache_new 0" using frame_of_sel(5) [OF t(5)] f(10) by simp
  have gen: "\<exists>u. insert_events_loop demo_env (b_id c) sts v = Inr u"
    if "chunk_heap v (b_id c) \<noteq> None" "ec_free_handles (dev_events v) = []"
      "ec_events_count (dev_events v) + length sts \<le> NUM_EVENTS_MAX" for sts v
    using that
  proof (induction sts arbitrary: v)
    case (Cons st sts)
    then obtain kv where kv: "chunk_heap v (b_id c) = Some kv" by auto
    let ?w = "push_event st (ec_events_count (dev_events v) + 1) (b_id c) (v\<lparr> dev_events := (dev_events v)\<lparr>
        ec_events_count := ec_events_count (dev_events v) + 1 \<rparr>,
        chunk_heap := (chunk_heap v)(b_id c \<mapsto> kv\<lparr> c_event_count := c_event_count kv + 1 \<rparr>) \<rparr>)"
    have "insert_events_loop demo_env (b_id c) (st # sts) v = insert_events_loop demo_env (b_id c) sts ?w"
      using Cons.prems kv by (simp add: get_free_handle_def demo_env_def upd_chunk_def deref_def)
    moreover have "\<exists>u. insert_events_loop demo_env (b_id c) sts ?w = Inr u"
      using Cons.prems by (intro Cons.IH) (simp_all add: push_event_def)
    ultimately show ?case by simp
  qed simp
  have loop: "\<exists>u. insert_events_loop demo_env (b_id c) [2] v = Inr u"
    if "chunk_heap v (b_id c) \<noteq> None" "dev_events v = event_handle_cache_new 0" for v
    by (rule gen) (use that in \<open>simp_all add: event_handle_cache_new_def NUM_EVENTS_MAX_def\<close>)
  have "b_uses c = []" using f(5) cin ad by (simp add: pool_idle_def)
  then have "c_stream_uses k = []"
    using lk(2) t(1) by (metis (no_types, lifting) block.select_convs(8) block_of_def option.sel)
  then have fk: "c_stream_uses (?f k) = [2]" by simp
  let ?v = "t\<lparr> chunk_heap := (chunk_heap t)(b_id c \<mapsto> (?f k)\<lparr> c_stream_uses := [] \<rparr>) \<rparr>"
  have "insert_events demo_env (b_id c) t = insert_events_loop demo_env (b_id c) [2] ?v"
    using t(6) fk by (simp only: insert_events_def deref_def upd_chunk_def option.simps bindR_Inr)
  moreover have "\<exists>u. insert_events_loop demo_env (b_id c) [2] ?v = Inr u" by (rule loop) (use de in simp_all)
  ultimately obtain u where "insert_events demo_env (b_id c) t = Inr u" by metis
  then have "pool_free_chunk demo_env 790656 t = Inr u"
    using smt lt t(6) b(2) by (simp add: pool_free_chunk_def deref_def block_of_def)
  from that [OF rec t(3) _ t(7) b(1,2) this] show ?thesis using t(4) f(4) by simp
qed

definition demo_small :: small_allocs where
  "demo_small = \<lparr> sa_chunk_ptr = 5120, sa_map = [False, False, False, False], sa_size = [0, 0, 0, 0],
     kAlignment = 128, kSize = 512, kThreshold = 256, kUnits = 4 \<rparr>"

lemma demo_small_inv: "sa_inv demo_small"
  by (simp add: sa_inv_def demo_small_def u64_lim_def)

end
