(* ===== verification/Mem_Handle.thy ===== *)
theory Mem_Handle
  imports Mem_Prelude "HOL-Library.Word"
begin

unbundle bit_operations_syntax

text \<open>
  Memory handles (\<open>mem_handle.h\<close>, \<open>mem_handle.cpp\<close>). PyTorch is given a number it takes for a
  device address: two bits for the size class of the tensor, then the index of the handle in
  its class, then the offset into the tensor. Ids, offsets and the artificial pointers are
  \<open>uint64_t\<close>, here \<^typ>\<open>64 word\<close>; sizes of tensors too.
\<close>

section \<open>The layout of a handle\<close>

definition total_bits :: nat where
  "total_bits = 62"

record handle_bucket_info =
  offset_bits :: nat
  handle_bits :: nat
  max_offsets :: "64 word"
  max_handles :: "64 word"

definition bucket_info_for :: "nat \<Rightarrow> handle_bucket_info" where
  "bucket_info_for b = \<lparr> offset_bits = b, handle_bits = total_bits - b,
     max_offsets = push_bit b 1, max_handles = push_bit (total_bits - b) 1 \<rparr>"

definition bucketInfo :: "handle_bucket_info list" where
  "bucketInfo = map bucket_info_for [22, 32, 42]"

text \<open>\<open>bucketInfo[type]\<close>: the array is not checked, so an index of 3 is undefined behaviour.\<close>

definition bucket_at :: "64 word \<Rightarrow> handle_bucket_info res" where
  "bucket_at ty =
     (if unat ty < length bucketInfo then Inr (bucketInfo ! unat ty) else Inl Undefined)"

definition create_memhandle :: "64 word \<Rightarrow> 64 word \<Rightarrow> 64 word" where
  "create_memhandle a b = push_bit total_bits a OR b"

definition get_bucket_index :: "64 word \<Rightarrow> 64 word" where
  "get_bucket_index a = drop_bit total_bits a"

definition get_handle_index :: "64 word \<Rightarrow> 64 word" where
  "get_handle_index a = a AND (push_bit total_bits 1 - 1)"

record mem_handle =
  mh_id :: "64 word"
  mh_offset :: "64 word"

definition is_valid :: "64 word \<Rightarrow> bool" where
  "is_valid i \<longleftrightarrow> i \<noteq> 0"

definition unoffseted :: "mem_handle \<Rightarrow> mem_handle" where
  "unoffseted h = \<lparr> mh_id = mh_id h, mh_offset = 0 \<rparr>"

definition ensure_fits_ptr :: "64 word \<Rightarrow> 64 word \<Rightarrow> 64 word \<Rightarrow> unit res" where
  "ensure_fits_ptr ty i offset =
     bindR (bucket_at ty) (\<lambda>b.
       if i > max_handles b then Inl Fatal
       else if offset > max_offsets b then Inl Fatal else Inr ())"

text \<open>\<open>_END\<close> is 3.\<close>

definition reinterpret_to_pointer :: "mem_handle \<Rightarrow> 64 word res" where
  "reinterpret_to_pointer h =
     (let i = mh_id h; ty = drop_bit total_bits i in
      if ty \<ge> 3 then Inl Fatal
      else
        bindR (bucket_at ty) (\<lambda>b.
        let inside_bucket_id = i AND (push_bit total_bits 1 - 1) in
        bindR (ensure_fits_ptr ty inside_bucket_id (mh_offset h)) (\<lambda>_.
        let combined = push_bit (offset_bits b) i OR mh_offset h in
          Inr (create_memhandle ty combined))))"

definition reinterpret_from_pointer :: "64 word \<Rightarrow> mem_handle res" where
  "reinterpret_from_pointer ptr =
     (let ty = drop_bit total_bits ptr in
      if ty > 3 then Inl Fatal
      else
        bindR (bucket_at ty) (\<lambda>b.
        let inside_val = (push_bit total_bits 1 - 1) AND ptr;
            i = drop_bit (offset_bits b) (inside_val AND (push_bit total_bits 1 - 1));
            offset = inside_val AND (push_bit (offset_bits b) 1 - 1)
        in Inr \<lparr> mh_id = create_memhandle ty i, mh_offset = offset \<rparr>))"

section \<open>Bits\<close>

lemma mask_total: "push_bit total_bits 1 - 1 = (mask 62 :: 64 word)"
  by (simp add: total_bits_def mask_eq_exp_minus_1)

lemma mask_offset: "push_bit b 1 - 1 = (mask b :: 64 word)"
  by (simp add: mask_eq_exp_minus_1 push_bit_of_1)

lemma word_less_bits: "(w :: 64 word) < 2 ^ n \<Longrightarrow> bit w k \<Longrightarrow> k < n"
proof -
  assume a: "w < 2 ^ n" "bit w k"
  have "w AND mask n = w" by (rule less_mask_eq [OF a(1)])
  then have "bit (w AND mask n) k" using a(2) by simp
  then show "k < n" by (simp add: bit_simps)
qed

lemma less3_cases: "(ty :: 64 word) < 3 \<Longrightarrow> ty = 0 \<or> ty = 1 \<or> ty = 2"
proof -
  assume "ty < 3"
  then have "unat ty < 3" by (simp add: word_less_nat_alt)
  then consider "unat ty = unat (0 :: 64 word)" | "unat ty = unat (1 :: 64 word)"
    | "unat ty = unat (2 :: 64 word)" by simp linarith
  then show ?thesis by cases (simp_all only: word_unat_eq_iff [symmetric], simp_all)
qed

text \<open>A handle whose index and offset fit their class.\<close>

definition fits_class :: "nat \<Rightarrow> 64 word \<Rightarrow> 64 word \<Rightarrow> bool" where
  "fits_class b i off \<longleftrightarrow> i < 2 ^ (62 - b) \<and> off < 2 ^ b"

definition class_bits :: "64 word \<Rightarrow> nat" where
  "class_bits ty = (if ty = 0 then 22 else if ty = 1 then 32 else 42)"

definition handle_ok :: "mem_handle \<Rightarrow> bool" where
  "handle_ok h \<longleftrightarrow>
     (let ty = get_bucket_index (mh_id h)
      in ty < 3 \<and> fits_class (class_bits ty) (get_handle_index (mh_id h)) (mh_offset h))"

lemma class_bits_cases: "class_bits ty \<in> {22, 32, 42}"
  by (simp add: class_bits_def)

lemma bucket_at_class: "ty < 3 \<Longrightarrow> bucket_at ty = Inr (bucket_info_for (class_bits ty))"
  by (drule less3_cases) (auto simp: bucket_at_def bucketInfo_def class_bits_def)

lemma handle_split: "create_memhandle (get_bucket_index a) (get_handle_index a) = a"
  unfolding create_memhandle_def get_bucket_index_def get_handle_index_def mask_total
  by (rule bit_word_eqI) (auto simp: bit_simps total_bits_def)

lemma bucket_create:
  assumes "ty < 3" "i < 2 ^ 62"
  shows "get_bucket_index (create_memhandle ty i) = ty" "get_handle_index (create_memhandle ty i) = i"
proof -
  have ty: "n < 2" if "bit ty n" for n
    using word_less_bits [of ty 2 n] that assms(1) by (simp add: order_less_trans)
  have i: "n < 62" if "bit i n" for n using word_less_bits [of i 62 n] that assms(2) by simp
  show "get_bucket_index (create_memhandle ty i) = ty"
    unfolding get_bucket_index_def create_memhandle_def
    by (rule bit_word_eqI) (use ty i in \<open>fastforce simp: bit_simps total_bits_def\<close>)
  show "get_handle_index (create_memhandle ty i) = i"
    unfolding get_handle_index_def create_memhandle_def mask_total
    by (rule bit_word_eqI) (use ty i in \<open>fastforce simp: bit_simps total_bits_def\<close>)
qed

section \<open>Round trip and pointer arithmetic\<close>

definition pointer_of :: "nat \<Rightarrow> 64 word \<Rightarrow> 64 word \<Rightarrow> 64 word \<Rightarrow> 64 word" where
  "pointer_of b ty i off = push_bit 62 ty OR (push_bit b i OR off)"

lemma pointer_of_bits:
  assumes b: "b \<in> {22, 32, 42}" and f: "fits_class b i off"
  shows "create_memhandle ty (push_bit b (create_memhandle ty i) OR off) = pointer_of b ty i off"
    "ty < 3 \<Longrightarrow> drop_bit 62 (pointer_of b ty i off) = ty"
    "drop_bit b (mask 62 AND pointer_of b ty i off) = i"
    "pointer_of b ty i off AND mask b = off"
proof -
  have i: "n < 62 - b" if "bit i n" for n
    using word_less_bits [of i "62 - b" n] that f by (auto simp: fits_class_def)
  have o: "n < b" if "bit off n" for n
    using word_less_bits [of off b n] that f by (auto simp: fits_class_def)
  have b': "22 \<le> b" "b \<le> 42" using b by auto
  show "create_memhandle ty (push_bit b (create_memhandle ty i) OR off) = pointer_of b ty i off"
    unfolding create_memhandle_def pointer_of_def
    by (rule bit_word_eqI) (use b' in \<open>auto simp: bit_simps total_bits_def\<close>)
  show "drop_bit b (mask 62 AND pointer_of b ty i off) = i"
    unfolding pointer_of_def
    by (rule bit_word_eqI) (use i o b' in \<open>fastforce simp: bit_simps\<close>)
  show "pointer_of b ty i off AND mask b = off"
    unfolding pointer_of_def
    by (rule bit_word_eqI) (use i o b' in \<open>fastforce simp: bit_simps\<close>)
  assume "ty < 3"
  then have ty: "n < 2" if "bit ty n" for n
    using word_less_bits [of ty 2 n] that by (simp add: order_less_trans)
  show "drop_bit 62 (pointer_of b ty i off) = ty"
    unfolding pointer_of_def
    by (rule bit_word_eqI) (use i o ty b' in \<open>fastforce simp: bit_simps\<close>)
qed

text \<open>Both directions of the conversion, on the class, the index and the offset.\<close>

lemma to_pointer_class:
  assumes ty: "ty < 3" and f: "fits_class (class_bits ty) i off"
  shows "reinterpret_to_pointer \<lparr> mh_id = create_memhandle ty i, mh_offset = off \<rparr> =
    Inr (pointer_of (class_bits ty) ty i off)"
proof -
  let ?b = "class_bits ty"
  have b: "?b \<in> {22, 32, 42}" by (rule class_bits_cases)
  have pow: "(2 :: 64 word) ^ (62 - ?b) < 2 ^ 62" using b by auto
  have i: "i < 2 ^ 62" using f order_less_trans [OF _ pow] by (auto simp: fits_class_def)
  have m: "max_handles (bucket_info_for ?b) = 2 ^ (62 - ?b)" "max_offsets (bucket_info_for ?b) = 2 ^ ?b"
    "offset_bits (bucket_info_for ?b) = ?b"
    by (simp_all add: bucket_info_for_def push_bit_of_1 total_bits_def)
  note bi = bucket_create [OF ty i, unfolded get_bucket_index_def get_handle_index_def]
  have "\<not> ty \<ge> 3" using ty by (simp add: not_le)
  moreover have "\<not> i > 2 ^ (62 - ?b)" "\<not> off > 2 ^ ?b" using f by (auto simp: fits_class_def)
  ultimately show ?thesis
    using pointer_of_bits(1) [OF b f] bucket_at_class [OF ty] bi
    by (simp add: reinterpret_to_pointer_def ensure_fits_ptr_def m Let_def)
qed

lemma from_pointer_class:
  assumes ty: "ty < 3" and f: "fits_class (class_bits ty) i off"
  shows "reinterpret_from_pointer (pointer_of (class_bits ty) ty i off) =
    Inr \<lparr> mh_id = create_memhandle ty i, mh_offset = off \<rparr>"
proof -
  let ?b = "class_bits ty"
  have b: "?b \<in> {22, 32, 42}" by (rule class_bits_cases)
  have m: "offset_bits (bucket_info_for ?b) = ?b" by (simp add: bucket_info_for_def)
  note p = pointer_of_bits(2) [OF b f ty] pointer_of_bits(3,4) [OF b f]
  have off: "(mask 62 AND pointer_of ?b ty i off) AND mask ?b = off"
  proof -
    have "(mask 62 AND x) AND mask ?b = x AND mask ?b" for x :: "64 word"
      by (rule bit_word_eqI) (use b in \<open>auto simp: bit_simps\<close>)
    then show ?thesis using p(3) [of ty] by simp
  qed
  have mm: "(mask 62 AND x) AND mask 62 = mask 62 AND x" for x :: "64 word"
    by (rule bit_word_eqI) (auto simp: bit_simps)
  have t: "total_bits = 62" by (simp add: total_bits_def)
  have "\<not> ty > 3" using ty by auto
  then show ?thesis
    unfolding reinterpret_from_pointer_def Let_def mask_total mask_offset t p(1) bucket_at_class [OF ty]
    by (simp only: if_False bindR_Inr m mm p(2) off)
qed

lemma handle_ok_class:
  assumes "handle_ok h"
  obtains ty i off where "h = \<lparr> mh_id = create_memhandle ty i, mh_offset = off \<rparr>" "ty < 3"
    "fits_class (class_bits ty) i off" "ty = get_bucket_index (mh_id h)"
  using assms that [of "get_bucket_index (mh_id h)" "get_handle_index (mh_id h)" "mh_offset h"]
    handle_split [of "mh_id h"] by (simp add: handle_ok_def Let_def)

text \<open>Every artificial pointer of a class comes from exactly one handle.\<close>

lemma pointer_class:
  assumes "drop_bit 62 p < (3 :: 64 word)"
  shows "\<exists>i off. fits_class (class_bits (drop_bit 62 p)) i off \<and>
    p = pointer_of (class_bits (drop_bit 62 p)) (drop_bit 62 p) i off"
proof -
  let ?ty = "drop_bit 62 p"
  let ?b = "class_bits ?ty"
  let ?i = "drop_bit ?b (mask 62 AND p)" and ?off = "p AND mask ?b"
  have b: "?b \<in> {22, 32, 42}" by (rule class_bits_cases)
  have "p = pointer_of ?b ?ty ?i ?off"
    unfolding pointer_of_def
  proof (rule bit_word_eqI)
    fix n assume n: "n < LENGTH(64)"
    consider m where "n = 62 + m" | "n < 62" by (metis le_Suc_ex not_le)
    then show "bit p n = bit (push_bit 62 ?ty OR (push_bit ?b ?i OR ?off)) n"
      using n b by cases (auto simp: bit_simps)
  qed
  moreover have "?i AND mask (62 - ?b) = ?i"
    by (rule bit_word_eqI) (use b in \<open>auto simp: bit_simps\<close>)
  then have "?i < 2 ^ (62 - ?b)" using and_mask_less' [of "62 - ?b" ?i] b by auto
  moreover have "?off < 2 ^ ?b" by (rule and_mask_less') (use b in auto)
  ultimately show ?thesis by (auto simp: fits_class_def)
qed

lemma pointer_of_offset:
  assumes b: "b \<in> {22, 32, 42}" and f: "fits_class b i off"
  shows "pointer_of b ty i off = pointer_of b ty i 0 + off"
proof -
  have off: "n < b" if "bit off n" for n using word_less_bits [of off b n] that f by (auto simp: fits_class_def)
  have "pointer_of b ty i 0 AND off = 0"
    unfolding pointer_of_def by (rule bit_word_eqI) (use off b in \<open>auto simp: bit_simps dest: off\<close>)
  then have "pointer_of b ty i 0 + off = pointer_of b ty i 0 OR off" by (rule disjunctive_add_eq_or)
  also have "\<dots> = pointer_of b ty i off" unfolding pointer_of_def by (simp add: or.assoc)
  finally show ?thesis by simp
qed

text \<open>The offset one past the class, which \<open>ensure_fits_ptr\<close> lets through.\<close>

lemma offset_at_bound:
  assumes ty: "ty < 3" and i: "i < 2 ^ (62 - class_bits ty)" and odd: "bit i 0"
  shows "reinterpret_to_pointer \<lparr> mh_id = create_memhandle ty i, mh_offset = 2 ^ class_bits ty \<rparr> =
    reinterpret_to_pointer \<lparr> mh_id = create_memhandle ty i, mh_offset = 0 \<rparr>"
proof -
  let ?b = "class_bits ty" and ?id = "create_memhandle ty i"
  have cb: "?b \<in> {22, 32, 42}" by (rule class_bits_cases)
  have "(2 :: 64 word) ^ (62 - ?b) < 2 ^ 62" using cb by auto
  then have i62: "i < 2 ^ 62" using i by (meson order_less_trans)
  note bc = bucket_create [OF ty i62]
  have o: "bit ?id 0" using odd by (simp add: create_memhandle_def bit_simps)
  have "push_bit ?b ?id OR 2 ^ ?b = push_bit ?b ?id"
    by (rule bit_word_eqI) (use cb o in \<open>auto simp: bit_simps\<close>)
  moreover have "ensure_fits_ptr ty i (2 ^ ?b) = ensure_fits_ptr ty i 0"
    by (simp add: ensure_fits_ptr_def bucket_at_class [OF ty] bucket_info_for_def push_bit_eq_mult)
  ultimately show ?thesis
    using ty bc by (simp add: reinterpret_to_pointer_def Let_def bucket_at_class get_bucket_index_def
        get_handle_index_def bucket_info_for_def)
qed

end
