(* ===== verification/Handles_Map.thy ===== *)
theory Handles_Map
  imports Mem_Handle
begin

text \<open>
  \<open>HandlesMap\<close> (\<open>mem_handle.h\<close>, \<open>mem_handle.cpp\<close>): for each size class a deque of records and a
  queue of the indices that were erased. The map from ids to device memory of \<open>device_memory\<close>
  is one, and the defragmenter walks it with its iterator.
\<close>

section \<open>State\<close>

record ptr_size =
  ps_ptr :: nat
  ps_size :: "64 word"
  ps_stream :: nat

record handle_record =
  hr_ptr_size :: ptr_size
  hr_fixed :: bool
  hr_active :: bool
  hr_reset :: bool

record handles_map =
  handles :: "handle_record list list"
  free_handles :: "64 word list list"

definition Record_default :: handle_record where
  "Record_default = \<lparr> hr_ptr_size = \<lparr> ps_ptr = 0, ps_size = 0, ps_stream = 0 \<rparr>,
     hr_fixed = False, hr_active = False, hr_reset = False \<rparr>"

definition Record_new :: "64 word \<Rightarrow> nat \<Rightarrow> handle_record" where
  "Record_new sz stream = \<lparr> hr_ptr_size = \<lparr> ps_ptr = 0, ps_size = sz, ps_stream = stream \<rparr>,
     hr_fixed = False, hr_active = True, hr_reset = False \<rparr>"

definition HandlesMap_new :: handles_map where
  "HandlesMap_new = \<lparr> handles = replicate 3 [Record_default], free_handles = replicate 3 [] \<rparr>"

section \<open>Operations\<close>

text \<open>The first class whose largest offset exceeds the size.\<close>

definition getBucketIndexForGivenTensorSize :: "64 word \<Rightarrow> nat res" where
  "getBucketIndexForGivenTensorSize sz =
     (case find (\<lambda>b. max_offsets (bucketInfo ! b) > sz) [0..<length bucketInfo] of
        None \<Rightarrow> Inl Fatal | Some b \<Rightarrow> Inr b)"

definition check_id_overflow :: "64 word \<Rightarrow> 64 word \<Rightarrow> nat \<Rightarrow> unit res" where
  "check_id_overflow i sz offb =
     (let limit = push_bit offb i + sz
      in if drop_bit offb limit \<noteq> i then Inl Fatal else Inr ())"

definition hm_Insert :: "64 word \<Rightarrow> nat \<Rightarrow> handles_map \<Rightarrow> (64 word \<times> handles_map) res" where
  "hm_Insert sz stream m =
     bindR (getBucketIndexForGivenTensorSize sz) (\<lambda>b.
     let offb = offset_bits (bucketInfo ! b); recs = handles m ! b in
     case free_handles m ! b of
       i # q \<Rightarrow>
         bindR (check_id_overflow i sz offb) (\<lambda>_.
           if unat i < length recs then
             Inr (create_memhandle (of_nat b) i,
                  m\<lparr> free_handles := (free_handles m)[b := q],
                      handles := (handles m)[b := recs[unat i := Record_new sz stream]] \<rparr>)
           else Inl Undefined)
     | [] \<Rightarrow>
         if length recs > unat (max_handles (bucketInfo ! b)) then Inl Fatal
         else
           (let i = of_nat (length recs) in
            bindR (check_id_overflow i sz offb) (\<lambda>_.
              Inr (create_memhandle (of_nat b) i,
                   m\<lparr> handles := (handles m)[b := recs @ [Record_new sz stream]] \<rparr>))))"

text \<open>\<open>handles_[index]\<close> is not checked: a class of 3 reads past the array.\<close>

definition CheckId :: "64 word \<Rightarrow> 64 word \<Rightarrow> handles_map \<Rightarrow> unit res" where
  "CheckId handle_index bucket m =
     (if \<not> is_valid handle_index then Inl Fatal
      else if unat bucket \<ge> length (handles m) then Inl Undefined
      else if unat handle_index \<ge> length (handles m ! unat bucket) then Inl Fatal
      else if \<not> hr_active (handles m ! unat bucket ! unat handle_index) then Inl Fatal
      else Inr ())"

definition hm_record :: "64 word \<Rightarrow> handles_map \<Rightarrow> handle_record" where
  "hm_record i m = handles m ! unat (get_bucket_index i) ! unat (get_handle_index i)"

definition hm_update :: "64 word \<Rightarrow> (handle_record \<Rightarrow> handle_record) \<Rightarrow> handles_map \<Rightarrow> handles_map" where
  "hm_update i f m =
     (let b = unat (get_bucket_index i); j = unat (get_handle_index i) in
      m\<lparr> handles := (handles m)[b := (handles m ! b)[j := f (handles m ! b ! j)]] \<rparr>)"

definition hm_check :: "64 word \<Rightarrow> handles_map \<Rightarrow> unit res" where
  "hm_check i m = CheckId (get_handle_index i) (get_bucket_index i) m"

definition hm_GetPtrSize :: "64 word \<Rightarrow> handles_map \<Rightarrow> ptr_size res" where
  "hm_GetPtrSize i m = bindR (hm_check i m) (\<lambda>_. Inr (hr_ptr_size (hm_record i m)))"

definition hm_SetPtrSize :: "64 word \<Rightarrow> ptr_size \<Rightarrow> handles_map \<Rightarrow> handles_map res" where
  "hm_SetPtrSize i ps m =
     bindR (hm_check i m) (\<lambda>_. Inr (hm_update i (\<lambda>r. r\<lparr> hr_ptr_size := ps \<rparr>) m))"

definition hm_Erase :: "64 word \<Rightarrow> handles_map \<Rightarrow> handles_map res" where
  "hm_Erase i m =
     bindR (hm_check i m) (\<lambda>_.
       let b = unat (get_bucket_index i);
           m = hm_update i (\<lambda>r. r\<lparr> hr_active := False,
                 hr_ptr_size := (hr_ptr_size r)\<lparr> ps_size := 0, ps_ptr := 0 \<rparr> \<rparr>) m
       in Inr (m\<lparr> free_handles :=
                 (free_handles m)[b := free_handles m ! b @ [get_handle_index i]] \<rparr>))"

definition hm_MarkMemoryFixed :: "64 word \<Rightarrow> handles_map \<Rightarrow> handles_map res" where
  "hm_MarkMemoryFixed i m =
     bindR (hm_check i m) (\<lambda>_. Inr (hm_update i (\<lambda>r. r\<lparr> hr_fixed := True \<rparr>) m))"

definition hm_checkIdIsReset :: "64 word \<Rightarrow> handles_map \<Rightarrow> (bool \<times> handles_map) res" where
  "hm_checkIdIsReset i m =
     bindR (hm_check i m) (\<lambda>_.
       let r = hm_record i m in
       Inr (hr_reset r,
            if hr_active r \<and> hr_reset r then hm_update i (\<lambda>r. r\<lparr> hr_reset := False \<rparr>) m else m))"

definition hm_ResetHandlesMap :: "64 word \<Rightarrow> handles_map \<Rightarrow> handles_map res" where
  "hm_ResetHandlesMap i m =
     bindR (hm_check i m) (\<lambda>_.
       Inr (if hr_active (hm_record i m) then
              hm_update i (\<lambda>r. r\<lparr> hr_reset := True,
                hr_ptr_size := (hr_ptr_size r)\<lparr> ps_size := 0, ps_ptr := 0 \<rparr> \<rparr>) m
            else m))"

definition hm_size :: "handles_map \<Rightarrow> nat" where
  "hm_size m = sum_list (map (\<lambda>b. length (handles m ! b)) [0..<length bucketInfo])"

section \<open>The iterator\<close>

record memory_record =
  mr_id :: "64 word"
  mr_fixed :: bool
  mr_ptr_size :: ptr_size

text \<open>An iterator is the pair of its bucket and handle indices.\<close>

definition it_deref :: "handles_map \<Rightarrow> nat \<times> nat \<Rightarrow> memory_record res" where
  "it_deref m it =
     (case it of (b, j) \<Rightarrow>
        if b < length (handles m) \<and> j < length (handles m ! b) then
          Inr \<lparr> mr_id = create_memhandle (of_nat b) (of_nat j),
                mr_fixed = hr_fixed (handles m ! b ! j),
                mr_ptr_size = hr_ptr_size (handles m ! b ! j) \<rparr>
        else Inl Undefined)"

text \<open>The inner \<open>while\<close>: skip inactive records, but stop at the last one.\<close>

function (sequential) skip_inactive :: "handle_record list \<Rightarrow> nat \<Rightarrow> nat" where
  "skip_inactive recs j =
     (if j < length recs - 1 \<and> \<not> hr_active (recs ! j) then skip_inactive recs (j + 1) else j)"
  by pat_completeness auto
termination by (relation "measure (\<lambda>(recs, j). length recs - j)") auto

declare skip_inactive.simps [simp del]

text \<open>The \<open>do while\<close> over empty buckets.\<close>

function (sequential) skip_empty :: "handle_record list list \<Rightarrow> nat \<Rightarrow> nat" where
  "skip_empty hs b =
     (if b + 1 < length hs \<and> hs ! (b + 1) = [] then skip_empty hs (b + 1) else b + 1)"
  by pat_completeness auto
termination by (relation "measure (\<lambda>(hs, b). length hs - b)") auto

declare skip_empty.simps [simp del]

text \<open>
  On an empty bucket \<open>size() - 1\<close> wraps and the loop reads past the deque; a bucket always holds
  the unused record 0.
\<close>

definition it_next :: "handles_map \<Rightarrow> nat \<times> nat \<Rightarrow> (nat \<times> nat) res" where
  "it_next m it =
     (case it of (b, j) \<Rightarrow>
        if b \<ge> length (handles m) then Inl Undefined
        else
          (let recs = handles m ! b in
           if recs = [] then Inl Undefined
           else if j < length recs - 1 then Inr (b, skip_inactive recs (j + 1))
           else Inr (skip_empty (handles m) b, 0)))"

definition it_end :: "handles_map \<Rightarrow> nat \<times> nat" where
  "it_end m = (length (handles m), hm_size m)"

definition it_equal :: "nat \<times> nat \<Rightarrow> nat \<times> nat \<Rightarrow> bool" where
  "it_equal a b \<longleftrightarrow> fst a = fst b \<and> snd a = snd b"

definition it_not_equal :: "nat \<times> nat \<Rightarrow> nat \<times> nat \<Rightarrow> bool" where
  "it_not_equal a b \<longleftrightarrow> fst a \<noteq> fst b \<and> snd a \<noteq> snd b"

text \<open>A range-based \<open>for\<close> over the map: the records it visits.\<close>

fun hm_iterate :: "nat \<Rightarrow> handles_map \<Rightarrow> nat \<times> nat \<Rightarrow> memory_record list res" where
  "hm_iterate 0 m it = Inl No_return"
| "hm_iterate (Suc fuel) m it =
     (if it_not_equal it (it_end m) then
        bindR (it_deref m it) (\<lambda>r.
        bindR (it_next m it) (\<lambda>it.
        bindR (hm_iterate fuel m it) (\<lambda>rs. Inr (r # rs))))
      else Inr [])"

definition hm_records :: "handles_map \<Rightarrow> memory_record list res" where
  "hm_records m = hm_iterate (Suc (hm_size m)) m (0, 0)"


section \<open>The map the handles stand for\<close>

definition rec_at :: "handles_map \<Rightarrow> nat \<Rightarrow> nat \<Rightarrow> handle_record option" where
  "rec_at m b j =
     (if b < length (handles m) \<and> j < length (handles m ! b) then Some (handles m ! b ! j) else None)"

definition hm_lookup :: "handles_map \<Rightarrow> 64 word \<Rightarrow> handle_record option" where
  "hm_lookup m i =
     (case rec_at m (unat (get_bucket_index i)) (unat (get_handle_index i)) of
        None \<Rightarrow> None | Some r \<Rightarrow> if get_handle_index i \<noteq> 0 \<and> hr_active r then Some r else None)"

text \<open>
  Three classes; record 0 is never active; the queue of a class holds the inactive indices from 1
  on, each once; and no class has more records than it has ids.
\<close>

definition hm_inv :: "handles_map \<Rightarrow> bool" where
  "hm_inv m \<longleftrightarrow> length (handles m) = 3 \<and> length (free_handles m) = 3 \<and>
     (\<forall>b<3. handles m ! b \<noteq> [] \<and> \<not> hr_active (handles m ! b ! 0) \<and>
        length (handles m ! b) \<le> 2 ^ (62 - class_bits (of_nat b)) \<and>
        distinct (free_handles m ! b) \<and>
        (\<forall>i. i \<in> set (free_handles m ! b) \<longleftrightarrow>
           i \<noteq> 0 \<and> unat i < length (handles m ! b) \<and> \<not> hr_active (handles m ! b ! unat i)))"

lemma hm_inv_new: "hm_inv HandlesMap_new"
proof -
  have "(b :: nat) < 3 \<Longrightarrow> handles HandlesMap_new ! b = [Record_default] \<and> free_handles HandlesMap_new ! b = []"
    for b by (simp add: HandlesMap_new_def)
  moreover have "\<not> (i \<noteq> 0 \<and> unat i < 1)" for i :: "64 word" by (simp add: unsigned_eq_0_iff)
  ultimately show ?thesis
    by (auto simp: hm_inv_def Record_default_def) (simp_all add: HandlesMap_new_def)
qed

text \<open>An index of a class is below \<open>2 ^ 40\<close>, so turning it into a word and back loses nothing.\<close>

lemma class_len:
  assumes "hm_inv m" "b < 3" "j < length (handles m ! b)"
  shows "j < 2 ^ 40" "unat (of_nat j :: 64 word) = j" "(of_nat j :: 64 word) < 2 ^ (62 - class_bits (of_nat b))"
    "unat (of_nat b :: 64 word) = b" "(of_nat b :: 64 word) < 3"
proof -
  have cb: "class_bits (of_nat b) \<in> {22, 32, 42}" by (rule class_bits_cases)
  have l: "j < 2 ^ (62 - class_bits (of_nat b))"
    using assms unfolding hm_inv_def by (meson order_less_le_trans)
  also have "(2::nat) ^ (62 - class_bits (of_nat b)) \<le> 2 ^ 40"
    using cb by (intro power_increasing) auto
  finally show j: "j < 2 ^ 40" .
  then show u: "unat (of_nat j :: 64 word) = j" by (simp add: unat_of_nat)
  show "(of_nat j :: 64 word) < 2 ^ (62 - class_bits (of_nat b))"
    using l cb u by (auto simp: word_less_nat_alt)
  show "unat (of_nat b :: 64 word) = b" "(of_nat b :: 64 word) < 3"
    using assms(2) by (auto simp: unat_of_nat word_less_nat_alt)
qed

text \<open>The id of record \<open>j\<close> of class \<open>b\<close>.\<close>

definition hid :: "nat \<Rightarrow> nat \<Rightarrow> 64 word" where
  "hid b j = create_memhandle (of_nat b) (of_nat j)"

lemma hid_parts:
  assumes "hm_inv m" "b < 3" "j < length (handles m ! b)"
  shows "get_bucket_index (hid b j) = of_nat b" "get_handle_index (hid b j) = of_nat j"
    "unat (get_bucket_index (hid b j)) = b" "unat (get_handle_index (hid b j)) = j"
proof -
  note c = class_len [OF assms]
  have "(of_nat j :: 64 word) < 2 ^ 62" using c(1,2) by (simp add: word_less_nat_alt)
  note bc = bucket_create [OF c(5) this]
  show "get_bucket_index (hid b j) = of_nat b" "get_handle_index (hid b j) = of_nat j"
    using bc by (simp_all add: hid_def)
  then show "unat (get_bucket_index (hid b j)) = b" "unat (get_handle_index (hid b j)) = j"
    using c(2,4) by simp_all
qed

text \<open>Every live id has such a form.\<close>

lemma hm_lookup_Some:
  assumes "hm_inv m" "hm_lookup m i = Some r"
  obtains b j where "i = hid b j" "b < 3" "0 < j" "j < length (handles m ! b)"
    "r = handles m ! b ! j" "hr_active r"
proof -
  let ?b = "unat (get_bucket_index i)" and ?j = "unat (get_handle_index i)"
  from assms(2) have r: "?b < length (handles m)" "?j < length (handles m ! ?b)"
    "r = handles m ! ?b ! ?j" "get_handle_index i \<noteq> 0" "hr_active r"
    by (auto simp: hm_lookup_def rec_at_def split: option.splits if_splits)
  have "length (handles m) = 3" using assms(1) by (simp add: hm_inv_def)
  moreover have "i = hid ?b ?j" by (simp add: hid_def handle_split)
  moreover have "0 < ?j" using r(4) by (simp add: unat_gt_0)
  ultimately show ?thesis using that [of ?b ?j] r by simp
qed

lemma hm_check_lookup:
  assumes "hm_inv m" "unat (get_bucket_index i) < 3"
  shows "hm_check i m = (if hm_lookup m i = None then Inl Fatal else Inr ())"
    "hm_lookup m i = Some r \<Longrightarrow> hm_record i m = r"
proof -
  have l: "length (handles m) = 3" using assms(1) by (simp add: hm_inv_def)
  show "hm_check i m = (if hm_lookup m i = None then Inl Fatal else Inr ())"
    using assms(2) l by (auto simp: hm_check_def CheckId_def is_valid_def hm_lookup_def rec_at_def)
  show "hm_lookup m i = Some r \<Longrightarrow> hm_record i m = r"
    by (auto simp: hm_lookup_def rec_at_def hm_record_def split: option.splits if_splits)
qed

section \<open>Lookup after each operation\<close>

lemma id_eq_iff:
  "i = k \<longleftrightarrow> get_bucket_index i = get_bucket_index k \<and> get_handle_index i = get_handle_index k"
  by (metis handle_split)

lemma hm_lookup_update:
  assumes inv: "hm_inv m" and l: "hm_lookup m i = Some r"
  shows "hm_lookup (hm_update i f m) k =
    (if k = i then (if hr_active (f r) then Some (f r) else None) else hm_lookup m k)"
proof -
  let ?b = "unat (get_bucket_index i)" and ?j = "unat (get_handle_index i)"
  from l have r: "?b < length (handles m)" "?j < length (handles m ! ?b)" "r = handles m ! ?b ! ?j"
    "get_handle_index i \<noteq> 0" by (auto simp: hm_lookup_def rec_at_def split: option.splits if_splits)
  have ra: "rec_at (hm_update i f m) b j =
      (if b = ?b \<and> j = ?j then Some (f r) else rec_at m b j)" for b j
    using r by (auto simp: rec_at_def hm_update_def Let_def nth_list_update)
  show ?thesis
  proof (cases "k = i")
    case True
    then show ?thesis using r(4) by (simp add: hm_lookup_def ra)
  next
    case False
    then have "\<not> (unat (get_bucket_index k) = ?b \<and> unat (get_handle_index k) = ?j)"
      by (metis id_eq_iff unsigned_word_eqI)
    then show ?thesis using False by (auto simp: hm_lookup_def ra)
  qed
qed

lemma hm_update_inv:
  assumes inv: "hm_inv m" and l: "hm_lookup m i = Some r" and f: "hr_active (f r)"
  shows "hm_inv (hm_update i f m)"
proof -
  from hm_lookup_Some [OF inv l] obtain b j where bj: "i = hid b j" "b < 3" "0 < j"
    "j < length (handles m ! b)" "r = handles m ! b ! j" "hr_active r" by blast
  note p = hid_parts(3,4) [OF inv bj(2,4)]
  have "handles (hm_update i f m) = (handles m)[b := (handles m ! b)[j := f r]]"
    using p bj(1,5) by (simp add: hm_update_def Let_def)
  moreover have "free_handles (hm_update i f m) = free_handles m" by (simp add: hm_update_def Let_def)
  ultimately show ?thesis
    using inv bj f by (auto simp: hm_inv_def nth_list_update)
qed

lemma hm_GetPtrSize_lookup:
  assumes "hm_inv m" "unat (get_bucket_index i) < 3"
  shows "hm_GetPtrSize i m =
    (case hm_lookup m i of None \<Rightarrow> Inl Fatal | Some r \<Rightarrow> Inr (hr_ptr_size r))"
  using hm_check_lookup [OF assms] by (auto simp: hm_GetPtrSize_def split: option.splits)

lemma lookup_bucket: "hm_inv m \<Longrightarrow> hm_lookup m i = Some r \<Longrightarrow> unat (get_bucket_index i) < 3"
  by (auto simp: hm_lookup_def rec_at_def hm_inv_def split: option.splits if_splits)

text \<open>The operations that change one record.\<close>

lemma hm_change:
  assumes inv: "hm_inv m" and l: "hm_lookup m i = Some r"
  shows "hm_SetPtrSize i ps m = Inr (hm_update i (\<lambda>r. r\<lparr> hr_ptr_size := ps \<rparr>) m)"
    "hm_MarkMemoryFixed i m = Inr (hm_update i (\<lambda>r. r\<lparr> hr_fixed := True \<rparr>) m)"
    "hm_ResetHandlesMap i m = Inr (hm_update i (\<lambda>r. r\<lparr> hr_reset := True,
       hr_ptr_size := (hr_ptr_size r)\<lparr> ps_size := 0, ps_ptr := 0 \<rparr> \<rparr>) m)"
    "hm_checkIdIsReset i m = Inr (hr_reset r,
       if hr_reset r then hm_update i (\<lambda>r. r\<lparr> hr_reset := False \<rparr>) m else m)"
proof -
  note b = lookup_bucket [OF inv l]
  have a: "hr_active r" using l by (auto simp: hm_lookup_def split: option.splits if_splits)
  note c = hm_check_lookup [OF inv b] l a
  show "hm_SetPtrSize i ps m = Inr (hm_update i (\<lambda>r. r\<lparr> hr_ptr_size := ps \<rparr>) m)"
    "hm_MarkMemoryFixed i m = Inr (hm_update i (\<lambda>r. r\<lparr> hr_fixed := True \<rparr>) m)"
    "hm_ResetHandlesMap i m = Inr (hm_update i (\<lambda>r. r\<lparr> hr_reset := True,
       hr_ptr_size := (hr_ptr_size r)\<lparr> ps_size := 0, ps_ptr := 0 \<rparr> \<rparr>) m)"
    "hm_checkIdIsReset i m = Inr (hr_reset r,
       if hr_reset r then hm_update i (\<lambda>r. r\<lparr> hr_reset := False \<rparr>) m else m)"
    using c by (simp_all add: hm_SetPtrSize_def hm_MarkMemoryFixed_def hm_ResetHandlesMap_def
        hm_checkIdIsReset_def Let_def)
qed

section \<open>Erasing and inserting\<close>

lemma hm_Erase_step:
  assumes inv: "hm_inv m" and l: "hm_lookup m i = Some r"
  shows "\<exists>t. hm_Erase i m = Inr t \<and> hm_inv t \<and> hm_lookup t = (hm_lookup m)(i := None)"
proof -
  from hm_lookup_Some [OF inv l] obtain b j where bj: "i = hid b j" "b < 3" "0 < j"
    "j < length (handles m ! b)" "r = handles m ! b ! j" "hr_active r" by blast
  note p = hid_parts [OF inv bj(2,4)]
  let ?f = "\<lambda>r. r\<lparr> hr_active := False, hr_ptr_size := (hr_ptr_size r)\<lparr> ps_size := 0, ps_ptr := 0 \<rparr> \<rparr>"
  let ?u = "hm_update i ?f m"
  let ?t = "?u\<lparr> free_handles := (free_handles m)[b := free_handles m ! b @ [of_nat j]] \<rparr>"
  have fu: "free_handles ?u = free_handles m" by (simp add: hm_update_def Let_def)
  have hu: "handles ?u = (handles m)[b := (handles m ! b)[j := ?f r]]"
    using p(3,4) bj(1,5) by (simp add: hm_update_def Let_def)
  have run: "hm_Erase i m = Inr ?t"
    using hm_check_lookup(1) [OF inv lookup_bucket [OF inv l]] l p bj(1) fu
    by (simp add: hm_Erase_def Let_def)
  have u: "unat (of_nat j :: 64 word) = j" using class_len(2) [OF inv bj(2,4)] .
  have nz: "(of_nat j :: 64 word) \<noteq> 0" using u bj(3) by (metis unsigned_0 less_irrefl)
  have nin: "of_nat j \<notin> set (free_handles m ! b)" using inv bj u by (auto simp: hm_inv_def)
  have "hm_inv ?t"
    unfolding hm_inv_def
  proof (intro conjI allI impI)
    fix c :: nat assume c: "c < 3"
    show "handles ?t ! c \<noteq> []" "\<not> hr_active (handles ?t ! c ! 0)"
      "length (handles ?t ! c) \<le> 2 ^ (62 - class_bits (of_nat c))"
      using inv c bj hu by (auto simp: hm_inv_def nth_list_update)
    show "distinct (free_handles ?t ! c)"
      using inv c nin bj(2) by (auto simp: hm_inv_def nth_list_update)
    fix k :: "64 word"
    have old: "k \<in> set (free_handles m ! c) \<longleftrightarrow> k \<noteq> 0 \<and> unat k < length (handles m ! c) \<and>
        \<not> hr_active (handles m ! c ! unat k)" using inv c by (simp add: hm_inv_def)
    have kj: "k = of_nat j \<longleftrightarrow> unat k = j" using u by (metis word_unat_eq_iff)
    show "k \<in> set (free_handles ?t ! c) \<longleftrightarrow> k \<noteq> 0 \<and> unat k < length (handles ?t ! c) \<and>
        \<not> hr_active (handles ?t ! c ! unat k)"
    proof (cases "c = b")
      case True
      then show ?thesis
        using old hu kj nz bj inv by (auto simp: hm_inv_def nth_list_update)
    next
      case False
      then show ?thesis using old hu by simp
    qed
  qed (use inv hu in \<open>simp_all add: hm_inv_def\<close>)
  moreover have "hm_lookup ?t k = hm_lookup ?u k" for k by (simp add: hm_lookup_def rec_at_def)
  then have "hm_lookup ?t = (hm_lookup m)(i := None)"
    using hm_lookup_update [OF inv l, of ?f] by (auto simp: fun_eq_iff)
  ultimately show ?thesis using run by blast
qed

lemma hm_Erase_twice:
  "hm_inv m \<Longrightarrow> unat (get_bucket_index i) < 3 \<Longrightarrow> hm_lookup m i = None \<Longrightarrow> hm_Erase i m = Inl Fatal"
  using hm_check_lookup(1) [of m i] by (simp add: hm_Erase_def)

lemma no_id_overflow:
  assumes b: "b \<in> {22, 32, 42}" and i: "i < 2 ^ (62 - b)" and sz: "sz < 2 ^ b"
  shows "check_id_overflow i sz b = Inr ()"
proof -
  have bi: "n < 62 - b" if "bit i n" for n using word_less_bits [of i "62 - b" n] that i by simp
  have bs: "n < b" if "bit sz n" for n using word_less_bits [of sz b n] that sz by simp
  have "push_bit b i AND sz = 0"
    by (rule bit_word_eqI) (use b in \<open>auto simp: bit_simps dest: bs\<close>)
  then have "push_bit b i + sz = push_bit b i OR sz" by (rule disjunctive_add_eq_or)
  moreover have "drop_bit b (push_bit b i OR sz) = i"
    by (rule bit_word_eqI) (use b bi bs in \<open>fastforce simp: bit_simps\<close>)
  ultimately show ?thesis by (simp add: check_id_overflow_def Let_def)
qed

lemma bucket_for_size:
  "getBucketIndexForGivenTensorSize sz =
     (if sz < 2 ^ 22 then Inr 0 else if sz < 2 ^ 32 then Inr 1 else if sz < 2 ^ 42 then Inr 2
      else Inl Fatal)"
proof -
  have "[0..<length bucketInfo] = [0, 1, 2]" by (simp add: bucketInfo_def upt_rec)
  then show ?thesis
    by (simp add: getBucketIndexForGivenTensorSize_def bucketInfo_def bucket_info_for_def)
qed

lemma bucketInfo_class: "b < 3 \<Longrightarrow> bucketInfo ! b = bucket_info_for (class_bits (of_nat b))"
  by (auto simp: bucketInfo_def class_bits_def numeral_3_eq_3 less_Suc_eq)

lemma size_class:
  assumes "getBucketIndexForGivenTensorSize sz = Inr b"
  shows "b < 3" "sz < 2 ^ class_bits (of_nat b)"
  using assms by (auto simp: bucket_for_size class_bits_def split: if_splits)

text \<open>What a lookup sees of the record at a place that changed.\<close>

lemma hm_lookup_at:
  assumes "b < 3" "j < 2 ^ 40" "0 < j" "hm_inv m"
    and ra: "\<And>b' k. rec_at t b' k = (if b' = b \<and> k = j then Some r else rec_at m b' k)"
    and r: "hr_active r"
  shows "hm_lookup t = (hm_lookup m)(hid b j \<mapsto> r)"
proof
  fix i
  have jw: "(of_nat j :: 64 word) < 2 ^ 62" using assms(2) by (simp add: word_less_nat_alt unat_of_nat)
  have bw: "(of_nat b :: 64 word) < 3" using assms(1) by (simp add: word_less_nat_alt unat_of_nat)
  have uj: "unat (of_nat j :: 64 word) = j" and ub: "unat (of_nat b :: 64 word) = b"
    using assms(1,2) by (simp_all add: unat_of_nat)
  note bc = bucket_create [OF bw jw]
  have p: "get_bucket_index (hid b j) = of_nat b" "get_handle_index (hid b j) = of_nat j"
    using bc by (simp_all add: hid_def)
  have nz: "(of_nat j :: 64 word) \<noteq> 0" using uj assms(3) by (metis unsigned_0 less_irrefl)
  show "hm_lookup t i = ((hm_lookup m)(hid b j \<mapsto> r)) i"
  proof (cases "i = hid b j")
    case True
    then show ?thesis using p uj ub nz r by (simp add: hm_lookup_def ra)
  next
    case False
    then have "\<not> (unat (get_bucket_index i) = b \<and> unat (get_handle_index i) = j)"
      using p uj ub by (metis id_eq_iff unsigned_word_eqI)
    then show ?thesis using False by (auto simp: hm_lookup_def ra)
  qed
qed

lemma hm_Insert_step:
  assumes inv: "hm_inv m" and b: "getBucketIndexForGivenTensorSize sz = Inr b"
    and room: "free_handles m ! b \<noteq> [] \<or> length (handles m ! b) < 2 ^ (62 - class_bits (of_nat b))"
  shows "\<exists>i t. hm_Insert sz us m = Inr (i, t) \<and> hm_inv t \<and> hm_lookup m i = None \<and>
    hm_lookup t = (hm_lookup m)(i \<mapsto> Record_new sz us)"
proof (cases "free_handles m ! b")
  case (Cons i q)
  note sb = size_class [OF b]
  let ?recs = "handles m ! b"
  have i: "i \<noteq> 0" "unat i < length ?recs" "\<not> hr_active (?recs ! unat i)"
    using inv sb Cons unfolding hm_inv_def by (metis list.set_intros(1))+
  note cl = class_len [OF inv sb(1) i(2)]
  have cb: "class_bits (of_nat b) \<in> {22, 32, 42}" by (rule class_bits_cases)
  have il: "i < 2 ^ (62 - class_bits (of_nat b))" using cl(3) by simp
  have ov: "check_id_overflow i sz (class_bits (of_nat b)) = Inr ()"
    by (rule no_id_overflow [OF cb il sb(2)])
  let ?t = "m\<lparr> free_handles := (free_handles m)[b := q],
    handles := (handles m)[b := ?recs[unat i := Record_new sz us]] \<rparr>"
  have id: "create_memhandle (of_nat b) i = hid b (unat i)" by (simp add: hid_def)
  have run: "hm_Insert sz us m = Inr (hid b (unat i), ?t)"
    using b Cons ov i by (simp add: hm_Insert_def bucketInfo_class sb Let_def id bucket_info_for_def)
  have l3: "length (handles m) = 3" using inv by (simp add: hm_inv_def)
  have upos: "0 < unat i" using i(1) by (simp add: unat_gt_0)
  have "hm_lookup ?t = (hm_lookup m)(hid b (unat i) \<mapsto> Record_new sz us)"
    by (rule hm_lookup_at [OF sb(1) cl(1) upos inv])
      (use i l3 sb in \<open>auto simp: rec_at_def nth_list_update Record_new_def\<close>)
  moreover have "hm_lookup m (hid b (unat i)) = None"
    using hid_parts(3,4) [OF inv sb(1) i(2)] i by (simp add: hm_lookup_def rec_at_def)
  moreover have "hm_inv ?t"
    unfolding hm_inv_def
  proof (intro conjI allI impI)
    fix c :: nat assume c: "c < 3"
    show "handles ?t ! c \<noteq> []" "\<not> hr_active (handles ?t ! c ! 0)"
      "length (handles ?t ! c) \<le> 2 ^ (62 - class_bits (of_nat c))"
      using inv c sb upos by (auto simp: hm_inv_def nth_list_update)
    have dq: "distinct (i # q)" using inv sb(1) Cons unfolding hm_inv_def by metis
    show "distinct (free_handles ?t ! c)"
      using inv c dq sb(1) by (auto simp: hm_inv_def nth_list_update)
    fix k :: "64 word"
    have old: "k \<in> set (free_handles m ! c) \<longleftrightarrow> k \<noteq> 0 \<and> unat k < length (handles m ! c) \<and>
        \<not> hr_active (handles m ! c ! unat k)" using inv c by (simp add: hm_inv_def)
    show "k \<in> set (free_handles ?t ! c) \<longleftrightarrow> k \<noteq> 0 \<and> unat k < length (handles ?t ! c) \<and>
        \<not> hr_active (handles ?t ! c ! unat k)"
    proof (cases "c = b")
      case True
      have kk: "unat k = unat i \<longleftrightarrow> k = i" by (metis unsigned_word_eqI)
      show ?thesis using True old Cons dq i l3 inv c kk
        by (auto simp: hm_inv_def nth_list_update Record_new_def)
    next
      case False
      then show ?thesis using old by simp
    qed
  qed (use inv in \<open>simp_all add: hm_inv_def\<close>)
  ultimately show ?thesis using run by blast
next
  case Nil
  note sb = size_class [OF b]
  let ?recs = "handles m ! b" and ?j = "length (handles m ! b)"
  have cb: "class_bits (of_nat b) \<in> {22, 32, 42}" by (rule class_bits_cases)
  have room': "?j < 2 ^ (62 - class_bits (of_nat b))" using room Nil by simp
  also have "(2::nat) ^ (62 - class_bits (of_nat b)) \<le> 2 ^ 40"
    using cb by (intro power_increasing) auto
  finally have j40: "?j < 2 ^ 40" .
  have uj: "unat (of_nat ?j :: 64 word) = ?j" using j40 by (simp add: unat_of_nat)
  have jl: "(of_nat ?j :: 64 word) < 2 ^ (62 - class_bits (of_nat b))"
    using room' cb uj by (auto simp: word_less_nat_alt)
  have mx: "?j \<le> unat (max_handles (bucketInfo ! b))"
    using room' cb sb(1) by (auto simp: bucketInfo_class bucket_info_for_def class_bits_def total_bits_def split: if_splits)
  have ov: "check_id_overflow (of_nat ?j) sz (class_bits (of_nat b)) = Inr ()"
    by (rule no_id_overflow [OF cb jl sb(2)])
  let ?t = "m\<lparr> handles := (handles m)[b := ?recs @ [Record_new sz us]] \<rparr>"
  have run: "hm_Insert sz us m = Inr (hid b ?j, ?t)"
    using b Nil ov mx by (simp add: hm_Insert_def bucketInfo_class sb Let_def hid_def bucket_info_for_def)
  have l3: "length (handles m) = 3" using inv by (simp add: hm_inv_def)
  have jpos: "0 < ?j" using inv sb(1) by (simp add: hm_inv_def)
  have "hm_lookup ?t = (hm_lookup m)(hid b ?j \<mapsto> Record_new sz us)"
    by (rule hm_lookup_at [OF sb(1) j40 jpos inv])
      (use l3 sb in \<open>auto simp: rec_at_def nth_list_update nth_append Record_new_def\<close>)
  moreover have "hm_lookup m (hid b ?j) = None"
  proof -
    have "(of_nat ?j :: 64 word) < 2 ^ 62" using j40 uj by (simp add: word_less_nat_alt)
    moreover have "(of_nat b :: 64 word) < 3" "unat (of_nat b :: 64 word) = b"
      using sb(1) by (simp_all add: word_less_nat_alt unat_of_nat)
    ultimately show ?thesis using bucket_create [of "of_nat b" "of_nat ?j"] uj
      by (simp add: hm_lookup_def rec_at_def hid_def)
  qed
  moreover have "hm_inv ?t"
    unfolding hm_inv_def
  proof (intro conjI allI impI)
    fix c :: nat assume c: "c < 3"
    have nn: "handles m ! c \<noteq> []" "\<not> hr_active (handles m ! c ! 0)"
      "length (handles m ! c) \<le> 2 ^ (62 - class_bits (of_nat c))" using inv c by (auto simp: hm_inv_def)
    show "handles ?t ! c \<noteq> []" "\<not> hr_active (handles ?t ! c ! 0)"
      using nn sb l3 c by (auto simp: nth_list_update nth_append)
    show "length (handles ?t ! c) \<le> 2 ^ (62 - class_bits (of_nat c))"
      using nn(3) room' sb l3 c by (cases "c = b") (auto simp: nth_list_update)
    show "distinct (free_handles ?t ! c)" using inv c by (simp add: hm_inv_def)
    fix k :: "64 word"
    have "k \<in> set (free_handles m ! c) \<longleftrightarrow> k \<noteq> 0 \<and> unat k < length (handles m ! c) \<and>
        \<not> hr_active (handles m ! c ! unat k)" using inv c by (simp add: hm_inv_def)
    then show "k \<in> set (free_handles ?t ! c) \<longleftrightarrow> k \<noteq> 0 \<and> unat k < length (handles ?t ! c) \<and>
        \<not> hr_active (handles ?t ! c ! unat k)"
      using l3 c by (cases "c = b") (auto simp: nth_list_update nth_append Record_new_def less_Suc_eq)
  qed (use inv in \<open>simp_all add: hm_inv_def\<close>)
  ultimately show ?thesis using run by blast
qed

section \<open>Walking the map\<close>

text \<open>
  The indices of class \<open>b\<close> that the walk visits from index \<open>j\<close> on: the records that are active,
  and the last one whatever it is.
\<close>

definition visited_from :: "handle_record list \<Rightarrow> nat \<Rightarrow> nat list" where
  "visited_from recs j = filter (\<lambda>k. hr_active (recs ! k) \<or> k = length recs - 1) [j..<length recs]"

definition record_of :: "handles_map \<Rightarrow> nat \<Rightarrow> nat \<Rightarrow> memory_record" where
  "record_of m b j = \<lparr> mr_id = hid b j, mr_fixed = hr_fixed (handles m ! b ! j),
     mr_ptr_size = hr_ptr_size (handles m ! b ! j) \<rparr>"

lemma skip_inactive_visited:
  "j < length recs \<Longrightarrow>
   skip_inactive recs j < length recs \<and> j \<le> skip_inactive recs j \<and>
   visited_from recs j = skip_inactive recs j # visited_from recs (skip_inactive recs j + 1)"
proof (induction recs j rule: skip_inactive.induct)
  case (1 recs j)
  have up: "[j..<length recs] = j # [Suc j..<length recs]" using 1(2) by (rule upt_conv_Cons)
  show ?case
  proof (cases "j < length recs - 1 \<and> \<not> hr_active (recs ! j)")
    case True
    then have ih: "skip_inactive recs (j + 1) < length recs \<and> j + 1 \<le> skip_inactive recs (j + 1) \<and>
        visited_from recs (j + 1) = skip_inactive recs (j + 1) #
          visited_from recs (skip_inactive recs (j + 1) + 1)"
      using 1(1) [OF True] by linarith
    have "visited_from recs j = visited_from recs (j + 1)" using True up by (simp add: visited_from_def)
    moreover have "skip_inactive recs j = skip_inactive recs (j + 1)"
      using True by (simp add: skip_inactive.simps [of recs j])
    ultimately show ?thesis using ih by simp
  next
    case False
    then have s: "skip_inactive recs j = j" by (simp only: skip_inactive.simps [of recs j] if_False)
    have "hr_active (recs ! j) \<or> j = length recs - 1" using False 1(2) by linarith
    then show ?thesis using s up 1(2) by (simp add: visited_from_def)
  qed
qed

lemma skip_empty_next:
  "b + 1 < length hs \<Longrightarrow> hs ! (b + 1) \<noteq> [] \<Longrightarrow> skip_empty hs b = b + 1"
  "length hs \<le> b + 1 \<Longrightarrow> skip_empty hs b = b + 1"
  by (simp_all add: skip_empty.simps [of hs b])

text \<open>What the walk still has to visit from index \<open>j\<close> of class \<open>b\<close> on, after record \<open>j\<close> itself.\<close>

definition walk :: "handles_map \<Rightarrow> nat \<Rightarrow> nat \<Rightarrow> memory_record list" where
  "walk m b j = record_of m b j # map (record_of m b) (visited_from (handles m ! b) (j + 1)) @
     concat (map (\<lambda>c. record_of m c 0 # map (record_of m c) (visited_from (handles m ! c) 1)) [b + 1..<3])"

lemma walk_next:
  assumes "hm_inv m" "b < 3" "j < length (handles m ! b)"
  shows "\<exists>c k. it_next m (b, j) = Inr (c, k) \<and>
    (c = 3 \<and> k = 0 \<and> walk m b j = [record_of m b j] \<or>
     c < 3 \<and> k < length (handles m ! c) \<and> walk m b j = record_of m b j # walk m c k)"
proof -
  let ?recs = "handles m ! b"
  have l3: "length (handles m) = 3" and ne: "\<And>b. b < 3 \<Longrightarrow> handles m ! b \<noteq> []"
    using assms(1) by (auto simp: hm_inv_def)
  show ?thesis
  proof (cases "j < length ?recs - 1")
    case True
    then have j1: "j + 1 < length ?recs" by simp
    let ?k = "skip_inactive ?recs (j + 1)"
    have n: "it_next m (b, j) = Inr (b, ?k)"
      using True l3 assms(2) ne [OF assms(2)] by (simp add: it_next_def Let_def)
    note v = skip_inactive_visited [OF j1]
    have "walk m b j = record_of m b j # walk m b ?k"
      unfolding walk_def using v by simp
    then show ?thesis using n v assms(2) by blast
  next
    case False
    then have jl: "visited_from ?recs (j + 1) = []" using assms(3) by (simp add: visited_from_def)
    have n: "it_next m (b, j) = Inr (skip_empty (handles m) b, 0)"
      using False l3 assms(2) ne [OF assms(2)] by (simp add: it_next_def Let_def)
    have b: "skip_empty (handles m) b = b + 1"
      using l3 ne [of "b + 1"] skip_empty_next [where b = b and hs = "handles m"] by (cases "b + 1 < 3") simp_all
    show ?thesis
    proof (cases "b + 1 < 3")
      case True
      have "walk m b j = record_of m b j # walk m (b + 1) 0"
        unfolding walk_def using jl True by (simp add: upt_conv_Cons)
      then show ?thesis using n b True ne [of "b + 1"] by auto
    next
      case False
      then have "b = 2" using assms(2) by simp
      then show ?thesis using n b jl by (simp add: walk_def)
    qed
  qed
qed

lemma hm_size_sum: "hm_size m = length (handles m ! 0) + length (handles m ! 1) + length (handles m ! 2)"
  by (simp add: hm_size_def bucketInfo_def upt_rec numeral_2_eq_2)

lemma hm_iterate_walk:
  "hm_inv m \<Longrightarrow> b < 3 \<Longrightarrow> j < length (handles m ! b) \<Longrightarrow> length (walk m b j) < fuel \<Longrightarrow>
   hm_iterate fuel m (b, j) = Inr (walk m b j)"
proof (induction fuel arbitrary: b j)
  case (Suc fuel)
  have l3: "length (handles m) = 3" and ne: "\<And>c. c < 3 \<Longrightarrow> handles m ! c \<noteq> []"
    using Suc.prems(1) by (auto simp: hm_inv_def)
  have "j < hm_size m"
  proof -
    have "b = 0 \<or> b = 1 \<or> b = 2" using Suc.prems(2) by linarith
    then show ?thesis using Suc.prems(3) unfolding hm_size_sum by (elim disjE) simp_all
  qed
  then have go: "it_not_equal (b, j) (it_end m)" using Suc.prems(2) l3 by (simp add: it_not_equal_def it_end_def)
  have d: "it_deref m (b, j) = Inr (record_of m b j)"
    using Suc.prems(2,3) l3 by (simp add: it_deref_def record_of_def hid_def)
  from walk_next [OF Suc.prems(1-3)] obtain c k where n: "it_next m (b, j) = Inr (c, k)"
    "c = 3 \<and> k = 0 \<and> walk m b j = [record_of m b j] \<or>
     c < 3 \<and> k < length (handles m ! c) \<and> walk m b j = record_of m b j # walk m c k" by blast
  from n(2) show ?case
  proof
    assume e: "c = 3 \<and> k = 0 \<and> walk m b j = [record_of m b j]"
    then obtain f where "fuel = Suc f" using Suc.prems(4) by (cases fuel) auto
    then have "hm_iterate fuel m (c, k) = Inr []" using e l3 by (simp add: it_not_equal_def it_end_def)
    then show ?thesis using go d n(1) e by simp
  next
    assume e: "c < 3 \<and> k < length (handles m ! c) \<and> walk m b j = record_of m b j # walk m c k"
    then have "hm_iterate fuel m (c, k) = Inr (walk m c k)" using Suc.IH [OF Suc.prems(1)] Suc.prems(4) by simp
    then show ?thesis using go d n(1) e by simp
  qed
qed simp

lemma visited_len:
  assumes "recs \<noteq> []"
  shows "Suc (length (visited_from recs (Suc 0))) \<le> length recs"
proof -
  have "length (visited_from recs (Suc 0)) \<le> length [Suc 0..<length recs]"
    unfolding visited_from_def by (rule length_filter_le)
  moreover have "0 < length recs" using assms by simp
  ultimately show ?thesis unfolding length_upt by linarith
qed

lemma hm_records_walk:
  assumes "hm_inv m"
  shows "hm_records m = Inr (walk m 0 0)"
proof -
  have ne: "\<And>c. c < 3 \<Longrightarrow> handles m ! c \<noteq> []" using assms by (auto simp: hm_inv_def)
  have "[0 + 1..<3] = [1, 2::nat]" by (simp add: upt_rec)
  then have "length (walk m 0 0) \<le> hm_size m"
    using visited_len [OF ne [of 0]] visited_len [OF ne [of 1]] visited_len [OF ne [of 2]]
    by (simp add: walk_def hm_size_sum)
  then show ?thesis
    unfolding hm_records_def using ne [of 0] by (intro hm_iterate_walk assms) auto
qed

text \<open>Every record in use is visited, once.\<close>

lemma walk_members:
  assumes "hm_inv m"
  shows "set (walk m 0 0) = (\<Union>b\<in>{0, 1, 2}. record_of m b ` ({0, length (handles m ! b) - 1} \<union>
    {j. j < length (handles m ! b) \<and> hr_active (handles m ! b ! j)}))"
proof -
  have ne: "\<And>c. c < 3 \<Longrightarrow> handles m ! c \<noteq> []" using assms by (auto simp: hm_inv_def)
  have s: "insert 0 (set (visited_from (handles m ! c) 1)) =
      {0, length (handles m ! c) - 1} \<union> {j. j < length (handles m ! c) \<and> hr_active (handles m ! c ! j)}"
    if "c < 3" for c
  proof -
    have "\<not> hr_active (handles m ! c ! 0)" "0 < length (handles m ! c)"
      using that assms ne [OF that] by (auto simp: hm_inv_def)
    then have "(x = 0 \<or> (1 \<le> x \<and> x < length (handles m ! c)) \<and>
        (hr_active (handles m ! c ! x) \<or> x = length (handles m ! c) - 1)) \<longleftrightarrow>
        (x = 0 \<or> x = length (handles m ! c) - 1) \<or> x < length (handles m ! c) \<and> hr_active (handles m ! c ! x)" for x
      by (cases "x = 0") auto
    then show ?thesis unfolding visited_from_def by (simp add: set_eq_iff del: One_nat_def)
  qed
  have "[0 + 1..<3] = [1, 2::nat]" by (simp add: upt_rec)
  then have "set (walk m 0 0) = (\<Union>b\<in>{0, 1, 2}. record_of m b ` insert 0 (set (visited_from (handles m ! b) 1)))"
    by (simp add: walk_def Un_ac insert_commute del: One_nat_def)
  also have "\<dots> = (\<Union>b\<in>{0, 1, 2}. record_of m b ` ({0, length (handles m ! b) - 1} \<union>
    {j. j < length (handles m ! b) \<and> hr_active (handles m ! b ! j)}))"
    by (intro SUP_cong refl arg_cong [where f = "image _"] s) auto
  finally show ?thesis .
qed

section \<open>The contract of a table of handles\<close>

text \<open>
  What \<open>device_memory\<close> and the lazy tensors above it rely on: an id names one record from the
  insertion to the erasure, and every operation on one id leaves the others alone.
\<close>

locale handle_table =
  fixes inv :: "'s \<Rightarrow> bool"
    and lookup :: "'s \<Rightarrow> 'i \<Rightarrow> 'r option"
    and room :: "'q \<Rightarrow> 's \<Rightarrow> bool"
    and fresh :: "'q \<Rightarrow> 'r"
    and insert :: "'q \<Rightarrow> 's \<Rightarrow> ('i \<times> 's) res"
    and erase :: "'i \<Rightarrow> 's \<Rightarrow> 's res"
  assumes insert_law: "inv s \<Longrightarrow> room q s \<Longrightarrow>
      \<exists>i t. insert q s = Inr (i, t) \<and> inv t \<and> lookup s i = None \<and> lookup t = (lookup s)(i \<mapsto> fresh q)"
    and erase_law: "inv s \<Longrightarrow> lookup s i = Some r \<Longrightarrow>
      \<exists>t. erase i s = Inr t \<and> inv t \<and> lookup t = (lookup s)(i := None)"
begin

lemma insert_lookup:
  "inv s \<Longrightarrow> room q s \<Longrightarrow> insert q s = Inr (i, t) \<Longrightarrow> lookup t i = Some (fresh q)"
  by (drule (1) insert_law) auto

lemma insert_other:
  "inv s \<Longrightarrow> room q s \<Longrightarrow> insert q s = Inr (i, t) \<Longrightarrow> lookup s k = Some r \<Longrightarrow>
   k \<noteq> i \<and> lookup t k = Some r"
  by (drule (1) insert_law) auto

lemma insert_erase:
  assumes "inv s" "room q s" "insert q s = Inr (i, t)"
  shows "\<exists>u. erase i t = Inr u \<and> inv u \<and> lookup u = lookup s"
proof -
  from insert_law [OF assms(1,2)] assms(3)
  have t: "inv t" "lookup s i = None" "lookup t = (lookup s)(i \<mapsto> fresh q)" by auto
  then show ?thesis using erase_law [of t i "fresh q"] by (auto simp: fun_upd_idem_iff)
qed

end

definition hm_room :: "64 word \<times> nat \<Rightarrow> handles_map \<Rightarrow> bool" where
  "hm_room q m \<longleftrightarrow>
     (case getBucketIndexForGivenTensorSize (fst q) of Inl _ \<Rightarrow> False
      | Inr b \<Rightarrow> free_handles m ! b \<noteq> [] \<or> length (handles m ! b) < 2 ^ (62 - class_bits (of_nat b)))"

interpretation handle_map: handle_table hm_inv hm_lookup hm_room "\<lambda>(sz, us). Record_new sz us"
  "\<lambda>(sz, us). hm_Insert sz us" hm_Erase
proof (unfold_locales, goal_cases)
  case (1 s q)
  then show ?case using hm_Insert_step [OF 1(1)] by (auto simp: hm_room_def split: prod.splits sum.splits)
next
  case (2 s i r)
  then show ?case by (rule hm_Erase_step)
qed

end
