(* ===== verification/Defragmenter.thy ===== *)
theory Defragmenter
  imports Handles_Map Pool_Queries
begin

text \<open>
  The defragmenter (\<open>memory_defragmentation.h\<close>, \<open>memory_defragmentation.cpp\<close>): it lists the memory
  of the pool as blocks that are free, in use or fixed, and chooses the region of blocks to move
  so that an allocation or a larger workspace fits. Iterators into the vector of blocks are
  indices; the length of the vector is \<open>end()\<close>.
\<close>

section \<open>State\<close>

datatype MemoryState = FREE | IN_USE | FIXED

record memory_block =
  mb_state :: MemoryState
  mb_handle :: "64 word"
  mb_ptr :: nat
  mb_size :: nat
  mb_actual_size :: nat
  mb_stream :: nat

record region =
  rg_begin :: nat
  rg_end :: nat
  rg_in_use :: nat
  rg_free :: nat

record defragmenter =
  df_alignment :: nat
  mem_start_ptr :: nat
  mem_end_ptr :: nat
  workspace_ptr :: nat
  workspace_size :: nat
  small_allocs_ptr :: nat
  small_allocs_size :: nat
  small_allocs_threshold :: nat

definition MemoryDefragementer_new :: "pool \<Rightarrow> nat \<Rightarrow> defragmenter res" where
  "MemoryDefragementer_new s al =
     bindR (get_memory_info s) (\<lambda>regions.
     if length regions \<noteq> 1 then Inl Fatal
     else
       (let (region_ptr, region_size) = hd regions; mem_end = region_ptr + region_size in
        bindR (get_tail_chunk_info s) (\<lambda>(ws, ws_size).
        let (sp, ssz, sth) = get_small_alloc_info s in
        if sp \<noteq> 0 \<and> (sp < region_ptr \<or> sp + ssz > mem_end) then Inl Fatal
        else Inr \<lparr> df_alignment = al, mem_start_ptr = region_ptr, mem_end_ptr = mem_end,
               workspace_ptr = ws, workspace_size = ws_size, small_allocs_ptr = sp,
               small_allocs_size = ssz, small_allocs_threshold = sth \<rparr>)))"

section \<open>The map of the memory\<close>

definition free_mem :: "nat \<Rightarrow> nat \<Rightarrow> memory_block" where
  "free_mem ptr n = \<lparr> mb_state = FREE, mb_handle = 0, mb_ptr = ptr, mb_size = n,
     mb_actual_size = n, mb_stream = 0 \<rparr>"

text \<open>The code asks for the allocated size twice when the pointer is not a small allocation.\<close>

fun collect_records :: "defragmenter \<Rightarrow> pool \<Rightarrow> memory_record list \<Rightarrow> memory_block list res" where
  "collect_records d s [] = Inr []"
| "collect_records d s (r # rs) =
     (let ps = mr_ptr_size r in
      if ps_ptr ps = 0 \<or> ps_ptr ps = workspace_ptr d then collect_records d s rs
      else
        bindR (allocated_size (ps_ptr ps) s) (\<lambda>n.
        bindR (collect_records d s rs) (\<lambda>bs.
          Inr (\<lparr> mb_state = (if mr_fixed r then FIXED else IN_USE), mb_handle = mr_id r,
                 mb_ptr = ps_ptr ps, mb_size = unat (ps_size ps), mb_actual_size = n,
                 mb_stream = ps_stream ps \<rparr> # bs))))"

text \<open>\<open>std::sort\<close> by address; addresses of live allocations are distinct.\<close>

definition CollectResourceInformation ::
  "defragmenter \<Rightarrow> pool \<Rightarrow> handles_map \<Rightarrow> memory_block list res" where
  "CollectResourceInformation d s m =
     bindR (hm_records m) (\<lambda>rs.
     bindR (collect_records d s rs) (\<lambda>bs.
       Inr (sort_key mb_ptr
         (if workspace_size d > 0 then
            bs @ [\<lparr> mb_state = FIXED, mb_handle = 0, mb_ptr = workspace_ptr d,
                    mb_size = workspace_size d, mb_actual_size = workspace_size d, mb_stream = 0 \<rparr>]
          else bs))))"

text \<open>
  The inner \<open>while\<close>: the free memory from \<open>nxt\<close> to \<open>p\<close>, cut at the end of the small allocations.
\<close>

function (sequential) gap_blocks :: "nat \<Rightarrow> nat \<Rightarrow> nat \<Rightarrow> memory_block list" where
  "gap_blocks small_end p nxt =
     (if p > nxt then
        (let n = (if nxt < small_end \<and> p > small_end then small_end - nxt else p - nxt)
         in if n = 0 then [] else free_mem nxt n # gap_blocks small_end p (nxt + n))
      else [])"
  by pat_completeness auto
termination by (relation "measure (\<lambda>(small_end, p, nxt). p - nxt)") (auto split: if_splits)

declare gap_blocks.simps [simp del]

fun blocks_and_gaps :: "nat \<Rightarrow> memory_block \<Rightarrow> memory_block list \<Rightarrow> memory_block list" where
  "blocks_and_gaps small_end prev [] = []"
| "blocks_and_gaps small_end prev (b # bs) =
     gap_blocks small_end (mb_ptr b) (mb_ptr prev + mb_actual_size prev) @
       b # blocks_and_gaps small_end b bs"

definition CreateMemoryMap :: "defragmenter \<Rightarrow> memory_block list \<Rightarrow> memory_block list" where
  "CreateMemoryMap d in_use =
     (case in_use of
        [] \<Rightarrow> [free_mem (mem_start_ptr d) (sub64 (mem_end_ptr d) (mem_start_ptr d))]
      | b # bs \<Rightarrow>
          (let last_end = mb_ptr (last in_use) + mb_actual_size (last in_use) in
           (if mb_ptr b \<noteq> mem_start_ptr d
            then [free_mem (mem_start_ptr d) (sub64 (mb_ptr b) (mem_start_ptr d))] else []) @
           b # blocks_and_gaps (small_allocs_ptr d + small_allocs_size d) b bs @
           (if last_end < mem_end_ptr d then [free_mem last_end (sub64 (mem_end_ptr d) last_end)]
            else [])))"

fun validate_loop :: "nat \<Rightarrow> nat \<Rightarrow> nat \<Rightarrow> memory_block list \<Rightarrow> bool" where
  "validate_loop mem_end ptr n [] \<longleftrightarrow> ptr + n = mem_end"
| "validate_loop mem_end ptr n (b # bs) \<longleftrightarrow>
     mb_ptr b = ptr + n \<and> validate_loop mem_end (mb_ptr b) (mb_actual_size b) bs"

definition ValidateMemoryMap :: "defragmenter \<Rightarrow> memory_block list \<Rightarrow> bool" where
  "ValidateMemoryMap d bs =
     (case bs of [] \<Rightarrow> True
      | b # rest \<Rightarrow> mb_ptr b = mem_start_ptr d \<and>
          validate_loop (mem_end_ptr d) (mb_ptr b) (mb_actual_size b) rest)"

definition CollectMemoryInformation ::
  "defragmenter \<Rightarrow> pool \<Rightarrow> handles_map \<Rightarrow> (bool \<times> memory_block list) res" where
  "CollectMemoryInformation d s m =
     bindR (CollectResourceInformation d s m) (\<lambda>in_use.
       let result = CreateMemoryMap d in_use in Inr (ValidateMemoryMap d result, result))"

section \<open>The region for an allocation\<close>

definition reset_region :: "memory_block list \<Rightarrow> region" where
  "reset_region bs = \<lparr> rg_begin = length bs, rg_end = 0, rg_in_use = 0, rg_free = 0 \<rparr>"

definition better_region :: "region \<Rightarrow> region option \<Rightarrow> region option" where
  "better_region r best =
     (case best of None \<Rightarrow> Some r | Some q \<Rightarrow> if rg_in_use r < rg_in_use q then Some r else best)"

function (sequential) select_loop ::
  "memory_block list \<Rightarrow> nat \<Rightarrow> nat \<Rightarrow> nat \<Rightarrow> nat \<Rightarrow> region \<Rightarrow> region option \<Rightarrow> region option" where
  "select_loop bs sz ptr_start ptr_end it r best =
     (if it \<ge> length bs then best
      else if mb_ptr (bs ! it) < ptr_start then
        select_loop bs sz ptr_start ptr_end (it + 1) r best
      else if mb_ptr (bs ! it) \<ge> ptr_end then best
      else if rg_begin r = length bs \<and> mb_state (bs ! it) \<noteq> FREE then
        select_loop bs sz ptr_start ptr_end (it + 1) r best
      else if mb_state (bs ! it) = FIXED then
        select_loop bs sz ptr_start ptr_end (it + 1) (reset_region bs) best
      else
        (let b = (if rg_begin r = length bs then it else rg_begin r);
             n = mb_actual_size (bs ! it);
             q = (if mb_state (bs ! it) = FREE
                  then r\<lparr> rg_begin := b, rg_end := it + 1, rg_free := rg_free r + n \<rparr>
                  else r\<lparr> rg_begin := b, rg_end := it + 1, rg_in_use := rg_in_use r + n \<rparr>)
         in if rg_free q \<ge> sz then
              select_loop bs sz ptr_start ptr_end (b + 1) (reset_region bs) (better_region q best)
            else select_loop bs sz ptr_start ptr_end (it + 1) q best))"
  by pat_completeness auto
termination
  by (relation "measures
       [\<lambda>(bs, sz, ps, pe, it, r, best). length bs - (if rg_begin r = length bs then it else min it (rg_begin r)),
        \<lambda>(bs, sz, ps, pe, it, r, best). length bs - it]")
     (auto simp: reset_region_def split: if_splits)

declare select_loop.simps [simp del]

text \<open>The blocks of a region, and the check of the code on them.\<close>

definition region_blocks :: "memory_block list \<Rightarrow> nat \<Rightarrow> nat \<Rightarrow> memory_block list" where
  "region_blocks bs i j = take (j - i) (drop i bs)"

definition check_region :: "memory_block list \<Rightarrow> region \<Rightarrow> bool res" where
  "check_region bs r =
     (let rb = region_blocks bs (rg_begin r) (rg_end r) in
      if list_ex (\<lambda>b. mb_state b = FIXED) rb then Inl Fatal
      else Inr (list_ex (\<lambda>b. mb_state b = IN_USE) rb))"

text \<open>
  The result is whether a region was found, the flag \<open>defragmentation_needed\<close> and the region,
  the last two as they were before when the code does not set them.
\<close>

definition SelectRegionForResourceAllocation ::
  "memory_block list \<Rightarrow> nat \<Rightarrow> nat \<Rightarrow> nat \<Rightarrow> bool \<times> region option \<Rightarrow> (bool \<times> bool \<times> region option) res" where
  "SelectRegionForResourceAllocation bs sz ptr_start ptr_end out =
     (case select_loop bs sz ptr_start ptr_end 0 (reset_region bs) None of
        None \<Rightarrow> Inr (False, out)
      | Some r \<Rightarrow>
          bindR (check_region bs r) (\<lambda>needed.
            Inr (True, needed, if needed then Some r else snd out)))"

section \<open>The region for the workspace\<close>

fun ws_free_memory :: "nat \<Rightarrow> nat \<Rightarrow> memory_block list \<Rightarrow> nat \<Rightarrow> nat" where
  "ws_free_memory ptr_start ptr_end [] acc = acc"
| "ws_free_memory ptr_start ptr_end (b # bs) acc =
     (if mb_ptr b < ptr_start then ws_free_memory ptr_start ptr_end bs acc
      else if mb_ptr b \<ge> ptr_end then acc
      else if mb_state b = FIXED \<and> bs = [] then acc
      else if mb_state b = FIXED then ws_free_memory ptr_start ptr_end bs 0
      else if mb_state b \<noteq> FREE then ws_free_memory ptr_start ptr_end bs acc
      else ws_free_memory ptr_start ptr_end bs (acc + mb_actual_size b))"

definition workspace_fits :: "memory_block list \<Rightarrow> nat \<Rightarrow> bool" where
  "workspace_fits bs sz \<longleftrightarrow> bs \<noteq> [] \<and> mb_state (last bs) = FIXED \<and> mb_size (last bs) \<ge> sz"

text \<open>The loop from the last block down, \<open>i\<close> as in the code.\<close>

fun ws_region :: "memory_block list \<Rightarrow> nat \<Rightarrow> nat \<Rightarrow> region \<Rightarrow> region res" where
  "ws_region bs req 0 r = Inr r"
| "ws_region bs req (Suc idx) r =
     (if mb_state (bs ! idx) = FIXED \<and> Suc idx = length bs then
        ws_region bs req idx (r\<lparr> rg_end := idx \<rparr>)
      else if mb_state (bs ! idx) = FIXED then Inl Fatal
      else if mb_state (bs ! idx) \<noteq> FREE then
        ws_region bs req idx (r\<lparr> rg_in_use := rg_in_use r + mb_actual_size (bs ! idx) \<rparr>)
      else
        (let r = r\<lparr> rg_begin := idx, rg_free := rg_free r + mb_actual_size (bs ! idx) \<rparr>
         in if rg_free r \<ge> req then Inr r else ws_region bs req idx r))"

definition whole_region :: "memory_block list \<Rightarrow> region" where
  "whole_region bs = \<lparr> rg_begin = 0, rg_end = length bs, rg_in_use = 0, rg_free = 0 \<rparr>"

definition SelectRegionForWorkspaceGrow ::
  "defragmenter \<Rightarrow> memory_block list \<Rightarrow> nat \<Rightarrow> nat \<Rightarrow> nat \<Rightarrow> bool \<times> region option
    \<Rightarrow> (bool \<times> bool \<times> region option) res" where
  "SelectRegionForWorkspaceGrow d bs sz ptr_start ptr_end out =
     (let free_memory = ws_free_memory ptr_start ptr_end bs 0; req = sub64 sz (workspace_size d) in
      if workspace_fits bs sz then Inr (True, False, snd out)
      else if free_memory < req then Inr (False, out)
      else
        bindR (ws_region bs req (length bs) (whole_region bs)) (\<lambda>r.
        bindR (check_region bs r) (\<lambda>needed.
          Inr (True, needed, if needed then Some r else snd out))))"

text \<open>The second algorithm; \<open>None\<close> is the early return on a fixed block.\<close>

fun ws_region2 :: "memory_block list \<Rightarrow> nat \<Rightarrow> nat \<Rightarrow> region \<Rightarrow> region option" where
  "ws_region2 bs req 0 r = Some r"
| "ws_region2 bs req (Suc idx) r =
     (if mb_state (bs ! idx) = FIXED \<and> Suc idx = length bs then
        ws_region2 bs req idx (r\<lparr> rg_end := idx \<rparr>)
      else if mb_state (bs ! idx) = FIXED then None
      else
        (let n = mb_actual_size (bs ! idx);
             r = (if mb_state (bs ! idx) \<noteq> FREE then r\<lparr> rg_begin := idx, rg_in_use := rg_in_use r + n \<rparr>
                  else r\<lparr> rg_begin := idx, rg_free := rg_free r + n \<rparr>)
         in if rg_in_use r + rg_free r \<ge> req then Some r else ws_region2 bs req idx r))"

definition SelectRegionForWorkspaceGrowV2 ::
  "defragmenter \<Rightarrow> memory_block list \<Rightarrow> nat \<Rightarrow> bool \<times> region option
    \<Rightarrow> (bool \<times> bool \<times> region option) res" where
  "SelectRegionForWorkspaceGrowV2 d bs sz out =
     (if workspace_fits bs sz then Inr (True, False, snd out)
      else
        (case ws_region2 bs (sub64 sz (workspace_size d)) (length bs) (whole_region bs) of
           None \<Rightarrow> Inr (False, out)
         | Some r \<Rightarrow>
             bindR (check_region bs r) (\<lambda>needed.
               Inr (True, needed, if needed then Some r else snd out))))"

section \<open>The choice\<close>

text \<open>\<open>(n + alignment - 1) & ~(alignment - 1)\<close>, as in \<open>block_align\<close>.\<close>

definition align64 :: "nat \<Rightarrow> nat \<Rightarrow> nat" where
  "align64 al n = unat ((of_nat n + of_nat al - 1) AND NOT (of_nat al - 1) :: 64 word)"

text \<open>The last component is \<open>is_v2\<close>, which stays as it was for an allocation.\<close>

definition defrag_Run ::
  "defragmenter \<Rightarrow> memory_block list \<Rightarrow> bool \<Rightarrow> nat \<Rightarrow> bool \<times> region option \<Rightarrow> bool
    \<Rightarrow> (bool \<times> (bool \<times> region option) \<times> bool) res" where
  "defrag_Run d bs workspace_grow sz out is_v2 =
     (let sz = align64 (df_alignment d) sz;
          small_end = small_allocs_ptr d + small_allocs_size d in
      if workspace_grow then
        bindR (SelectRegionForWorkspaceGrow d bs sz small_end (mem_end_ptr d) out) (\<lambda>(found, out).
          if found then Inr (found, out, False)
          else bindR (SelectRegionForWorkspaceGrowV2 d bs sz out) (\<lambda>(found, out). Inr (found, out, True)))
      else
        bindR (if small_allocs_ptr d \<noteq> 0 \<and> sz \<le> small_allocs_threshold d then
                 SelectRegionForResourceAllocation bs sz (small_allocs_ptr d) small_end out
               else Inr (False, out)) (\<lambda>(found, out).
          if found then Inr (found, out, is_v2)
          else
            bindR (if small_allocs_ptr d = mem_start_ptr d then
                     SelectRegionForResourceAllocation bs sz small_end (mem_end_ptr d) out
                   else SelectRegionForResourceAllocation bs sz (mem_start_ptr d) (small_allocs_ptr d) out)
              (\<lambda>(found, out). Inr (found, out, is_v2))))"

end
