(* ===== verification/Device_Memory.thy ===== *)
theory Device_Memory
  imports Defragmenter
begin

text \<open>
  \<open>device_memory\<close> (\<open>device_memory.h\<close>, \<open>device_memory.cpp\<close>): PyTorch is given handles, and memory of
  the pool is taken when a handle is first turned into an address. When there is none the
  operations wait for recipes, then defragment. The counter of active recipes is that of
  \<open>device.cpp\<close>.
\<close>

section \<open>Counters\<close>

record active_recipe_counter =
  counter_state :: nat
  total_submitted :: nat
  total_freed :: nat

definition arc_increase :: "active_recipe_counter \<Rightarrow> active_recipe_counter" where
  "arc_increase c = c\<lparr> counter_state := add64 (counter_state c) 1,
     total_submitted := add64 (total_submitted c) 1 \<rparr>"

definition arc_decrease_and_notify :: "active_recipe_counter \<Rightarrow> active_recipe_counter res" where
  "arc_decrease_and_notify c =
     (if counter_state c = 0 then Inl Fatal
      else Inr (c\<lparr> counter_state := counter_state c - 1,
                   total_freed := add64 (total_freed c) 1 \<rparr>))"

definition arc_is_zero :: "active_recipe_counter \<Rightarrow> bool" where
  "arc_is_zero c \<longleftrightarrow> 0 = counter_state c"

text \<open>
  What the calling thread does not control. A wait for a recipe lets other threads run: the next
  element of \<open>next_waits\<close> is the counter after the wait and what they did to the memory; the wait
  ends after 100 ms at the latest, so an exhausted list is a loop that does not end. The next
  element of \<open>next_unlocks\<close> is what they do while the defragmenter waits for the locks.
\<close>

record 's threads =
  recipe_counter :: active_recipe_counter
  next_waits :: "(active_recipe_counter \<times> ('s \<Rightarrow> 's)) list"
  next_unlocks :: "('s \<Rightarrow> 's) list"

definition get_count :: "'s threads \<Rightarrow> nat" where
  "get_count w = counter_state (recipe_counter w)"

definition wait_for_next_decrease_call :: "'s threads \<Rightarrow> 's \<Rightarrow> (nat \<times> 's threads \<times> 's) res" where
  "wait_for_next_decrease_call w d =
     (if counter_state (recipe_counter w) > 0 then
        (case next_waits w of
           [] \<Rightarrow> Inl No_return
         | (c, f) # cs \<Rightarrow>
             Inr (counter_state c, w\<lparr> recipe_counter := c, next_waits := cs \<rparr>, f d))
      else Inr (counter_state (recipe_counter w), w, d))"

lemma wait_shorter:
  "wait_for_next_decrease_call w d = Inr (c, w', d') \<Longrightarrow>
   get_count w' = c \<and> (length (next_waits w') < length (next_waits w) \<or> get_count w = 0 \<and> c = 0)"
  by (auto simp: wait_for_next_decrease_call_def get_count_def split: if_splits list.splits)

text \<open>\<open>while (get_count() > 0) wait_for_next_decrease_call();\<close>\<close>

function (sequential) wait_recipes :: "nat \<Rightarrow> 's threads \<Rightarrow> 's \<Rightarrow> ('s threads \<times> 's) res" where
  "wait_recipes n w d =
     (if get_count w > n then
        bindR (wait_for_next_decrease_call w d) (\<lambda>(c, w, d). wait_recipes n w d)
      else Inr (w, d))"
  by pat_completeness auto
termination
  by (relation "measure (\<lambda>(n, w, d). length (next_waits w))") (auto dest: wait_shorter)

declare wait_recipes.simps [simp del]

section \<open>State\<close>

datatype PoolStrategyType = strategy_none | strategy_bump_unused | strategy_dynamic_unused
  | startegy_static_coalesce_unused | startegy_coalesce_stringent

record device_memory =
  pool_strategy :: PoolStrategyType
  dm_pool_size :: nat
  suballoc :: "pool option"
  update_on_defragment :: bool
  handle2pointer :: handles_map
  critical_section :: int
  dm_alignment :: nat

text \<open>
  The environment: the pool's, the flags, and what the calls of the Synapse library return.
  \<open>hs_copy\<close> is the success of a copy and of waiting for it.
\<close>

record host =
  hs_env :: dev_env
  hs_pool_size_flag :: nat
  hs_strategy :: PoolStrategyType
  hs_alignment :: nat
  hs_device_id :: nat
  hs_first_host :: nat
  hs_events :: event_cache
  hs_attributes :: bool
  hs_synchronize :: bool
  hs_copy :: "(nat \<times> nat \<times> nat) list \<Rightarrow> bool"
  hs_defragmentation :: bool
  hs_record_stream :: bool

type_synonym dm_threads = "device_memory threads"

definition block_align :: "device_memory \<Rightarrow> nat \<Rightarrow> nat" where
  "block_align d n = align64 (dm_alignment d) n"

definition suballocator_of :: "device_memory \<Rightarrow> pool res" where
  "suballocator_of d = (case suballoc d of None \<Rightarrow> Inl Bad_pointer | Some s \<Rightarrow> Inr s)"

section \<open>Construction\<close>

definition device_memory_new :: "host \<Rightarrow> device_memory res" where
  "device_memory_new h =
     (let sz = mul64 (mul64 (mul64 (hs_pool_size_flag h) 1024) 1024) 1024;
          d = \<lparr> pool_strategy = hs_strategy h, dm_pool_size = sz, suballoc = None,
                update_on_defragment = False, handle2pointer = HandlesMap_new,
                critical_section = 0, dm_alignment = hs_alignment h \<rparr>
      in bindR (case hs_strategy h of
                  startegy_coalesce_stringent \<Rightarrow>
                    bindR (pool_create (hs_env h) (hs_device_id h) (block_align d sz)
                             (pool_new (hs_alignment h) (hs_first_host h) (hs_events h)))
                      (\<lambda>s. Inr (d\<lparr> suballoc := Some s \<rparr>))
                | strategy_none \<Rightarrow> Inr d
                | _ \<Rightarrow> Inl Fatal) (\<lambda>d.
           if \<not> hs_attributes h then Inl Fatal else Inr d))"

definition device_memory_destroy :: "device_memory \<Rightarrow> device_memory res" where
  "device_memory_destroy d =
     bindR (case suballoc d of None \<Rightarrow> Inr None | Some s \<Rightarrow> bindR (pool_destroy s) (\<lambda>s. Inr (Some s)))
       (\<lambda>_. Inr (d\<lparr> suballoc := None \<rparr>))"

text \<open>
  The loop of \<open>reset_pool\<close> over the table. Resetting a record changes neither whether it is
  active nor another record, so the records the iterator yields are those of the table before.
\<close>

fun reset_handles :: "memory_record list \<Rightarrow> handles_map \<Rightarrow> handles_map res" where
  "reset_handles [] m = Inr m"
| "reset_handles (r # rs) m =
     (if ps_ptr (mr_ptr_size r) = 0 then reset_handles rs m
      else bindR (hm_ResetHandlesMap (mr_id r) m) (reset_handles rs))"

definition reset_pool :: "host \<Rightarrow> device_memory \<Rightarrow> device_memory res" where
  "reset_pool h d =
     bindR (case suballoc d of None \<Rightarrow> Inr None | Some s \<Rightarrow> bindR (pool_destroy s) (\<lambda>s. Inr (Some s)))
      (\<lambda>so.
     bindR (hm_records (handle2pointer d)) (\<lambda>rs.
     bindR (reset_handles rs (handle2pointer d)) (\<lambda>m.
     let sz = mul64 (mul64 (mul64 (hs_pool_size_flag h) 1024) 1024) 1024;
         d = d\<lparr> suballoc := so, handle2pointer := m, dm_pool_size := sz \<rparr>
     in case so of
          None \<Rightarrow> Inr d
        | Some s \<Rightarrow>
            bindR (pool_create (hs_env h) (hs_device_id h) sz s) (\<lambda>s. Inr (d\<lparr> suballoc := Some s \<rparr>)))))"

section \<open>Memory of the pool\<close>

text \<open>
  The overload of \<open>SubAllocator::pool_alloc_chunk\<close> with two parameters, the second of which is
  whether the memory is for a workspace. Its strategy ignores it and takes stream 0.
\<close>

definition SubAllocator_alloc :: "dev_env \<Rightarrow> nat \<Rightarrow> bool \<Rightarrow> pool \<Rightarrow> (nat \<times> pool) res" where
  "SubAllocator_alloc env sz is_workspace s = pool_alloc_workspace env sz s"

text \<open>The result is the status, the value of \<open>*v_ptr\<close>, which is \<open>v\<close> before, and the state.\<close>

definition dm_alloc ::
  "dev_env \<Rightarrow> nat \<Rightarrow> nat \<Rightarrow> bool \<Rightarrow> device_memory \<Rightarrow> (bool \<times> nat \<times> device_memory) res" where
  "dm_alloc env v sz is_workspace d =
     (if pool_strategy d \<noteq> strategy_none then
        bindR (suballocator_of d) (\<lambda>s.
        bindR (SubAllocator_alloc env (block_align d sz) is_workspace s) (\<lambda>(p, s).
          Inr (p \<noteq> 0, p, d\<lparr> suballoc := Some s \<rparr>)))
      else
        (case de_malloc env sz of None \<Rightarrow> Inr (False, v, d) | Some p \<Rightarrow> Inr (True, p, d)))"

text \<open>
  The overload of \<open>alloc\<close> for a stream calls \<open>pool_alloc_chunk(block_align(size), stream)\<close> with two
  arguments: the stream is converted to the parameter \<open>is_workspace\<close>.
\<close>

definition dm_alloc_stream ::
  "dev_env \<Rightarrow> nat \<Rightarrow> nat \<Rightarrow> nat \<Rightarrow> device_memory \<Rightarrow> (bool \<times> nat \<times> device_memory) res" where
  "dm_alloc_stream env v sz stream d =
     (if pool_strategy d \<noteq> strategy_none then
        bindR (suballocator_of d) (\<lambda>s.
        bindR (SubAllocator_alloc env (block_align d sz) (stream \<noteq> 0) s) (\<lambda>(p, s).
          Inr (p \<noteq> 0, p, d\<lparr> suballoc := Some s \<rparr>)))
      else
        (case de_malloc env sz of None \<Rightarrow> Inr (False, v, d) | Some p \<Rightarrow> Inr (True, p, d)))"

text \<open>The status of \<open>synDeviceFree\<close> is only logged: the outer status stays success.\<close>

definition dm_deallocate :: "dev_env \<Rightarrow> nat \<Rightarrow> device_memory \<Rightarrow> device_memory res" where
  "dm_deallocate env ptr d =
     (if ptr = 0 then Inr d
      else if pool_strategy d \<noteq> strategy_none then
        bindR (suballocator_of d) (\<lambda>s.
        bindR (pool_free_chunk env ptr s) (\<lambda>s. Inr (d\<lparr> suballoc := Some s \<rparr>)))
      else Inr d)"

section \<open>Handles\<close>

definition dm_malloc_stream ::
  "dev_env \<Rightarrow> 64 word \<Rightarrow> nat \<Rightarrow> device_memory \<Rightarrow> (bool \<times> 64 word \<times> device_memory) res" where
  "dm_malloc_stream env sz stream d =
     (if pool_strategy d = startegy_coalesce_stringent then
        bindR (hm_Insert sz stream (handle2pointer d)) (\<lambda>(i, m).
        bindR (reinterpret_to_pointer \<lparr> mh_id = i, mh_offset = 0 \<rparr>) (\<lambda>p.
          Inr (True, p, d\<lparr> handle2pointer := m \<rparr>)))
      else
        bindR (dm_alloc env 0 (unat sz) False d) (\<lambda>(ok, p, d). Inr (ok, of_nat p, d)))"

definition dm_malloc :: "dev_env \<Rightarrow> 64 word \<Rightarrow> device_memory \<Rightarrow> (bool \<times> 64 word \<times> device_memory) res" where
  "dm_malloc env sz d =
     (if pool_strategy d = startegy_coalesce_stringent then
        bindR (hm_Insert sz 0 (handle2pointer d)) (\<lambda>(i, m).
        bindR (reinterpret_to_pointer \<lparr> mh_id = i, mh_offset = 0 \<rparr>) (\<lambda>p.
          Inr (True, p, d\<lparr> handle2pointer := m \<rparr>)))
      else
        bindR (dm_alloc env 0 (unat sz) False d) (\<lambda>(ok, p, d). Inr (ok, of_nat p, d)))"

text \<open>\<open>is_stream_uses_empty\<close> is asked before the memory is given back.\<close>

definition dm_free_with_stream :: "dev_env \<Rightarrow> 64 word \<Rightarrow> device_memory \<Rightarrow> device_memory res" where
  "dm_free_with_stream env ptr d =
     (if ptr = 0 then Inr d
      else if pool_strategy d = startegy_coalesce_stringent then
        bindR (reinterpret_from_pointer ptr) (\<lambda>h.
        if mh_offset h \<noteq> 0 then Inl Fatal
        else
          bindR (hm_checkIdIsReset (mh_id h) (handle2pointer d)) (\<lambda>(was_reset, m).
          let d = d\<lparr> handle2pointer := m \<rparr> in
          if was_reset then Inr d
          else
            bindR (hm_GetPtrSize (mh_id h) m) (\<lambda>ps.
            bindR (if ps_ptr ps \<noteq> 0 then
                     bindR (suballocator_of d) (\<lambda>s.
                     bindR (is_stream_uses_empty (ps_ptr ps) s) (\<lambda>e.
                     bindR (dm_deallocate env (ps_ptr ps) d) (\<lambda>d. Inr (e, d))))
                   else Inr (True, d)) (\<lambda>(e, d).
            if e then
              bindR (hm_Erase (mh_id h) (handle2pointer d)) (\<lambda>m. Inr (d\<lparr> handle2pointer := m \<rparr>))
            else Inr d))))
      else dm_deallocate env (unat ptr) d)"

definition dm_free :: "dev_env \<Rightarrow> 64 word \<Rightarrow> device_memory \<Rightarrow> device_memory res" where
  "dm_free env ptr d =
     (if ptr = 0 then Inr d
      else if pool_strategy d = startegy_coalesce_stringent then
        bindR (reinterpret_from_pointer ptr) (\<lambda>h.
        if mh_offset h \<noteq> 0 then Inl Fatal
        else
          bindR (hm_checkIdIsReset (mh_id h) (handle2pointer d)) (\<lambda>(was_reset, m).
          let d = d\<lparr> handle2pointer := m \<rparr> in
          if was_reset then Inr d
          else
            bindR (hm_GetPtrSize (mh_id h) m) (\<lambda>ps.
            bindR (hm_Erase (mh_id h) m) (\<lambda>m.
            let d = d\<lparr> handle2pointer := m \<rparr> in
            if ps_ptr ps \<noteq> 0 then dm_deallocate env (ps_ptr ps) d else Inr d))))
      else dm_deallocate env (unat ptr) d)"

definition dm_recordStream :: "host \<Rightarrow> 64 word \<Rightarrow> nat \<Rightarrow> device_memory \<Rightarrow> device_memory res" where
  "dm_recordStream h ptr stream d =
     (if ptr = 0 then Inr d
      else if pool_strategy d = startegy_coalesce_stringent \<and> hs_record_stream h then
        bindR (reinterpret_from_pointer ptr) (\<lambda>mh.
        if mh_offset mh \<noteq> 0 then Inl Fatal
        else
          bindR (hm_GetPtrSize (mh_id mh) (handle2pointer d)) (\<lambda>ps.
          bindR (suballocator_of d) (\<lambda>s.
          bindR (record_stream (hs_env h) (ps_ptr ps) stream s) (\<lambda>s.
            Inr (d\<lparr> suballoc := Some s \<rparr>)))))
      else Inr d)"

definition is_allocated :: "64 word \<Rightarrow> device_memory \<Rightarrow> bool res" where
  "is_allocated address d =
     bindR (reinterpret_from_pointer address) (\<lambda>h.
     if \<not> is_valid (mh_id h) then Inr False
     else bindR (hm_GetPtrSize (mh_id h) (handle2pointer d)) (\<lambda>ps. Inr (ps_ptr ps \<noteq> 0)))"

definition workspace_free :: "dev_env \<Rightarrow> nat \<Rightarrow> device_memory \<Rightarrow> device_memory res" where
  "workspace_free env ptr d = dm_deallocate env ptr d"

end
