(* ===== verification/Device_Address.thy ===== *)
theory Device_Address
  imports Device_Memory
begin

text \<open>
  The part of \<open>device_memory.cpp\<close> that turns handles into addresses: moving memory to make room,
  the waits when there is none, locking addresses for a recipe, and the workspace.
\<close>

section \<open>Moving memory\<close>

record handle_mover =
  hv_handle :: "64 word"
  hv_source :: nat
  hv_destination :: nat
  hv_size :: nat
  hv_actual_size :: nat
  hv_stream :: nat

definition moveRequired :: "handle_mover \<Rightarrow> bool" where
  "moveRequired v \<longleftrightarrow> hv_source v \<noteq> hv_destination v"

definition mover_Deallocate :: "dev_env \<Rightarrow> handle_mover \<Rightarrow> pool \<Rightarrow> pool res" where
  "mover_Deallocate env v s =
     (if hv_source v = 0 then Inl Fatal else pool_free_chunk env (hv_source v) s)"

definition mover_Allocate ::
  "dev_env \<Rightarrow> handle_mover \<Rightarrow> pool \<Rightarrow> handles_map \<Rightarrow> (handle_mover \<times> pool \<times> handles_map) res" where
  "mover_Allocate env v s m =
     bindR (pool_alloc_chunk env (hv_actual_size v) (hv_stream v) False s) (\<lambda>(p, s).
     if p = 0 then Inl Fatal
     else
       bindR (hm_SetPtrSize (hv_handle v)
                \<lparr> ps_ptr = p, ps_size = of_nat (hv_size v), ps_stream = hv_stream v \<rparr> m) (\<lambda>m.
         Inr (v\<lparr> hv_destination := p \<rparr>, s, m)))"

text \<open>The copies for a move: two when the source and the destination overlap.\<close>

definition move_pieces :: "nat \<Rightarrow> nat \<Rightarrow> nat \<Rightarrow> (nat \<times> nat \<times> nat) list" where
  "move_pieces src dst n =
     (let src_end = add64 src n; dst_end = add64 dst n
      in if \<not> (dst_end \<le> src \<or> src_end \<le> dst) then
           (let size_base = sub64 dst_end src
            in [(src, dst, size_base), (add64 src size_base, add64 dst size_base, sub64 n size_base)])
         else [(src, dst, n)])"

fun make_movers :: "device_memory \<Rightarrow> memory_block list \<Rightarrow> handle_mover list res" where
  "make_movers d [] = Inr []"
| "make_movers d (b # bs) =
     (if mb_state b = FIXED then Inl Fatal
      else if mb_state b = FREE then make_movers d bs
      else
        bindR (make_movers d bs) (\<lambda>vs.
          Inr (\<lparr> hv_handle = mb_handle b, hv_source = mb_ptr b, hv_destination = 0,
                 hv_size = mb_size b, hv_actual_size = block_align d (mb_size b),
                 hv_stream = mb_stream b \<rparr> # vs)))"

fun deallocate_movers :: "dev_env \<Rightarrow> handle_mover list \<Rightarrow> pool \<Rightarrow> pool res" where
  "deallocate_movers env [] s = Inr s"
| "deallocate_movers env (v # vs) s = bindR (mover_Deallocate env v s) (deallocate_movers env vs)"

text \<open>Moving up onto itself is refused. The last result lists the copies.\<close>

fun allocate_movers ::
  "dev_env \<Rightarrow> handle_mover list \<Rightarrow> pool \<Rightarrow> handles_map \<Rightarrow> (pool \<times> handles_map \<times> (nat \<times> nat \<times> nat) list) res"
where
  "allocate_movers env [] s m = Inr (s, m, [])"
| "allocate_movers env (v # vs) s m =
     bindR (mover_Allocate env v s m) (\<lambda>(v, s, m).
     if \<not> moveRequired v then allocate_movers env vs s m
     else if hv_source v < hv_destination v \<and> hv_source v + hv_actual_size v > hv_destination v
     then Inl Fatal
     else
       bindR (allocate_movers env vs s m) (\<lambda>(s, m, cs).
         Inr (s, m, move_pieces (hv_source v) (hv_destination v) (hv_actual_size v) @ cs)))"

definition MoveData :: "host \<Rightarrow> (nat \<times> nat \<times> nat) list \<Rightarrow> unit res" where
  "MoveData h move_address = (if \<not> hs_copy h move_address then Inl Fatal else Inr ())"

text \<open>From the movers on: free and allocate, or the other way round, and copy.\<close>

definition run_movers ::
  "host \<Rightarrow> bool \<Rightarrow> handle_mover list \<Rightarrow> pool \<Rightarrow> handles_map \<Rightarrow> (pool \<times> handles_map) res" where
  "run_movers h alloc_first vs s m =
     (let env = hs_env h; s = set_defragmenter_state True s in
      bindR (if \<not> alloc_first then deallocate_movers env vs s else Inr s) (\<lambda>s.
      bindR (allocate_movers env vs s m) (\<lambda>(s, m, cs).
      bindR (MoveData h cs) (\<lambda>_.
      bindR (if alloc_first then deallocate_movers env vs s else Inr s) (\<lambda>s.
        Inr (set_defragmenter_state False s, m))))))"

text \<open>\<open>threads_in_defragmenter_critical_section_->wait_for(2s)\<close>\<close>

definition wait_for_unlocks :: "dm_threads \<Rightarrow> device_memory \<Rightarrow> bool \<times> dm_threads \<times> device_memory" where
  "wait_for_unlocks w d =
     (if critical_section d = 0 then (True, w, d)
      else
        (case next_unlocks w of
           [] \<Rightarrow> (False, w, d)
         | f # fs \<Rightarrow> (critical_section (f d) = 0, w\<lparr> next_unlocks := fs \<rparr>, f d)))"

text \<open>\<open>catch (const std::exception& e)\<close> of \<open>defragment_memory\<close>, which throws again.\<close>

definition catch_fatal :: "'a res \<Rightarrow> 'a res" where
  "catch_fatal r =
     (case r of Inl Assert_failed \<Rightarrow> Inl Fatal | Inl Out_of_range \<Rightarrow> Inl Fatal | _ \<Rightarrow> r)"

text \<open>
  \<open>defragment_memory\<close> once the other threads have left: the plan and the moves. The result is
  \<open>false\<close> when nothing could be done. \<open>is_v2\<close> is not initialised, and only read for a workspace,
  when \<open>Run\<close> sets it.
\<close>

definition defragment_now :: "host \<Rightarrow> nat \<Rightarrow> nat \<Rightarrow> bool \<Rightarrow> device_memory \<Rightarrow> (bool \<times> device_memory) res" where
  "defragment_now h al allocation_size workspace_grow d =
     bindR (suballocator_of d) (\<lambda>s.
     bindR (MemoryDefragementer_new s al) (\<lambda>df.
     bindR (catch_fatal (CollectMemoryInformation df s (handle2pointer d))) (\<lambda>(valid, bs).
     if \<not> valid then Inr (False, d)
     else
       bindR (defrag_Run df bs workspace_grow allocation_size (True, None) False)
         (\<lambda>(found, (needed, region), is_v2).
       if \<not> found then Inr (False, d)
       else if \<not> needed then Inr (True, d)
       else
         (case region of
            None \<Rightarrow> Inr (False, d)
          | Some r \<Rightarrow>
              bindR (make_movers d (region_blocks bs (rg_begin r) (rg_end r))) (\<lambda>vs.
              if vs = [] then Inr (True, d)
              else
                bindR (run_movers h (workspace_grow \<and> is_v2) vs s (handle2pointer d)) (\<lambda>(s, m).
                  Inr (True, d\<lparr> suballoc := Some s, handle2pointer := m \<rparr>))))))))"

definition defragment_memory ::
  "host \<Rightarrow> nat \<Rightarrow> nat \<Rightarrow> bool \<Rightarrow> dm_threads \<Rightarrow> device_memory \<Rightarrow> (bool \<times> dm_threads \<times> device_memory) res"
where
  "defragment_memory h al allocation_size workspace_grow w d =
     (if \<not> hs_synchronize h then Inl Fatal
      else
        (let (drained, w, d) = wait_for_unlocks w d in
         if \<not> drained then Inl Fatal
         else
           bindR (defragment_now h al allocation_size workspace_grow d) (\<lambda>(ok, d). Inr (ok, w, d))))"

text \<open>
  The times of the defragmentations of the last five minutes, oldest first: \<open>now\<close> is added, those
  before \<open>threshold\<close> are dropped, and the second result is whether the warning is given.
\<close>

definition log_defragmentation ::  "nat \<Rightarrow> nat \<Rightarrow> nat list \<Rightarrow> nat list \<times> bool" where
  "log_defragmentation now threshold ts =
     (let ts = dropWhile (\<lambda>t. t < threshold) (ts @ [now]) in (ts, length ts = 100))"

section \<open>Addresses of handles\<close>

definition get_and_alloc_mem :: "dev_env \<Rightarrow> 64 word \<Rightarrow> device_memory \<Rightarrow> (nat \<times> 64 word \<times> device_memory) res" where
  "get_and_alloc_mem env i d =
     bindR (hm_GetPtrSize i (handle2pointer d)) (\<lambda>ps.
     if ps_ptr ps = 0 then
       bindR (dm_alloc_stream env (ps_ptr ps) (unat (ps_size ps)) (ps_stream ps) d) (\<lambda>(ok, p, d).
       bindR (hm_SetPtrSize i (ps\<lparr> ps_ptr := p \<rparr>) (handle2pointer d)) (\<lambda>m.
         Inr (p, ps_size ps, d\<lparr> handle2pointer := m \<rparr>)))
     else Inr (ps_ptr ps, ps_size ps, d))"

text \<open>\<open>do { wait; retry } while (counter_state > 0 && ptr == nullptr)\<close>\<close>

function (sequential) retry_alloc ::
  "dev_env \<Rightarrow> 64 word \<Rightarrow> dm_threads \<Rightarrow> device_memory \<Rightarrow> (nat \<times> 64 word \<times> dm_threads \<times> device_memory) res"
where
  "retry_alloc env i w d =
     bindR (wait_for_next_decrease_call w d) (\<lambda>(c, w, d).
     bindR (get_and_alloc_mem env i d) (\<lambda>(p, sz, d).
       if c > 0 \<and> p = 0 then retry_alloc env i w d else Inr (p, sz, w, d)))"
  by pat_completeness auto
termination
  by (relation "measure (\<lambda>(env, i, w, d). length (next_waits w))") (auto dest: wait_shorter)

declare retry_alloc.simps [simp del]

definition alloc_or_wait ::
  "dev_env \<Rightarrow> 64 word \<Rightarrow> dm_threads \<Rightarrow> device_memory \<Rightarrow> (nat \<times> 64 word \<times> dm_threads \<times> device_memory) res"
where
  "alloc_or_wait env i w d =
     bindR (get_and_alloc_mem env i d) (\<lambda>(p, sz, d).
       if p = 0 \<and> get_count w > 0 then retry_alloc env i w d else Inr (p, sz, w, d))"

definition alloc_or_defragment ::
  "host \<Rightarrow> 64 word \<Rightarrow> dm_threads \<Rightarrow> device_memory \<Rightarrow> (nat \<times> 64 word \<times> dm_threads \<times> device_memory) res"
where
  "alloc_or_defragment h i w d =
     bindR (alloc_or_wait (hs_env h) i w d) (\<lambda>(p, sz, w, d).
     if p = 0 then
       bindR (if hs_defragmentation h then defragment_memory h (dm_alignment d) (unat sz) False w d
              else Inr (False, w, d)) (\<lambda>(ok, w, d).
       if ok then
         bindR (get_and_alloc_mem (hs_env h) i d) (\<lambda>(p, sz, d).
           Inr (p, sz, w, d\<lparr> update_on_defragment := True \<rparr>))
       else Inr (p, sz, w, d))
     else Inr (p, sz, w, d))"

definition get_pointer ::
  "host \<Rightarrow> mem_handle \<Rightarrow> dm_threads \<Rightarrow> device_memory \<Rightarrow> (nat \<times> dm_threads \<times> device_memory) res" where
  "get_pointer h mh w d =
     (if \<not> is_valid (mh_id mh) then Inr (0, w, d)
      else
        bindR (alloc_or_defragment h (mh_id mh) w d) (\<lambda>(p, sz, w, d).
        if p = 0 then Inl Fatal
        else if mh_offset mh \<ge> sz then Inl Fatal
        else if dm_alignment d = 0 then Inl Undefined
        else if p mod dm_alignment d \<noteq> 0 then Inl Fatal
        else Inr (add64 p (unat (mh_offset mh)), w, d)))"

definition fix_address ::
  "host \<Rightarrow> 64 word \<Rightarrow> dm_threads \<Rightarrow> device_memory \<Rightarrow> (nat \<times> dm_threads \<times> device_memory) res" where
  "fix_address h ptr w d =
     (if ptr = 0 then Inl Fatal
      else if pool_strategy d = startegy_coalesce_stringent then
        bindR (reinterpret_from_pointer ptr) (\<lambda>mh.
        if mh_offset mh \<noteq> 0 then Inl Fatal
        else
          bindR (hm_MarkMemoryFixed (mh_id mh) (handle2pointer d)) (\<lambda>m.
            get_pointer h mh w (d\<lparr> handle2pointer := m \<rparr>)))
      else Inr (unat ptr, w, d))"

section \<open>Locking addresses for a recipe\<close>

text \<open>\<open>umap_addr\<close>: the sizes of the handles without memory, each handle once.\<close>

fun missing_sizes :: "64 word list \<Rightarrow> handles_map \<Rightarrow> (64 word \<times> 64 word) list \<Rightarrow> (64 word \<times> 64 word) list res" where
  "missing_sizes [] m acc = Inr acc"
| "missing_sizes (a # as) m acc =
     bindR (reinterpret_from_pointer a) (\<lambda>h.
     if \<not> is_valid (mh_id h) then missing_sizes as m acc
     else
       bindR (hm_GetPtrSize (mh_id h) m) (\<lambda>ps.
       missing_sizes as m
         (if ps_ptr ps = 0 \<and> map_of acc (mh_id h) = None then acc @ [(mh_id h, ps_size ps)] else acc)))"

definition get_total_memory_required :: "64 word list \<Rightarrow> device_memory \<Rightarrow> nat res" where
  "get_total_memory_required addresses d =
     (if pool_strategy d = startegy_coalesce_stringent then
        bindR (missing_sizes addresses (handle2pointer d) []) (\<lambda>us.
          Inr (fold (\<lambda>(i, n) total. add64 total (block_align d (unat n))) us 0))
      else Inr 0)"

definition pool_has :: "nat \<Rightarrow> device_memory \<Rightarrow> bool res" where
  "pool_has n d = bindR (suballocator_of d) (\<lambda>s. Inr (is_memory_available n s))"

function (sequential) limit_recipes ::
  "nat \<Rightarrow> dm_threads \<Rightarrow> device_memory \<Rightarrow> (dm_threads \<times> device_memory) res" where
  "limit_recipes n w d =
     bindR (wait_for_next_decrease_call w d) (\<lambda>(c, w, d).
     bindR (pool_has n d) (\<lambda>available.
       if available then Inr (w, d)
       else if c > 0 then limit_recipes n w d else Inr (w, d)))"
  by pat_completeness auto
termination
  by (relation "measure (\<lambda>(n, w, d). length (next_waits w))") (auto dest: wait_shorter)

declare limit_recipes.simps [simp del]

definition check_and_limit_recipe_execution ::
  "nat \<Rightarrow> dm_threads \<Rightarrow> device_memory \<Rightarrow> (dm_threads \<times> device_memory) res" where
  "check_and_limit_recipe_execution n w d =
     (if get_count w > 0 \<and> n > dm_alignment d then
        bindR (pool_has n d) (\<lambda>available. if \<not> available then limit_recipes n w d else Inr (w, d))
      else Inr (w, d))"

fun translate ::
  "host \<Rightarrow> 64 word list \<Rightarrow> dm_threads \<Rightarrow> device_memory \<Rightarrow> (nat list \<times> dm_threads \<times> device_memory) res"
where
  "translate h [] w d = Inr ([], w, d)"
| "translate h (a # as) w d =
     bindR (reinterpret_from_pointer a) (\<lambda>mh.
     bindR (get_pointer h mh w d) (\<lambda>(p, w, d).
     bindR (translate h as w d) (\<lambda>(ps, w, d). Inr (p # ps, w, d))))"

text \<open>The lock that is returned is its list of addresses; making it increments the counter.\<close>

definition lock_addresses ::
  "host \<Rightarrow> 64 word list \<Rightarrow> dm_threads \<Rightarrow> device_memory \<Rightarrow> (nat list \<times> dm_threads \<times> device_memory) res"
where
  "lock_addresses h addresses w d =
     bindR (get_total_memory_required addresses d) (\<lambda>total_mem.
     bindR (check_and_limit_recipe_execution total_mem w d) (\<lambda>(w, d).
     if pool_strategy d = startegy_coalesce_stringent then
       bindR (translate h addresses w d) (\<lambda>(out, w, d).
       bindR (if update_on_defragment d then translate h addresses w d else Inr (out, w, d))
         (\<lambda>(out, w, d).
         Inr (out, w, d\<lparr> update_on_defragment := False, critical_section := critical_section d + 1 \<rparr>)))
     else Inr (map unat addresses, w, d\<lparr> critical_section := critical_section d + 1 \<rparr>)))"

definition unlock_addresses :: "device_memory \<Rightarrow> device_memory" where
  "unlock_addresses d = d\<lparr> critical_section := critical_section d - 1 \<rparr>"

section \<open>The workspace\<close>

definition extend_workspace :: "nat \<Rightarrow> nat \<Rightarrow> device_memory \<Rightarrow> (nat \<times> device_memory) res" where
  "extend_workspace n cur d =
     bindR (suballocator_of d) (\<lambda>s.
     bindR (extend_high_memory_allocation n cur s) (\<lambda>(p, s). Inr (p, d\<lparr> suballoc := Some s \<rparr>)))"

text \<open>The branch of the other strategies: whole chunks of \<open>alignment_\<close> megabytes.\<close>

definition workspace_alloc_chunks ::
  "dev_env \<Rightarrow> nat \<Rightarrow> nat \<Rightarrow> nat \<Rightarrow> dm_threads \<Rightarrow> device_memory \<Rightarrow> (nat \<times> nat \<times> dm_threads \<times> device_memory) res"
where
  "workspace_alloc_chunks env ptr ws_size req_size w d =
     (let chunk_size = mul64 (mul64 (dm_alignment d) 1024) 1024 in
      if chunk_size = 0 then Inl Undefined
      else
        (let actual_size = mul64 (req_size div chunk_size + 1) chunk_size in
         if ws_size \<ge> actual_size then Inr (ptr, ws_size, w, d)
         else
           bindR (wait_recipes 0 w d) (\<lambda>(w, d).
           bindR (dm_deallocate env ptr d) (\<lambda>d.
           bindR (dm_alloc env 0 actual_size True d) (\<lambda>(ok, v, d).
             Inr (v, actual_size, w, d))))))"

definition workspace_alloc ::
  "host \<Rightarrow> nat \<Rightarrow> nat \<Rightarrow> nat \<Rightarrow> dm_threads \<Rightarrow> device_memory \<Rightarrow> (nat \<times> nat \<times> dm_threads \<times> device_memory) res"
where
  "workspace_alloc h ptr ws_size req_size w d =
     (if pool_strategy d \<noteq> startegy_coalesce_stringent then
        workspace_alloc_chunks (hs_env h) ptr ws_size req_size w d
      else if ws_size \<ge> req_size \<and> ptr \<noteq> 0 then Inr (ptr, ws_size, w, d)
      else
        (let n = block_align d req_size in
         bindR (extend_workspace n ws_size d) (\<lambda>(v, d).
         bindR (if v = 0 then
                  bindR (wait_recipes 0 w d) (\<lambda>(w, d).
                  bindR (extend_workspace n ws_size d) (\<lambda>(v, d). Inr (v, w, d)))
                else Inr (v, w, d)) (\<lambda>(v, w, d).
         bindR (if v = 0 \<and> hs_defragmentation h
                then defragment_memory h (dm_alignment d) req_size True w d
                else Inr (False, w, d)) (\<lambda>(defragmentation_done, w, d).
         bindR (if defragmentation_done then extend_workspace n ws_size d else Inr (v, d)) (\<lambda>(v, d).
           Inr (v, if v \<noteq> 0 then n else ws_size, w, d)))))))"

section \<open>Statistics and queries\<close>

definition dm_get_memory_stats ::
  "(nat \<Rightarrow> nat \<Rightarrow> nat) \<Rightarrow> bool \<Rightarrow> device_memory \<Rightarrow> (mem_stats option \<times> device_memory) res" where
  "dm_get_memory_stats frag log_info d =
     (if pool_strategy d \<noteq> strategy_none then
        bindR (suballocator_of d) (\<lambda>s.
        bindR (get_stats frag log_info s) (\<lambda>(st, s). Inr (Some st, d\<lparr> suballoc := Some s \<rparr>)))
      else Inr (None, d))"

definition dm_get_occupied_chunk_map :: "device_memory \<Rightarrow> (nat \<times> nat) list res" where
  "dm_get_occupied_chunk_map d =
     (if pool_strategy d \<noteq> strategy_none then bindR (suballocator_of d) get_occupied_chunk_map
      else Inr [])"

definition dm_clear_memory_stats :: "device_memory \<Rightarrow> device_memory res" where
  "dm_clear_memory_stats d =
     (if pool_strategy d \<noteq> strategy_none then
        bindR (suballocator_of d) (\<lambda>s. Inr (d\<lparr> suballoc := Some (clear_stats s) \<rparr>))
      else Inr d)"

definition dm_reset_peak_memory_stats :: "device_memory \<Rightarrow> device_memory res" where
  "dm_reset_peak_memory_stats d =
     (if pool_strategy d \<noteq> strategy_none then
        bindR (suballocator_of d) (\<lambda>s. Inr (d\<lparr> suballoc := Some (reset_peak_mem_stats s) \<rparr>))
      else Inr d)"

definition dm_is_memory_available ::
  "nat \<Rightarrow> dm_threads \<Rightarrow> device_memory \<Rightarrow> (bool \<times> dm_threads \<times> device_memory) res" where
  "dm_is_memory_available n w d =
     (if pool_strategy d \<noteq> strategy_none then
        bindR (check_and_limit_recipe_execution n w d) (\<lambda>(w, d).
        bindR (pool_has n d) (\<lambda>available. Inr (available, w, d)))
      else Inr (True, w, d))"

definition dm_is_memory_available_ws :: "nat \<Rightarrow> nat \<Rightarrow> nat \<Rightarrow> device_memory \<Rightarrow> bool res" where
  "dm_is_memory_available_ws persistent_size curr_ws_size new_ws_size d =
     (if pool_strategy d \<noteq> strategy_none then
        bindR (suballocator_of d) (\<lambda>s.
          Inr (is_memory_available_ws persistent_size curr_ws_size new_ws_size s))
      else Inr True)"

end
