(* ===== verification/Device_Users.thy ===== *)
theory Device_Users
  imports Device_Address
begin

text \<open>
  The users of \<open>device_memory\<close>: the workspace buffer of \<open>device\<close> (\<open>device.cpp\<close>) and the allocator
  that PyTorch calls for tensors (\<open>HPUAllocator.cpp\<close>).
\<close>

section \<open>The workspace buffer of the device\<close>

text \<open>\<open>workspace_usage_\<close> is a \<open>std::map\<close> from sizes to counts: a list ordered by size.\<close>

record device_workspace =
  workspace_buffer :: nat
  device_workspace_size :: nat
  real_workspace_size :: nat
  workspace_usage :: "(nat \<times> nat) list"

fun usage_insert :: "nat \<Rightarrow> nat \<Rightarrow> (nat \<times> nat) list \<Rightarrow> (nat \<times> nat) list" where
  "usage_insert k v [] = [(k, v)]"
| "usage_insert k v ((k', v') # us) =
     (if k < k' then (k, v) # (k', v') # us
      else if k = k' then (k, v) # us
      else (k', v') # usage_insert k v us)"

definition get_workspace_buffer ::
  "host \<Rightarrow> nat \<Rightarrow> device_workspace \<Rightarrow> dm_threads \<Rightarrow> device_memory
    \<Rightarrow> (nat \<times> device_workspace \<times> dm_threads \<times> device_memory) res" where
  "get_workspace_buffer h n b w d =
     (if n = 0 then Inr (0, b, w, d)
      else
        bindR (workspace_alloc h (workspace_buffer b) (device_workspace_size b) n w d) (\<lambda>(p, sz, w, d).
        if p = 0 then Inl Fatal
        else
          (let usage_cnt = (case map_of (workspace_usage b) n of None \<Rightarrow> 0 | Some c \<Rightarrow> c) in
           Inr (p, b\<lparr> workspace_buffer := p, device_workspace_size := sz,
                      workspace_usage := usage_insert n ((usage_cnt + 1) mod 2 ^ 32) (workspace_usage b),
                      real_workspace_size := n \<rparr>, w, d))))"

fun least_usage :: "nat \<Rightarrow> nat \<Rightarrow> (nat \<times> nat) list \<Rightarrow> nat \<Rightarrow> nat \<Rightarrow> nat" where
  "least_usage req cur [] least rank = least"
| "least_usage req cur ((k, v) # us) least rank =
     (if k \<ge> req \<and> k < cur \<and> v > rank then least_usage req cur us k v
      else least_usage req cur us least rank)"

definition get_least_workspace_size :: "nat \<Rightarrow> nat \<Rightarrow> device_workspace \<Rightarrow> device_memory \<Rightarrow> nat res" where
  "get_least_workspace_size persistent_size req b d =
     (let cur = device_workspace_size b;
          least = (if length (workspace_usage b) > 1 then least_usage req cur (workspace_usage b) 0 0 else 0)
      in if least > req then
           bindR (dm_is_memory_available_ws persistent_size cur least d) (\<lambda>available.
             Inr (if available then least else req))
         else Inr req)"

definition cleanup_workspace_buffer ::
  "host \<Rightarrow> device_workspace \<Rightarrow> dm_threads \<Rightarrow> device_memory
    \<Rightarrow> (device_workspace \<times> dm_threads \<times> device_memory) res" where
  "cleanup_workspace_buffer h b w d =
     (if device_workspace_size b = 0 then Inr (b, w, d)
      else
        bindR (wait_recipes 1 w d) (\<lambda>(w, d).
        bindR (workspace_free (hs_env h) (workspace_buffer b) d) (\<lambda>d.
          Inr (b\<lparr> workspace_buffer := 0, device_workspace_size := 0 \<rparr>, w, d))))"

section \<open>The allocator of tensors\<close>

definition tensor_malloc :: "host \<Rightarrow> nat \<Rightarrow> nat \<Rightarrow> device_memory \<Rightarrow> (bool \<times> 64 word \<times> device_memory) res" where
  "tensor_malloc h n stream d =
     (if hs_record_stream h then dm_malloc_stream (hs_env h) (of_nat n) stream d
      else dm_malloc (hs_env h) (of_nat n) d)"

text \<open>The counter is a \<open>uint32_t\<close> here.\<close>

function (sequential) retry_malloc ::
  "host \<Rightarrow> nat \<Rightarrow> nat \<Rightarrow> dm_threads \<Rightarrow> device_memory
    \<Rightarrow> (bool \<times> 64 word \<times> dm_threads \<times> device_memory) res" where
  "retry_malloc h n stream w d =
     bindR (wait_for_next_decrease_call w d) (\<lambda>(c, w, d).
     bindR (tensor_malloc h n stream d) (\<lambda>(ok, p, d).
       if c mod 2 ^ 32 > 1 \<and> p = 0 then retry_malloc h n stream w d else Inr (ok, p, w, d)))"
  by pat_completeness auto
termination
  by (relation "measure (\<lambda>(h, n, stream, w, d). length (next_waits w))") (auto dest: wait_shorter)

declare retry_malloc.simps [simp del]

definition waitTillRecipeExecution ::
  "host \<Rightarrow> nat \<Rightarrow> nat \<Rightarrow> 64 word \<Rightarrow> dm_threads \<Rightarrow> device_memory
    \<Rightarrow> (bool \<times> 64 word \<times> dm_threads \<times> device_memory) res" where
  "waitTillRecipeExecution h n stream v w d =
     (if \<not> arc_is_zero (recipe_counter w) then retry_malloc h n stream w d else Inr (False, v, w, d))"

text \<open>
  \<open>active\<close> is \<open>allocator_active_device_id == 0\<close>. \<open>TORCH_CHECK\<close> throws, as \<open>TORCH_HABANA_CHECK\<close>
  does for a status that is not success.
\<close>

definition tensor_allocate ::
  "host \<Rightarrow> bool \<Rightarrow> nat \<Rightarrow> nat \<Rightarrow> dm_threads \<Rightarrow> device_memory
    \<Rightarrow> (64 word \<times> dm_threads \<times> device_memory) res" where
  "tensor_allocate h active n stream w d =
     (if \<not> active then Inl Fatal
      else if n = 0 then Inr (0, w, d)
      else
        bindR (tensor_malloc h n stream d) (\<lambda>(ok, p, d).
        bindR (if p = 0 then waitTillRecipeExecution h n stream p w d else Inr (ok, p, w, d))
          (\<lambda>(ok, p, w, d).
        if \<not> ok then Inl Fatal else if p = 0 then Inl Fatal else Inr (p, w, d))))"

text \<open>\<open>deleter\<close>: the address the context of the allocation holds, 0 when there is none.\<close>

definition tensor_delete :: "host \<Rightarrow> bool \<Rightarrow> 64 word \<Rightarrow> device_memory \<Rightarrow> device_memory res" where
  "tensor_delete h acquired ptr d =
     (if \<not> acquired then Inr d
      else if hs_record_stream h then dm_free_with_stream (hs_env h) ptr d
      else dm_free (hs_env h) ptr d)"

definition tensor_recordStream :: "host \<Rightarrow> bool \<Rightarrow> bool \<Rightarrow> 64 word \<Rightarrow> nat \<Rightarrow> device_memory \<Rightarrow> device_memory res" where
  "tensor_recordStream h own active ptr stream d =
     (if \<not> hs_record_stream h then Inr d
      else if ptr = 0 then Inr d
      else if \<not> own then Inr d
      else if \<not> active then Inr d
      else dm_recordStream h ptr stream d)"

end
