(* ===== verification/Device_Pool.thy ===== *)
theory Device_Pool
  imports Pool_Reach
begin

text \<open>
  The pool as \<open>device_memory\<close> uses it when no stream is recorded on an allocation: what is live
  apart from the workspace, and how each call changes it.
\<close>

section \<open>No stream recorded, no event pending\<close>

definition idle_blocks :: "block list \<Rightarrow> bool" where
  "idle_blocks bs \<longleftrightarrow> (\<forall>b\<in>set bs. b_uses b = [] \<and> b_events b = 0)"

lemma idle_blocks_simps [simp]:
  "idle_blocks []" "idle_blocks (b # bs) \<longleftrightarrow> (b_uses b = [] \<and> b_events b = 0) \<and> idle_blocks bs"
  "idle_blocks (xs @ ys) \<longleftrightarrow> idle_blocks xs \<and> idle_blocks ys"
  by (auto simp: idle_blocks_def)

lemma idle_absorb: "idle_blocks (b # ys) \<Longrightarrow> idle_blocks (absorb b ys)"
  by (cases ys) auto

lemma idle_coalesce:
  assumes "idle_blocks (xs @ b # ys)" shows "idle_blocks (coalesce xs b ys)"
proof (cases xs rule: rev_cases)
  case Nil
  then show ?thesis using assms idle_absorb by (auto simp: coalesce_def)
next
  case (snoc zs z)
  then show ?thesis using assms idle_absorb by (auto simp: coalesce_def)
qed

lemma idle_free_block: "free_block p bs = Some bs' \<Longrightarrow> idle_blocks bs \<Longrightarrow> idle_blocks bs'"
proof -
  assume f: "free_block p bs = Some bs'" and i: "idle_blocks bs"
  let ?xs = "takeWhile (\<lambda>b. b_addr b \<noteq> p) bs"
  obtain b ys where d: "dropWhile (\<lambda>b. b_addr b \<noteq> p) bs = b # ys" "bs' = coalesce ?xs (freed b) ys"
    using f by (auto simp: free_block_def split: list.splits)
  have "idle_blocks (?xs @ b # ys)" using i d(1) takeWhile_dropWhile_id [of "\<lambda>b. b_addr b \<noteq> p" bs] by metis
  then show ?thesis unfolding d(2) by (intro idle_coalesce) (simp add: freed_def)
qed

lemma idle_alloc_blocks:
  assumes "alloc_blocks s n st us bs = Some (b, bs')" "idle_blocks bs"
  shows "idle_blocks bs'"
proof -
  have b: "best_block (fits n st us) bs = Some b" "bs' = replace_block b (alloc_parts s n st b) bs"
    using assms(1) by (auto simp: alloc_blocks_def split: option.splits)
  have "b \<in> set bs" using b(1) by (induction bs) (auto split: option.splits if_splits)
  then show ?thesis using assms(2) set_replace_block [of b bs] unfolding b(2) idle_blocks_def
    by (auto simp: alloc_parts_def allocated_def place_def tail_block_def)
qed

lemma idle_ws_start:
  assumes "idle_blocks bs" "bs \<noteq> []" shows "idle_blocks (ws_start high bs)"
proof -
  have "idle_blocks (butlast bs @ [last bs])" using assms by simp
  then have "idle_blocks (coalesce (butlast bs) ((last bs)\<lparr> b_used := False \<rparr>) [])"
    by (intro idle_coalesce) simp
  then show ?thesis using assms by (simp add: ws_start_def ws_release_def)
qed

lemma idle_ws_cut: "idle_blocks bs \<Longrightarrow> bs \<noteq> [] \<Longrightarrow> idle_blocks (ws_cut m sz bs)"
proof -
  assume "idle_blocks bs" "bs \<noteq> []"
  then have "idle_blocks (butlast bs @ [last bs])" by simp
  then show ?thesis by (auto simp: ws_cut_def Let_def tail_block_def)
qed

definition good_pool :: "pool \<Rightarrow> bool" where
  "good_pool s \<longleftrightarrow> pool_inv s \<and> pool_aligned s \<and> hpu_events s = [] \<and> idle_blocks (pool_blocks s) \<and>
     (high_memory_allocated s \<longrightarrow> b_used (last (pool_blocks s)))"

text \<open>What is live and is not the workspace.\<close>

definition heap_live :: "pool \<Rightarrow> (nat \<times> nat) set" where
  "heap_live s =
     (if high_memory_allocated s then pool_live s - {extent (last (pool_blocks s))} else pool_live s)"

lemma heap_live_sub: "heap_live s \<subseteq> pool_live s"
  by (auto simp: heap_live_def)

lemma process_events_none [simp]: "hpu_events s = [] \<Longrightarrow> process_events env s = Inr s"
  by (simp add: process_events_def)

lemma good_idle: "good_pool s \<Longrightarrow> pool_idle p s"
  by (auto simp: good_pool_def pool_idle_def client_blocks_def idle_blocks_def)

lemma good_ws_idle: "good_pool s \<Longrightarrow> ws_idle (pool_blocks s)"
  using pool_blocks_ne [of s] by (auto simp: good_pool_def ws_idle_def idle_blocks_def pool_inv_def)

text \<open>The workspace is one of the live allocations.\<close>

lemma workspace_live:
  assumes "good_pool s" "high_memory_allocated s"
  shows "last (pool_blocks s) \<in> client_blocks s" "extent (last (pool_blocks s)) \<in> pool_live s"
proof -
  have inv: "pool_inv s" using assms by (simp add: good_pool_def)
  have l: "last (pool_blocks s) \<in> set (pool_blocks s)" using pool_blocks_ne inv by (auto simp: pool_inv_def)
  have "\<not> is_small_block s (last (pool_blocks s))"
  proof (cases "small_allocs s")
    case (Some sa)
    then show ?thesis using small_okD [OF inv Some] assms(2) l by metis
  qed (simp add: is_small_block_def)
  then show "last (pool_blocks s) \<in> client_blocks s"
    using assms l by (simp add: client_blocks_def good_pool_def)
  then show "extent (last (pool_blocks s)) \<in> pool_live s" by (simp add: pool_live_def)
qed

lemma live_aligned:
  assumes "good_pool s" "(p, a) \<in> pool_live s"
  shows "p mod alignment s = 0"
proof (cases "(p, a) \<in> small_live s")
  case False
  then obtain b where "b \<in> set (pool_blocks s)" "p = b_addr b"
    using assms(2) by (auto simp: pool_live_def client_blocks_def extent_def)
  then show ?thesis using assms(1) by (auto simp: good_pool_def pool_aligned_def aligned_blocks_def)
next
  case True
  then obtain sa where sa: "small_allocs s = Some sa" "(p, a) \<in> sa_live sa"
    by (auto simp: small_live_def split: option.splits)
  have inv: "pool_inv s" using assms by (simp add: good_pool_def)
  obtain b where b: "kAlignment sa = alignment s" "b \<in> set (pool_blocks s)" "b_addr b = sa_chunk_ptr sa"
    using small_okD [OF inv sa(1)] by blast
  then have "alignment s dvd sa_chunk_ptr sa"
    using assms(1) by (auto simp: good_pool_def pool_aligned_def aligned_blocks_def)
  moreover obtain i where "p = unit_ptr sa i" using sa(2) by (auto simp: sa_live_def)
  ultimately show ?thesis using b(1) by (simp add: unit_ptr_def)
qed

section \<open>Allocating\<close>

lemma alloc_last:
  assumes "alloc_blocks s n st us bs = Some (b, bs')" "distinct bs" "b_used (last bs)"
  shows "last bs' = last bs"
proof -
  have b: "best_block (fits n st us) bs = Some b" "bs' = replace_block b (alloc_parts s n st b) bs"
    using assms(1) by (auto simp: alloc_blocks_def split: option.splits)
  have m: "b \<in> set bs \<and> fits n st us b" using b(1) by (induction bs) (auto split: option.splits if_splits)
  have ne: "alloc_parts s n st b \<noteq> []" by (simp add: alloc_parts_def)
  have "last bs \<noteq> b" using m assms(3) by (auto simp: fits_def)
  then show ?thesis using last_replace_block [OF assms(2) _ ne, of b] m unfolding b(2) by simp
qed

lemma good_alloc:
  assumes g: "good_pool s" and r: "pool_request (n, st, us) s"
  shows "\<exists>p t. alloc_chunk n st us s = Inr (p, t) \<and> good_pool t \<and> same_config s t \<and>
    (if p = 0 then t = s
     else p mod alignment s = 0 \<and>
       (\<exists>a\<ge>n. (p, a) \<notin> pool_live s \<and> heap_live t = insert (p, a) (heap_live s)))"
proof -
  have inv: "pool_inv s" using g by (simp add: good_pool_def)
  from alloc_chunk_inv [OF inv r] obtain p t where t: "alloc_chunk n st us s = Inr (p, t)" "pool_inv t"
    "same_config s t" "hpu_events t = hpu_events s" "high_memory_allocated t = high_memory_allocated s"
    and bl: "pool_blocks t = pool_blocks s \<or>
      (\<exists>b. alloc_blocks s n st us (pool_blocks s) = Some (b, pool_blocks t))"
    and P: "if p = 0 then t = s
      else \<exists>a\<ge>n. (p, a) \<notin> pool_live s \<and> pool_live t = insert (p, a) (pool_live s) \<and> pool_idle p t"
    by blast
  have ds: "distinct (pool_blocks s)" using inv pool_blocks_distinct by (auto simp: pool_inv_def)
  have al: "pool_aligned t"
    using pool_step_aligned [OF Alloc [OF r t(1)] inv] g by (simp add: good_pool_def)
  have last: "high_memory_allocated s \<Longrightarrow> last (pool_blocks t) = last (pool_blocks s)"
    using bl alloc_last [OF _ ds] g by (auto simp: good_pool_def)
  have "idle_blocks (pool_blocks t)" using bl idle_alloc_blocks g by (auto simp: good_pool_def)
  then have gt: "good_pool t" using t al g last by (auto simp: good_pool_def)
  show ?thesis
  proof (cases "p = 0")
    case True
    then show ?thesis using t gt P by auto
  next
    case False
    then obtain a where a: "n \<le> a" "(p, a) \<notin> pool_live s" "pool_live t = insert (p, a) (pool_live s)"
      using P by auto
    have "heap_live t = insert (p, a) (heap_live s)"
    proof (cases "high_memory_allocated s")
      case True
      then have "extent (last (pool_blocks s)) \<noteq> (p, a)" using workspace_live(2) [OF g] a(2) by auto
      then show ?thesis using True a(3) t(5) last by (auto simp: heap_live_def)
    qed (use a t in \<open>simp add: heap_live_def\<close>)
    moreover have "p mod alignment s = 0"
      using live_aligned [OF gt, of p a] a(3) t(3) by (simp add: same_config_def)
    ultimately show ?thesis using t gt False a by auto
  qed
qed

section \<open>Freeing\<close>

lemma absorb_last:
  assumes "ys \<noteq> []" "b_used (last ys)" "\<not> b_used d"
  shows "\<exists>e rest. absorb d ys = e # rest \<and> rest \<noteq> [] \<and> last rest = last ys \<and> \<not> b_used e"
proof (cases ys)
  case (Cons y zs)
  show ?thesis
  proof (cases "b_used y")
    case True
    then show ?thesis using Cons assms by auto
  next
    case False
    then have "zs \<noteq> []" using Cons assms by auto
    then show ?thesis using Cons assms False by auto
  qed
qed (use assms in simp)

lemma free_last:
  assumes ok: "pool_ok s" and b: "b \<in> set (pool_blocks s)" "b_used b"
    and f: "free_block (b_addr b) (pool_blocks s) = Some bs"
    and l: "b_used (last (pool_blocks s))" "last (pool_blocks s) \<noteq> b"
  shows "last bs = last (pool_blocks s)"
proof -
  obtain xs ys where sp: "pool_blocks s = xs @ b # ys" using in_set_split [OF b(1)] by auto
  have "b_addr d \<noteq> b_addr b" if "d \<in> set xs" for d
    using pool_block_addr_inj [OF ok _ b(1), of d] that sp pool_blocks_distinct [OF ok] by auto
  then have "free_block (b_addr b) (xs @ b # ys) = Some (coalesce xs (freed b) ys)"
    by (intro free_block_split) auto
  then have bs: "bs = coalesce xs (freed b) ys" using f sp by simp
  have ne: "ys \<noteq> []" using l(2) sp by auto
  then have ys: "ys \<noteq> []" "b_used (last ys)" using l(1) sp by simp_all
  have fb: "\<not> b_used (freed b)" by (simp add: freed_def)
  from absorb_last [OF ys fb] obtain d rest where d: "absorb (freed b) ys = d # rest" "rest \<noteq> []"
    "last rest = last ys" "\<not> b_used d" by blast
  then show ?thesis using ys(1) sp by (auto simp: bs coalesce_def)
qed

lemma good_free:
  assumes g: "good_pool s" and live: "(p, a) \<in> heap_live s"
  shows "\<exists>t. pool_free_chunk env p s = Inr t \<and> good_pool t \<and> same_config s t \<and>
    heap_live t = heap_live s - {(p, a)} \<and> is_stream_uses_empty p s = Inr True"
proof -
  have inv: "pool_inv s" and ok: "pool_ok s" using g by (auto simp: good_pool_def pool_inv_def)
  have pl: "(p, a) \<in> pool_live s" using live heap_live_sub by blast
  have p0: "p \<noteq> 0" using device_pool.live_pos [OF inv pl] by simp
  note idle = good_idle [OF g, of p]
  have run: "pool_free_chunk env p s = delete_chunk p s \<and> is_stream_uses_empty p s = Inr True"
  proof (rule live_cases [OF inv pl])
    assume "is_small_alloc s p = Inr True"
    then show ?thesis using p0 by (simp add: pool_free_chunk_def is_stream_uses_empty_def)
  next
    fix b assume b: "b \<in> client_blocks s" "p = b_addr b" "is_small_alloc s p = Inr False"
      "lookup_chunk s p = Inr (b_id b)" "chunk_heap s (b_id b) \<noteq> None" "b = block_of s (b_id b)"
    then obtain k where k: "chunk_heap s (b_id b) = Some k" by auto
    then have "c_stream_uses k = b_uses b" using b(6) by (metis block_of_simps(4))
    then have "c_stream_uses k = []" using b(1,2) idle by (simp add: pool_idle_def)
    then show ?thesis using p0 b(3,4) k by (simp add: pool_free_chunk_def is_stream_uses_empty_def deref_def)
  qed
  have "\<exists>t. delete_chunk p s = Inr t \<and> pool_inv t \<and> pool_live t = pool_live s - {(p, a)} \<and>
    hpu_events t = [] \<and> idle_blocks (pool_blocks t) \<and> high_memory_allocated t = high_memory_allocated s \<and>
    (high_memory_allocated s \<longrightarrow> last (pool_blocks t) = last (pool_blocks s))"
  proof (cases "(p, a) \<in> small_live s")
    case True
    then show ?thesis using delete_small_inv [OF inv True] g by (auto simp: good_pool_def)
  next
    case False
    then obtain b where b: "b \<in> client_blocks s" "extent b = (p, a)" using pl by (auto simp: pool_live_def)
    then have bu: "b_uses b = []" "b_events b = 0" "b_addr b = p" "b \<in> set (pool_blocks s)" "b_used b"
      using idle by (auto simp: pool_idle_def extent_def client_blocks_def)
    from delete_client_inv [OF inv b(1) bu(1,2)] bu(3) b(2) obtain t where
      t: "delete_chunk p s = Inr t" "pool_inv t" "pool_live t = pool_live s - {(p, a)}"
      "frame_of t = frame_of s" "free_block p (pool_blocks s) = Some (pool_blocks t)"
      "high_memory_allocated t = (high_memory_allocated s \<and> b_id (last (pool_blocks t)) \<noteq> b_id b)" by auto
    have last: "last (pool_blocks t) = last (pool_blocks s)" "last (pool_blocks s) \<noteq> b"
      if h: "high_memory_allocated s"
    proof -
      show n: "last (pool_blocks s) \<noteq> b" using live h b(2) by (auto simp: heap_live_def)
      show "last (pool_blocks t) = last (pool_blocks s)"
        using free_last [OF ok bu(4,5) _ _ n] t(5) bu(3) g h by (simp add: good_pool_def)
    qed
    obtain ids where ids: "pinv {} ids s" "pool_blocks s = blocks_of s ids" by (rule pool_okE [OF ok])
    have "b_id (last (pool_blocks s)) \<noteq> b_id b" if h: "high_memory_allocated s"
    proof -
      have "last (pool_blocks s) \<in> set (pool_blocks s)" using pool_blocks_ne [OF ok] by simp
      then show ?thesis using last(2) [OF h] bu(4) ids(2) unfolding blocks_of_def by (metis block_of_simps(6) imageE list.set_map)
    qed
    then have "high_memory_allocated t = high_memory_allocated s" using t(6) last(1) by auto
    moreover have "idle_blocks (pool_blocks t)" using idle_free_block [OF t(5)] g by (simp add: good_pool_def)
    ultimately show ?thesis using t last g frame_of_sel(4) [OF t(4)] by (auto simp: good_pool_def)
  qed
  then obtain t where t: "delete_chunk p s = Inr t" "pool_inv t" "pool_live t = pool_live s - {(p, a)}"
    "hpu_events t = []" "idle_blocks (pool_blocks t)" "high_memory_allocated t = high_memory_allocated s"
    "high_memory_allocated s \<longrightarrow> last (pool_blocks t) = last (pool_blocks s)" by blast
  have st: "same_config s t \<and> pool_aligned t"
    using pool_step_aligned [OF Free [OF pl idle t(1)] inv] g by (auto simp: good_pool_def)
  have "good_pool t" using t st g by (auto simp: good_pool_def)
  moreover have "heap_live t = heap_live s - {(p, a)}"
    using t(3,6,7) by (auto simp: heap_live_def)
  ultimately show ?thesis using run t(1) st by auto
qed

section \<open>The workspace\<close>

lemma good_extend:
  assumes g: "good_pool s" and n: "0 < n" "n mod alignment s = 0"
  shows "\<exists>p t. extend_high_memory_allocation n cur s = Inr (p, t) \<and> good_pool t \<and> same_config s t \<and>
    heap_live s \<subseteq> heap_live t \<and>
    (p \<noteq> 0 \<longrightarrow> heap_live t = heap_live s \<and> high_memory_allocated t \<and> p = b_addr (last (pool_blocks t)) \<and>
       n \<le> b_size (last (pool_blocks t)))"
proof -
  have inv: "pool_inv s" and ok: "pool_ok s" using g by (auto simp: good_pool_def pool_inv_def)
  have ne: "pool_blocks s \<noteq> []" by (rule pool_blocks_ne [OF ok])
  note wi = good_ws_idle [OF g]
  from extend_inv [OF inv n(1) wi, of cur] obtain p t where t: "extend_high_memory_allocation n cur s = Inr (p, t)"
    "pool_inv t" "frame_of t = frame_of s" "extend_result n cur s p t"
    and W: "t = s \<or> (\<exists>w. last (pool_blocks t) = w \<and> b_used w \<and> w \<notin> client_blocks s - old_workspace s \<and>
        client_blocks t = insert w (client_blocks s - old_workspace s) \<and>
        (p \<noteq> 0 \<longrightarrow> p = b_addr w \<and> b_size w = n \<and> high_memory_allocated t))" by auto
  have "pool_step env s t" for env by (rule Workspace [OF n _ t(1)]) (use wi in simp)
  from pool_step_aligned [OF this inv] g have st: "same_config s t \<and> pool_aligned t"
    by (simp add: good_pool_def)
  let ?b1 = "ws_start (high_memory_allocated s) (pool_blocks s)"
  have ne1: "?b1 \<noteq> []" using ne by (auto simp: ws_start_def ws_release_def coalesce_def)
  have i1: "idle_blocks ?b1" by (rule idle_ws_start) (use g ne in \<open>auto simp: good_pool_def\<close>)
  then have "idle_blocks (butlast ?b1 @ [last ?b1])" using ne1 by simp
  then have "idle_blocks (butlast ?b1 @ [(last ?b1)\<lparr> b_used := True \<rparr>])" by simp
  then have idle: "idle_blocks (pool_blocks t)"
    using t(4) g idle_ws_cut [OF i1 ne1] unfolding extend_result_def Let_def
    by (auto simp: good_pool_def split: if_splits)
  have ev: "hpu_events t = []" using frame_of_sel(4) [OF t(3)] g by (simp add: good_pool_def)
  show ?thesis
  proof (cases "t = s")
    case True
    have "p \<noteq> 0 \<longrightarrow> high_memory_allocated t \<and> p = b_addr (last (pool_blocks t)) \<and> n \<le> b_size (last (pool_blocks t))"
    proof (cases "max_pool_size s < n \<or> \<not> high_memory_allocated s \<and> b_used (last (pool_blocks s)) \<or>
        high_memory_allocated s \<and> b_used (last (pool_blocks s)) \<and> n \<le> b_size (last (pool_blocks s)) \<or>
        b_size (last ?b1) < n")
      case True
      then show ?thesis using t(4) \<open>t = s\<close> unfolding extend_result_def Let_def by (auto split: if_splits)
    next
      case False
      then have c: "p = b_addr (ws_block (next_host s) n ?b1)" "pool_blocks t = ws_cut (next_host s) n ?b1"
        "high_memory_allocated t" using t(4) unfolding extend_result_def Let_def by (auto split: if_splits)
      have "\<not> b_used (last ?b1)" using last_ws_release_free [OF ne] False by (auto simp: ws_start_def)
      then show ?thesis using c ws_cut_last [OF n(1), of ?b1 "next_host s"] False by (simp add: ws_block_def)
    qed
    then show ?thesis using t(1) g True by auto
  next
    case False
    then obtain w where w: "last (pool_blocks t) = w" "b_used w" "w \<notin> client_blocks s - old_workspace s"
        "client_blocks t = insert w (client_blocks s - old_workspace s)"
        "p \<noteq> 0 \<longrightarrow> p = b_addr w \<and> b_size w = n \<and> high_memory_allocated t" using W by auto
    have gt: "good_pool t" using t(2) st ev idle w(1,2) by (simp add: good_pool_def)
    have sm: "small_live t = small_live s" using frame_of_sel(1) [OF t(3)] by (simp add: small_live_def)
    have hs: "heap_live s = extent ` (client_blocks s - old_workspace s) \<union> small_live s"
    proof (cases "high_memory_allocated s")
      case True
      note wl = workspace_live(1) [OF g True]
      have o: "old_workspace s = {last (pool_blocks s)}"
        using True g by (simp add: old_workspace_def Let_def good_pool_def)
      have "extent ` client_blocks s - {extent (last (pool_blocks s))} =
          extent ` (client_blocks s - {last (pool_blocks s)})"
        using pool_block_addr_inj [OF ok] wl by (auto simp: extent_def client_blocks_def)
      moreover have "extent (last (pool_blocks s)) \<notin> small_live s"
      proof
        assume "extent (last (pool_blocks s)) \<in> small_live s"
        then have m: "(b_addr (last (pool_blocks s)), b_size (last (pool_blocks s))) \<in> small_live s"
          by (simp add: extent_def)
        have b: "last (pool_blocks s) \<in> set (pool_blocks s)" "\<not> is_small_block s (last (pool_blocks s))"
          using wl by (auto simp: client_blocks_def)
        show False using client_block_not_small [OF inv b m] pool_block_facts(2) [OF ok b(1)] by simp
      qed
      ultimately show ?thesis using True o by (auto simp: heap_live_def pool_live_def)
    next
      case False
      then show ?thesis by (simp add: heap_live_def pool_live_def old_workspace_def)
    qed
    have pt: "pool_live t = insert (extent w) (heap_live s)"
      using w(4) sm hs by (auto simp: pool_live_def)
    have wn: "extent w \<notin> heap_live s"
    proof
      assume "extent w \<in> heap_live s"
      moreover have wt: "w \<in> client_blocks t" using w(4) by simp
      then have wb: "w \<in> set (pool_blocks t)" "\<not> is_small_block t w" by (auto simp: client_blocks_def)
      have "extent w \<notin> small_live t"
        using client_block_not_small [OF t(2) wb, of "b_addr w" "b_size w"] pool_block_facts(2) [OF _ wb(1)] t(2)
        by (auto simp: extent_def pool_inv_def)
      ultimately obtain d where d: "d \<in> client_blocks s - old_workspace s" "extent d = extent w"
        using hs sm by auto
      then have "d \<in> client_blocks t" using w(4) by simp
      then have "d = w"
        using pool_block_addr_inj [of t d w] d(2) wb(1) t(2) by (auto simp: client_blocks_def extent_def pool_inv_def)
      then show False using d(1) w(3) by simp
    qed
    have "heap_live t = (if high_memory_allocated t then heap_live s else insert (extent w) (heap_live s))"
      using pt wn w(1) by (auto simp: heap_live_def)
    then show ?thesis using t(1) gt st w by auto
  qed
qed

end
