(* ===== verification/Defrag_Props.thy ===== *)
theory Defrag_Props
  imports Defragmenter
begin

text \<open>
  What the defragmenter computes: the map of the memory tiles the pool and lists every block in
  use, and the region it selects is one that can be moved, has enough free memory, and moves the
  least memory of all such regions.
\<close>

section \<open>The map of the memory\<close>

fun mtiles :: "nat \<Rightarrow> memory_block list \<Rightarrow> nat \<Rightarrow> bool" where
  "mtiles a [] e \<longleftrightarrow> a = e"
| "mtiles a (b # bs) e \<longleftrightarrow> mb_ptr b = a \<and> mtiles (a + mb_actual_size b) bs e"

text \<open>Blocks in order of address that do not overlap.\<close>

fun placed :: "nat \<Rightarrow> memory_block list \<Rightarrow> nat \<Rightarrow> bool" where
  "placed a [] e \<longleftrightarrow> a \<le> e"
| "placed a (b # bs) e \<longleftrightarrow> a \<le> mb_ptr b \<and> placed (mb_ptr b + mb_actual_size b) bs e"

lemma mtiles_append: "mtiles a (xs @ ys) e \<longleftrightarrow> (\<exists>m. mtiles a xs m \<and> mtiles m ys e)"
  by (induction xs arbitrary: a) auto

lemma mtiles_le: "mtiles a bs e \<Longrightarrow> a \<le> e"
  by (induction bs arbitrary: a) (auto dest: add_leD1)

lemma validate_loop_mtiles: "validate_loop e p n bs = mtiles (p + n) bs e"
  by (induction bs arbitrary: p n) auto

lemma ValidateMemoryMap_mtiles:
  "bs \<noteq> [] \<Longrightarrow> ValidateMemoryMap d bs \<longleftrightarrow> mtiles (mem_start_ptr d) bs (mem_end_ptr d)"
  by (cases bs) (auto simp: ValidateMemoryMap_def validate_loop_mtiles)

lemma gap_blocks_tile:
  "nxt \<le> p \<Longrightarrow> mtiles nxt (gap_blocks se p nxt) p \<and>
     (\<forall>b\<in>set (gap_blocks se p nxt). mb_state b = FREE \<and> 0 < mb_actual_size b \<and>
        (mb_ptr b < se \<longrightarrow> mb_ptr b + mb_actual_size b \<le> se \<or> p < se))"
proof (induction se p nxt rule: gap_blocks.induct)
  case (1 se p nxt)
  show ?case
  proof (cases "p > nxt")
    case True
    let ?n = "if nxt < se \<and> p > se then se - nxt else p - nxt"
    have n: "0 < ?n" "nxt + ?n \<le> p" using True by auto
    have g: "gap_blocks se p nxt = free_mem nxt ?n # gap_blocks se p (nxt + ?n)"
      using True n(1) by (subst gap_blocks.simps) (simp only: Let_def if_True neq0_conv if_not_P not_gr_zero if_False)
    have ih: "mtiles (nxt + ?n) (gap_blocks se p (nxt + ?n)) p \<and>
       (\<forall>b\<in>set (gap_blocks se p (nxt + ?n)). mb_state b = FREE \<and> 0 < mb_actual_size b \<and>
          (mb_ptr b < se \<longrightarrow> mb_ptr b + mb_actual_size b \<le> se \<or> p < se))"
      using 1(1) [OF True refl] n by simp
    have "mb_ptr (free_mem nxt ?n) = nxt" "mb_actual_size (free_mem nxt ?n) = ?n" "mb_state (free_mem nxt ?n) = FREE"
      by (simp_all add: free_mem_def)
    moreover have "nxt < se \<longrightarrow> nxt + ?n \<le> se \<or> p < se" using True by auto
    ultimately show ?thesis unfolding g using ih n(1) by (simp only: mtiles.simps list.set set_simps ball_simps simp_thms) auto
  next
    case False
    then show ?thesis using 1(2) by (subst gap_blocks.simps, subst (2) gap_blocks.simps) simp
  qed
qed

lemma blocks_and_gaps_tile:
  "placed (mb_ptr p + mb_actual_size p) bs e \<Longrightarrow> \<forall>b\<in>set bs. mb_state b \<noteq> FREE \<Longrightarrow>
   mtiles (mb_ptr p + mb_actual_size p) (blocks_and_gaps se p bs) (mb_ptr (last (p # bs)) + mb_actual_size (last (p # bs))) \<and>
   filter (\<lambda>b. mb_state b \<noteq> FREE) (blocks_and_gaps se p bs) = bs"
proof (induction bs arbitrary: p)
  case (Cons b bs)
  have le: "mb_ptr p + mb_actual_size p \<le> mb_ptr b" and pl: "placed (mb_ptr b + mb_actual_size b) bs e"
    using Cons.prems(1) by auto
  note g = gap_blocks_tile [OF le, of se]
  have ih: "mtiles (mb_ptr b + mb_actual_size b) (blocks_and_gaps se b bs)
      (mb_ptr (last (b # bs)) + mb_actual_size (last (b # bs)))"
    "filter (\<lambda>b. mb_state b \<noteq> FREE) (blocks_and_gaps se b bs) = bs"
    using Cons.IH [OF pl] Cons.prems(2) by auto
  have "filter (\<lambda>b. mb_state b \<noteq> FREE) (gap_blocks se (mb_ptr b) (mb_ptr p + mb_actual_size p)) = []"
    using g by (auto simp: filter_empty_conv)
  then show ?case using g ih Cons.prems(2) by (auto simp: mtiles_append)
qed simp

lemma placed_last: "placed a bs e \<Longrightarrow> bs \<noteq> [] \<Longrightarrow> mb_ptr (last bs) + mb_actual_size (last bs) \<le> e"
proof (induction bs arbitrary: a)
  case (Cons b bs)
  then show ?case by (cases bs) auto
qed simp

lemma CreateMemoryMap_tiles:
  assumes pl: "placed (mem_start_ptr d) bs (mem_end_ptr d)" and st: "\<forall>b\<in>set bs. mb_state b \<noteq> FREE"
    and lim: "mem_end_ptr d < u64_lim"
  shows "mtiles (mem_start_ptr d) (CreateMemoryMap d bs) (mem_end_ptr d) \<and>
    filter (\<lambda>b. mb_state b \<noteq> FREE) (CreateMemoryMap d bs) = bs \<and> CreateMemoryMap d bs \<noteq> []"
proof (cases bs)
  case Nil
  then show ?thesis using pl lim by (simp add: CreateMemoryMap_def free_mem_def sub64_exact)
next
  case (Cons b rest)
  let ?se = "small_allocs_ptr d + small_allocs_size d"
  let ?le = "mb_ptr (last bs) + mb_actual_size (last bs)"
  have p: "mem_start_ptr d \<le> mb_ptr b" "placed (mb_ptr b + mb_actual_size b) rest (mem_end_ptr d)"
    using pl Cons by auto
  have le: "?le \<le> mem_end_ptr d" using placed_last [OF pl] Cons by simp
  note t = blocks_and_gaps_tile [OF p(2), of ?se]
  have t1: "mtiles (mb_ptr b + mb_actual_size b) (blocks_and_gaps ?se b rest) ?le"
    "filter (\<lambda>b. mb_state b \<noteq> FREE) (blocks_and_gaps ?se b rest) = rest"
    using t st Cons by auto
  have bl: "mb_ptr b + mb_actual_size b \<le> ?le"
    by (rule mtiles_le [OF t1(1)])
  define hd_gap where "hd_gap = (if mb_ptr b \<noteq> mem_start_ptr d
      then [free_mem (mem_start_ptr d) (sub64 (mb_ptr b) (mem_start_ptr d))] else [])"
  define tl_gap where "tl_gap = (if ?le < mem_end_ptr d then [free_mem ?le (sub64 (mem_end_ptr d) ?le)] else [])"
  have "mb_ptr b < u64_lim" using bl le lim by linarith
  then have h: "mtiles (mem_start_ptr d) hd_gap (mb_ptr b)" "filter (\<lambda>b. mb_state b \<noteq> FREE) hd_gap = []"
    using p(1) by (auto simp: hd_gap_def free_mem_def sub64_exact)
  have l: "mtiles ?le tl_gap (mem_end_ptr d)" "filter (\<lambda>b. mb_state b \<noteq> FREE) tl_gap = []"
    using le lim by (auto simp: tl_gap_def free_mem_def sub64_exact)
  have c: "CreateMemoryMap d bs = hd_gap @ b # blocks_and_gaps ?se b rest @ tl_gap"
    by (simp add: CreateMemoryMap_def Cons hd_gap_def tl_gap_def Let_def)
  have bt: "mtiles (mb_ptr b) (b # blocks_and_gaps ?se b rest @ tl_gap) (mem_end_ptr d)"
    using t1(1) l(1) by (auto simp: mtiles_append)
  then show ?thesis unfolding c using h l t1(2) st Cons by (auto simp: mtiles_append)
qed

section \<open>The region for an allocation\<close>

definition free_at :: "memory_block list \<Rightarrow> nat \<Rightarrow> nat" where
  "free_at bs k = (if mb_state (bs ! k) = FREE then mb_actual_size (bs ! k) else 0)"

definition used_at :: "memory_block list \<Rightarrow> nat \<Rightarrow> nat" where
  "used_at bs k = (if mb_state (bs ! k) = FREE then 0 else mb_actual_size (bs ! k))"

definition free_sum :: "memory_block list \<Rightarrow> nat \<Rightarrow> nat \<Rightarrow> nat" where
  "free_sum bs i j = (\<Sum>k = i..<j. free_at bs k)"

definition used_sum :: "memory_block list \<Rightarrow> nat \<Rightarrow> nat \<Rightarrow> nat" where
  "used_sum bs i j = (\<Sum>k = i..<j. used_at bs k)"

definition movable_at :: "memory_block list \<Rightarrow> nat \<Rightarrow> nat \<Rightarrow> nat \<Rightarrow> bool" where
  "movable_at bs ps pe k \<longleftrightarrow> mb_state (bs ! k) \<noteq> FIXED \<and> ps \<le> mb_ptr (bs ! k) \<and> mb_ptr (bs ! k) < pe"

text \<open>
  A region that serves the request: it starts with free memory, lies in the window, has no fixed
  block and enough free memory.
\<close>

definition candidate :: "memory_block list \<Rightarrow> nat \<Rightarrow> nat \<Rightarrow> nat \<Rightarrow> nat \<Rightarrow> nat \<Rightarrow> bool" where
  "candidate bs sz ps pe i j \<longleftrightarrow> i < j \<and> j \<le> length bs \<and> mb_state (bs ! i) = FREE \<and>
     (\<forall>k. i \<le> k \<and> k < j \<longrightarrow> movable_at bs ps pe k) \<and> sz \<le> free_sum bs i j"

definition in_order :: "memory_block list \<Rightarrow> bool" where
  "in_order bs \<longleftrightarrow> (\<forall>i j. i \<le> j \<and> j < length bs \<longrightarrow> mb_ptr (bs ! i) \<le> mb_ptr (bs ! j))"

lemma sums_Suc:
  "i \<le> j \<Longrightarrow> free_sum bs i (Suc j) = free_sum bs i j + free_at bs j"
  "i \<le> j \<Longrightarrow> used_sum bs i (Suc j) = used_sum bs i j + used_at bs j"
  by (simp_all add: free_sum_def used_sum_def)

lemma sums_mono:
  "i' \<le> i \<Longrightarrow> j \<le> j' \<Longrightarrow> free_sum bs i j \<le> free_sum bs i' j'"
  "i' \<le> i \<Longrightarrow> j \<le> j' \<Longrightarrow> used_sum bs i j \<le> used_sum bs i' j'"
  unfolding free_sum_def used_sum_def by (rule sum_mono2; simp)+

text \<open>The region under construction, and the best one found for all starts before \<open>pos\<close>.\<close>

definition open_ok :: "memory_block list \<Rightarrow> nat \<Rightarrow> nat \<Rightarrow> nat \<Rightarrow> nat \<Rightarrow> region \<Rightarrow> bool" where
  "open_ok bs sz ps pe it r \<longleftrightarrow> rg_begin r < it \<and> it \<le> length bs \<and> mb_state (bs ! rg_begin r) = FREE \<and>
     (\<forall>k. rg_begin r \<le> k \<and> k < it \<longrightarrow> movable_at bs ps pe k) \<and>
     rg_free r = free_sum bs (rg_begin r) it \<and> rg_in_use r = used_sum bs (rg_begin r) it \<and> rg_free r < sz"

definition closed :: "memory_block list \<Rightarrow> region \<Rightarrow> bool" where
  "closed bs r \<longleftrightarrow> rg_begin r = length bs \<and> rg_free r = 0 \<and> rg_in_use r = 0"

definition best_ok :: "memory_block list \<Rightarrow> nat \<Rightarrow> nat \<Rightarrow> nat \<Rightarrow> nat \<Rightarrow> region option \<Rightarrow> bool" where
  "best_ok bs sz ps pe pos best \<longleftrightarrow>
     (\<forall>q. best = Some q \<longrightarrow> candidate bs sz ps pe (rg_begin q) (rg_end q) \<and>
        rg_free q = free_sum bs (rg_begin q) (rg_end q) \<and> rg_in_use q = used_sum bs (rg_begin q) (rg_end q)) \<and>
     (\<forall>i j. candidate bs sz ps pe i j \<and> i < pos \<longrightarrow> (\<exists>q. best = Some q \<and> rg_in_use q \<le> used_sum bs i j))"

lemma best_ok_more:
  assumes "best_ok bs sz ps pe pos best" "\<And>i j. candidate bs sz ps pe i j \<Longrightarrow> i < pos' \<Longrightarrow> i < pos"
  shows "best_ok bs sz ps pe pos' best"
  using assms unfolding best_ok_def by blast

text \<open>No candidate starts inside the open region and ends before \<open>it\<close>.\<close>

lemma open_no_candidate:
  assumes "open_ok bs sz ps pe it r" "candidate bs sz ps pe i j" "rg_begin r \<le> i"
  shows "it < j"
proof (rule ccontr)
  assume "\<not> it < j"
  then have "free_sum bs i j \<le> free_sum bs (rg_begin r) it" using assms(3) by (intro sums_mono) auto
  then show False using assms by (simp add: open_ok_def candidate_def)
qed

lemma best_ok_better:
  assumes "best_ok bs sz ps pe b best" "candidate bs sz ps pe b (rg_end q)" "rg_begin q = b"
    "rg_free q = free_sum bs b (rg_end q)" "rg_in_use q = used_sum bs b (rg_end q)"
    "\<And>j. candidate bs sz ps pe b j \<Longrightarrow> rg_end q \<le> j"
  shows "best_ok bs sz ps pe (b + 1) (better_region q best)"
  unfolding best_ok_def
proof (intro conjI allI impI)
  fix p assume "better_region q best = Some p"
  then have "p = q \<or> best = Some p" by (auto simp: better_region_def split: option.splits if_splits)
  then show "candidate bs sz ps pe (rg_begin p) (rg_end p)"
    "rg_free p = free_sum bs (rg_begin p) (rg_end p)" "rg_in_use p = used_sum bs (rg_begin p) (rg_end p)"
    using assms unfolding best_ok_def by blast+
next
  fix i j assume c: "candidate bs sz ps pe i j \<and> i < b + 1"
  show "\<exists>p. better_region q best = Some p \<and> rg_in_use p \<le> used_sum bs i j"
  proof (cases "i = b")
    case True
    then have "used_sum bs b (rg_end q) \<le> used_sum bs i j" using assms(6) [of j] c by (intro sums_mono) auto
    then show ?thesis using assms(5) by (auto simp: better_region_def split: option.splits)
  next
    case False
    then obtain p where "best = Some p" "rg_in_use p \<le> used_sum bs i j"
      using assms(1) c unfolding best_ok_def by (metis Suc_eq_plus1 less_Suc_eq)
    then show ?thesis by (auto simp: better_region_def)
  qed
qed

text \<open>One round on a block that joins the region.\<close>

definition joined :: "memory_block list \<Rightarrow> nat \<Rightarrow> region \<Rightarrow> region" where
  "joined bs it r =
     r\<lparr> rg_begin := (if rg_begin r = length bs then it else rg_begin r), rg_end := it + 1,
        rg_free := rg_free r + free_at bs it, rg_in_use := rg_in_use r + used_at bs it \<rparr>"

lemma select_loop_join:
  assumes "it < length bs" "ps \<le> mb_ptr (bs ! it)" "mb_ptr (bs ! it) < pe"
    "rg_begin r \<noteq> length bs \<or> mb_state (bs ! it) = FREE" "mb_state (bs ! it) \<noteq> FIXED"
  shows "select_loop bs sz ps pe it r best =
    (if sz \<le> rg_free (joined bs it r) then
       select_loop bs sz ps pe (rg_begin (joined bs it r) + 1) (reset_region bs) (better_region (joined bs it r) best)
     else select_loop bs sz ps pe (it + 1) (joined bs it r) best)"
  using assms by (subst select_loop.simps) (auto simp: joined_def free_at_def used_at_def Let_def)

definition sel_inv :: "memory_block list \<Rightarrow> nat \<Rightarrow> nat \<Rightarrow> nat \<Rightarrow> nat \<Rightarrow> region \<Rightarrow> region option \<Rightarrow> bool" where
  "sel_inv bs sz ps pe it r best \<longleftrightarrow> it \<le> length bs \<and>
     (closed bs r \<and> best_ok bs sz ps pe it best \<or>
      open_ok bs sz ps pe it r \<and> best_ok bs sz ps pe (rg_begin r) best)"

lemma sel_inv_skip:
  assumes "closed bs r" "best_ok bs sz ps pe it best" "it < length bs"
    and "\<And>j. \<not> candidate bs sz ps pe it j"
  shows "sel_inv bs sz ps pe (it + 1) r best"
proof -
  have "best_ok bs sz ps pe (it + 1) best"
    using assms(2) by (rule best_ok_more) (use assms(4) in \<open>metis less_Suc_eq Suc_eq_plus1\<close>)
  then show ?thesis using assms by (simp add: sel_inv_def)
qed

lemma sel_inv_end:
  assumes "sel_inv bs sz ps pe it r best" "\<And>i j. candidate bs sz ps pe i j \<Longrightarrow> i < it \<and> j \<le> it"
  shows "best_ok bs sz ps pe (length bs) best"
  using assms(1) unfolding sel_inv_def
proof (elim conjE disjE)
  assume "best_ok bs sz ps pe it best"
  then show ?thesis by (rule best_ok_more) (use assms(2) in blast)
next
  assume o: "open_ok bs sz ps pe it r" and b: "best_ok bs sz ps pe (rg_begin r) best"
  show ?thesis using b
    by (rule best_ok_more) (use assms(2) open_no_candidate [OF o] in \<open>meson not_less\<close>)
qed

lemma sel_inv_fixed:
  assumes "sel_inv bs sz ps pe it r best" "it < length bs" "mb_state (bs ! it) = FIXED"
  shows "sel_inv bs sz ps pe (it + 1) (reset_region bs) best"
proof -
  have nc: "j \<le> it" if "candidate bs sz ps pe i j" "i \<le> it" for i j
    using that assms(3) by (auto simp: candidate_def movable_at_def not_less)
  have "best_ok bs sz ps pe (it + 1) best"
    using assms(1) unfolding sel_inv_def
  proof (elim conjE disjE)
    assume "best_ok bs sz ps pe it best"
    then show ?thesis
    proof (rule best_ok_more)
      fix i j assume c: "candidate bs sz ps pe i j" and i: "i < it + 1"
      then have "i < j" "j \<le> it" using nc [OF c] by (auto simp: candidate_def)
      then show "i < it" by simp
    qed
  next
    assume o: "open_ok bs sz ps pe it r" and b: "best_ok bs sz ps pe (rg_begin r) best"
    show ?thesis using b
    proof (rule best_ok_more)
      fix i j assume c: "candidate bs sz ps pe i j" and i: "i < it + 1"
      then have j: "j \<le> it" using nc [OF c] by simp
      show "i < rg_begin r"
      proof (rule ccontr)
        assume "\<not> i < rg_begin r"
        then have "it < j" using open_no_candidate [OF o c] by simp
        then show False using j by simp
      qed
    qed
  qed
  then show ?thesis using assms(2) by (simp add: sel_inv_def closed_def reset_region_def)
qed

lemma sel_inv_join:
  assumes inv: "sel_inv bs sz ps pe it r best" and it: "it < length bs" "movable_at bs ps pe it"
    and st: "rg_begin r \<noteq> length bs \<or> mb_state (bs ! it) = FREE"
  defines "q \<equiv> joined bs it r"
  shows "if sz \<le> rg_free q then sel_inv bs sz ps pe (rg_begin q + 1) (reset_region bs) (better_region q best)
    else sel_inv bs sz ps pe (it + 1) q best"
proof -
  let ?b = "rg_begin q"
  have b: "best_ok bs sz ps pe ?b best" "?b \<le> it" "mb_state (bs ! ?b) = FREE"
    "\<forall>k. ?b \<le> k \<and> k < it + 1 \<longrightarrow> movable_at bs ps pe k" "rg_end q = it + 1"
    "rg_free q = free_sum bs ?b (it + 1)" "rg_in_use q = used_sum bs ?b (it + 1)"
    and nc: "\<And>j. candidate bs sz ps pe ?b j \<Longrightarrow> it < j"
  proof -
    have "best_ok bs sz ps pe ?b best \<and> ?b \<le> it \<and> mb_state (bs ! ?b) = FREE \<and>
      (\<forall>k. ?b \<le> k \<and> k < it + 1 \<longrightarrow> movable_at bs ps pe k) \<and> rg_end q = it + 1 \<and>
      rg_free q = free_sum bs ?b (it + 1) \<and> rg_in_use q = used_sum bs ?b (it + 1) \<and>
      (\<forall>j. candidate bs sz ps pe ?b j \<longrightarrow> it < j)"
      using inv unfolding sel_inv_def
    proof (elim conjE disjE)
      assume c: "closed bs r" and bo: "best_ok bs sz ps pe it best"
      have s: "mb_state (bs ! it) = FREE" using st c by (auto simp: closed_def)
      have qb: "?b = it" using c by (simp add: q_def joined_def closed_def)
      have "rg_free q = free_at bs it" "rg_in_use q = used_at bs it" "rg_end q = it + 1"
        using c by (simp_all add: q_def joined_def closed_def)
      then show ?thesis using bo s it(2) sums_Suc [of it it bs]
        by (auto simp: qb free_sum_def used_sum_def candidate_def le_less_Suc_eq)
    next
      assume o: "open_ok bs sz ps pe it r" and bo: "best_ok bs sz ps pe (rg_begin r) best"
      have qb: "?b = rg_begin r" using o by (auto simp: q_def joined_def open_ok_def)
      have le: "rg_begin r \<le> it" using o by (simp add: open_ok_def)
      have "rg_free q = rg_free r + free_at bs it" "rg_in_use q = rg_in_use r + used_at bs it" "rg_end q = it + 1"
        by (simp_all add: q_def joined_def)
      moreover have "\<forall>k. rg_begin r \<le> k \<and> k < it + 1 \<longrightarrow> movable_at bs ps pe k"
        using o it(2) by (auto simp: open_ok_def less_Suc_eq)
      ultimately show ?thesis using o bo le sums_Suc [OF le, of bs] open_no_candidate [OF o]
        by (simp add: qb open_ok_def)
    qed
    then show "best_ok bs sz ps pe ?b best" "?b \<le> it" "mb_state (bs ! ?b) = FREE"
      "\<forall>k. ?b \<le> k \<and> k < it + 1 \<longrightarrow> movable_at bs ps pe k" "rg_end q = it + 1"
      "rg_free q = free_sum bs ?b (it + 1)" "rg_in_use q = used_sum bs ?b (it + 1)"
      "\<And>j. candidate bs sz ps pe ?b j \<Longrightarrow> it < j" by blast+
  qed
  show ?thesis
  proof (cases "sz \<le> rg_free q")
    case True
    have "candidate bs sz ps pe ?b (rg_end q)"
      unfolding candidate_def b(5) using b True it(1) by auto
    then have "best_ok bs sz ps pe (?b + 1) (better_region q best)"
      by (rule best_ok_better [OF b(1)]) (use b nc in \<open>auto simp: Suc_le_eq\<close>)
    then show ?thesis using True it(1) b(2) by (simp add: sel_inv_def closed_def reset_region_def)
  next
    case False
    have "open_ok bs sz ps pe (it + 1) q" unfolding open_ok_def using b False it(1) by auto
    then show ?thesis using False it(1) b(1) by (simp add: sel_inv_def)
  qed
qed

lemma select_loop_best:
  "in_order bs \<Longrightarrow> sel_inv bs sz ps pe it r best \<Longrightarrow>
   best_ok bs sz ps pe (length bs) (select_loop bs sz ps pe it r best)"
proof (induction bs sz ps pe it r best rule: select_loop.induct)
  case (1 bs sz ps pe it r best)
  note inv = 1(7)
  have cand: "i < length bs" "j \<le> length bs" "i < j" "\<And>k. i \<le> k \<Longrightarrow> k < j \<Longrightarrow> movable_at bs ps pe k"
    if "candidate bs sz ps pe i j" for i j using that by (auto simp: candidate_def)
  consider (fin) "length bs \<le> it" | (low) "it < length bs" "mb_ptr (bs ! it) < ps"
    | (high) "it < length bs" "ps \<le> mb_ptr (bs ! it)" "pe \<le> mb_ptr (bs ! it)"
    | (skip) "it < length bs" "ps \<le> mb_ptr (bs ! it)" "mb_ptr (bs ! it) < pe" "rg_begin r = length bs"
        "mb_state (bs ! it) \<noteq> FREE"
    | (fixed) "it < length bs" "ps \<le> mb_ptr (bs ! it)" "mb_ptr (bs ! it) < pe"
        "\<not> (rg_begin r = length bs \<and> mb_state (bs ! it) \<noteq> FREE)" "mb_state (bs ! it) = FIXED"
    | (join) "it < length bs" "ps \<le> mb_ptr (bs ! it)" "mb_ptr (bs ! it) < pe"
        "rg_begin r \<noteq> length bs \<or> mb_state (bs ! it) = FREE" "mb_state (bs ! it) \<noteq> FIXED"
    by (meson not_less)
  then show ?case
  proof cases
    case fin
    have "best_ok bs sz ps pe (length bs) best"
      by (rule sel_inv_end [OF inv]) (use cand fin in \<open>meson order_less_le_trans order_trans\<close>)
    then show ?thesis using fin by (subst select_loop.simps) simp
  next
    case low
    have cl: "closed bs r \<and> best_ok bs sz ps pe it best"
    proof -
      have "\<not> open_ok bs sz ps pe it r"
      proof
        assume o: "open_ok bs sz ps pe it r"
        then have "ps \<le> mb_ptr (bs ! rg_begin r)" "rg_begin r \<le> it" by (auto simp: open_ok_def movable_at_def)
        then show False using 1(6) low by (meson in_order_def le_trans not_less)
      qed
      then show ?thesis using inv by (auto simp: sel_inv_def)
    qed
    have "sel_inv bs sz ps pe (it + 1) r best"
      by (rule sel_inv_skip) (use cl low in \<open>auto simp: candidate_def movable_at_def\<close>)
    then have "best_ok bs sz ps pe (length bs) (select_loop bs sz ps pe (it + 1) r best)"
      using 1(1) 1(6) low by simp
    then show ?thesis using low by (subst select_loop.simps) simp
  next
    case high
    have "best_ok bs sz ps pe (length bs) best"
    proof (rule sel_inv_end [OF inv])
      fix i j assume c: "candidate bs sz ps pe i j"
      have "\<not> it < j"
      proof
        assume "it < j"
        then have "it \<le> j - 1 \<and> j - 1 < length bs" using cand(2,3) [OF c] by auto
        then have "mb_ptr (bs ! it) \<le> mb_ptr (bs ! (j - 1))" using 1(6) unfolding in_order_def by blast
        moreover have "movable_at bs ps pe (j - 1)" using cand(3,4) [OF c] by auto
        ultimately show False using high by (simp add: movable_at_def)
      qed
      then show "i < it \<and> j \<le> it" using cand(3) [OF c] by simp
    qed
    then show ?thesis using high by (subst select_loop.simps) simp
  next
    case skip
    have "\<not> open_ok bs sz ps pe it r" using skip by (auto simp: open_ok_def)
    then have cl: "closed bs r \<and> best_ok bs sz ps pe it best" using inv by (auto simp: sel_inv_def)
    have "sel_inv bs sz ps pe (it + 1) r best"
      by (rule sel_inv_skip) (use cl skip in \<open>auto simp: candidate_def\<close>)
    then have "best_ok bs sz ps pe (length bs) (select_loop bs sz ps pe (it + 1) r best)"
      using 1(2) 1(6) skip by simp
    then show ?thesis using skip by (subst select_loop.simps) simp
  next
    case fixed
    have "sel_inv bs sz ps pe (it + 1) (reset_region bs) best" by (rule sel_inv_fixed [OF inv fixed(1,5)])
    then have "best_ok bs sz ps pe (length bs) (select_loop bs sz ps pe (it + 1) (reset_region bs) best)"
      using 1(3) 1(6) fixed by simp
    then show ?thesis using fixed by (subst select_loop.simps) simp
  next
    case join
    have mv: "movable_at bs ps pe it" using join by (simp add: movable_at_def)
    let ?q = "joined bs it r"
    note sj = sel_inv_join [OF inv join(1) mv join(4)]
    let ?b = "if rg_begin r = length bs then it else rg_begin r"
    have qe: "(if mb_state (bs ! it) = FREE
        then r\<lparr> rg_begin := ?b, rg_end := it + 1, rg_free := rg_free r + mb_actual_size (bs ! it) \<rparr>
        else r\<lparr> rg_begin := ?b, rg_end := it + 1, rg_in_use := rg_in_use r + mb_actual_size (bs ! it) \<rparr>) = ?q"
      by (simp add: joined_def free_at_def used_at_def)
    show ?thesis
    proof (cases "sz \<le> rg_free ?q")
      case True
      then have "sel_inv bs sz ps pe (?b + 1) (reset_region bs) (better_region ?q best)"
        using sj by (simp add: joined_def)
      then have "best_ok bs sz ps pe (length bs)
          (select_loop bs sz ps pe (?b + 1) (reset_region bs) (better_region ?q best))"
        using 1(4) [OF _ _ _ _ _ refl refl qe [symmetric]] 1(6) join True by auto
      then show ?thesis using True by (simp add: select_loop_join [OF join] joined_def)
    next
      case False
      then have "sel_inv bs sz ps pe (it + 1) ?q best" using sj by simp
      then have "best_ok bs sz ps pe (length bs) (select_loop bs sz ps pe (it + 1) ?q best)"
        using 1(5) [OF _ _ _ _ _ refl refl qe [symmetric]] 1(6) join False by auto
      then show ?thesis using False by (simp add: select_loop_join [OF join])
    qed
  qed
qed

text \<open>The blocks of a region and their sums.\<close>

lemma candidate_not_fixed: "candidate bs sz ps pe i j \<Longrightarrow> \<not> list_ex (\<lambda>b. mb_state b = FIXED) (region_blocks bs i j)"
proof
  assume c: "candidate bs sz ps pe i j" and x: "list_ex (\<lambda>b. mb_state b = FIXED) (region_blocks bs i j)"
  obtain n where "n < length (region_blocks bs i j)" "mb_state (region_blocks bs i j ! n) = FIXED"
    using x by (auto simp: list_ex_length)
  then have "mb_state (bs ! (i + n)) = FIXED" "i + n < j" using c by (auto simp: region_blocks_def candidate_def)
  then show False using c by (simp add: candidate_def movable_at_def)
qed

definition needs_moves :: "memory_block list \<Rightarrow> nat \<Rightarrow> nat \<Rightarrow> bool" where
  "needs_moves bs i j \<longleftrightarrow> list_ex (\<lambda>b. mb_state b = IN_USE) (region_blocks bs i j)"

lemma check_region_candidate:
  "candidate bs sz ps pe (rg_begin r) (rg_end r) \<Longrightarrow>
   check_region bs r = Inr (needs_moves bs (rg_begin r) (rg_end r))"
  by (simp add: check_region_def candidate_not_fixed needs_moves_def)

lemma sel_inv_start: "sel_inv bs sz ps pe 0 (reset_region bs) None"
  by (simp add: sel_inv_def closed_def reset_region_def best_ok_def)

lemma select_region_found:
  assumes "in_order bs" "candidate bs sz ps pe i j"
  obtains r where "select_loop bs sz ps pe 0 (reset_region bs) None = Some r"
    "candidate bs sz ps pe (rg_begin r) (rg_end r)"
    "\<And>i j. candidate bs sz ps pe i j \<Longrightarrow> used_sum bs (rg_begin r) (rg_end r) \<le> used_sum bs i j"
    "rg_free r = free_sum bs (rg_begin r) (rg_end r)" "rg_in_use r = used_sum bs (rg_begin r) (rg_end r)"
proof -
  let ?s = "select_loop bs sz ps pe 0 (reset_region bs) None"
  have b: "best_ok bs sz ps pe (length bs) ?s" by (rule select_loop_best [OF assms(1) sel_inv_start])
  have all: "\<exists>q. ?s = Some q \<and> rg_in_use q \<le> used_sum bs i j" if "candidate bs sz ps pe i j" for i j
  proof -
    have "i < length bs" using that by (simp add: candidate_def)
    then show ?thesis using b that unfolding best_ok_def by blast
  qed
  then obtain r where r: "?s = Some r" using assms(2) by blast
  moreover have "candidate bs sz ps pe (rg_begin r) (rg_end r)" "rg_free r = free_sum bs (rg_begin r) (rg_end r)"
    and u: "rg_in_use r = used_sum bs (rg_begin r) (rg_end r)"
    using b r unfolding best_ok_def by blast+
  moreover have "used_sum bs (rg_begin r) (rg_end r) \<le> used_sum bs i j" if "candidate bs sz ps pe i j" for i j
    using all [OF that] r u by auto
  ultimately show ?thesis using that by blast
qed

lemma select_region_none:
  assumes "in_order bs" "\<And>i j. \<not> candidate bs sz ps pe i j"
  shows "select_loop bs sz ps pe 0 (reset_region bs) None = None"
proof (cases "select_loop bs sz ps pe 0 (reset_region bs) None")
  case (Some r)
  have "best_ok bs sz ps pe (length bs) (select_loop bs sz ps pe 0 (reset_region bs) None)"
    by (rule select_loop_best [OF assms(1) sel_inv_start])
  then show ?thesis using assms(2) Some unfolding best_ok_def by blast
qed

lemma mtiles_in_order:
  assumes "mtiles a bs e" shows "in_order bs"
proof -
  have "mb_ptr (bs ! i) \<le> mb_ptr (bs ! j) \<and> a \<le> mb_ptr (bs ! i)" if "mtiles a bs e" "i \<le> j" "j < length bs" for a i j
    using that
  proof (induction bs arbitrary: a i j)
    case (Cons b bs)
    show ?case
    proof (cases j)
      case 0 then show ?thesis using Cons.prems by simp
    next
      case (Suc k)
      show ?thesis
      proof (cases i)
        case 0
        have "a + mb_actual_size b \<le> mb_ptr (bs ! k)" using Cons.IH [of "a + mb_actual_size b" k k] Cons.prems Suc by simp
        then show ?thesis using Cons.prems 0 Suc by simp
      next
        case (Suc l)
        then show ?thesis using Cons.IH [of "a + mb_actual_size b" l k] Cons.prems \<open>j = Suc k\<close> by simp
      qed
    qed
  qed simp
  then show ?thesis using assms unfolding in_order_def by blast
qed

lemma select_region_complete:
  assumes "in_order bs"
  shows "(if \<exists>i j. candidate bs sz ps pe i j
    then \<exists>r. candidate bs sz ps pe (rg_begin r) (rg_end r) \<and>
           (\<forall>i j. candidate bs sz ps pe i j \<longrightarrow> used_sum bs (rg_begin r) (rg_end r) \<le> used_sum bs i j) \<and>
           SelectRegionForResourceAllocation bs sz ps pe out =
             Inr (True, needs_moves bs (rg_begin r) (rg_end r),
                  if needs_moves bs (rg_begin r) (rg_end r) then Some r else snd out)
    else SelectRegionForResourceAllocation bs sz ps pe out = Inr (False, out))"
proof (cases "\<exists>i j. candidate bs sz ps pe i j")
  case True
  then obtain i j where c: "candidate bs sz ps pe i j" by blast
  obtain r where r: "select_loop bs sz ps pe 0 (reset_region bs) None = Some r"
    "candidate bs sz ps pe (rg_begin r) (rg_end r)"
    "\<And>i j. candidate bs sz ps pe i j \<Longrightarrow> used_sum bs (rg_begin r) (rg_end r) \<le> used_sum bs i j"
    by (rule select_region_found [OF assms c]) blast
  have "SelectRegionForResourceAllocation bs sz ps pe out =
     Inr (True, needs_moves bs (rg_begin r) (rg_end r),
          if needs_moves bs (rg_begin r) (rg_end r) then Some r else snd out)"
    using r(1) check_region_candidate [OF r(2)] by (simp add: SelectRegionForResourceAllocation_def)
  then show ?thesis using True r(2,3) by auto
next
  case False
  then show ?thesis using select_region_none [OF assms] by (simp add: SelectRegionForResourceAllocation_def)
qed

section \<open>The region for the workspace\<close>

definition ws_end :: "memory_block list \<Rightarrow> nat" where
  "ws_end bs = (if bs \<noteq> [] \<and> mb_state (last bs) = FIXED then length bs - 1 else length bs)"

definition unfixed :: "memory_block list \<Rightarrow> nat \<Rightarrow> nat \<Rightarrow> bool" where
  "unfixed bs i j \<longleftrightarrow> (\<forall>k. i \<le> k \<and> k < j \<longrightarrow> mb_state (bs ! k) \<noteq> FIXED)"

lemma unfixed_region: "unfixed bs i j \<Longrightarrow> j \<le> length bs \<Longrightarrow> \<not> list_ex (\<lambda>b. mb_state b = FIXED) (region_blocks bs i j)"
  by (auto simp: list_ex_length region_blocks_def unfixed_def)

lemma ws_free_memory_bound:
  assumes "k \<le> length bs" "m \<le> k" "unfixed bs m (min k (ws_end bs))" "acc \<le> free_sum bs m (min k (ws_end bs))"
    "acc = 0 \<or> (\<forall>j. k \<le> j \<and> j < length bs \<longrightarrow> ps \<le> mb_ptr (bs ! j))"
    "in_order bs" "\<forall>b\<in>set bs. mb_ptr b < pe"
  shows "\<exists>m. unfixed bs m (ws_end bs) \<and> ws_free_memory ps pe (drop k bs) acc \<le> free_sum bs m (ws_end bs)"
  using assms(1-5)
proof (induction "length bs - k" arbitrary: k m acc)
  case 0
  then have "min k (ws_end bs) = ws_end bs" by (auto simp: ws_end_def)
  then show ?case using 0 by auto
next
  case (Suc n)
  then have k: "k < length bs" by simp
  have d: "drop k bs = bs ! k # drop (k + 1) bs" using k by (simp add: Cons_nth_drop_Suc)
  have we: "ws_end bs = (if mb_state (bs ! (length bs - 1)) = FIXED then length bs - 1 else length bs)"
    using k last_conv_nth [of bs] by (cases "bs = []") (simp_all add: ws_end_def)
  have pe: "mb_ptr (bs ! k) < pe" using assms(7) k by simp
  have step: "\<exists>m. unfixed bs m (ws_end bs) \<and> ws_free_memory ps pe (drop (k + 1) bs) acc' \<le> free_sum bs m (ws_end bs)"
    if "m' \<le> k + 1" "unfixed bs m' (min (k + 1) (ws_end bs))" "acc' \<le> free_sum bs m' (min (k + 1) (ws_end bs))"
      "acc' = 0 \<or> (\<forall>j. k + 1 \<le> j \<and> j < length bs \<longrightarrow> ps \<le> mb_ptr (bs ! j))" for m' acc'
    using Suc.hyps(1) [of "k + 1" m' acc'] that Suc.hyps(2) k by simp
  consider (low) "mb_ptr (bs ! k) < ps" | (fin) "ps \<le> mb_ptr (bs ! k)" "mb_state (bs ! k) = FIXED" "k = length bs - 1"
    | (fixed) "ps \<le> mb_ptr (bs ! k)" "mb_state (bs ! k) = FIXED" "k \<noteq> length bs - 1"
    | (opn) "ps \<le> mb_ptr (bs ! k)" "mb_state (bs ! k) \<noteq> FIXED" by fastforce
  then show ?case
  proof cases
    case low
    then have "acc = 0" using Suc.prems(5) k by auto
    moreover have "unfixed bs (k + 1) (min (k + 1) (ws_end bs))" by (auto simp: unfixed_def)
    ultimately show ?thesis using step [of "k + 1" 0] low by (simp add: d)
  next
    case fin
    then have mk: "min k (ws_end bs) = ws_end bs" by (simp add: we)
    have "drop (k + 1) bs = []" using fin(3) by simp
    then have "ws_free_memory ps pe (drop k bs) acc = acc" using fin pe unfolding d by simp
    then show ?thesis using Suc.prems(3,4) by (auto simp: mk)
  next
    case fixed
    have "drop (k + 1) bs \<noteq> []" using fixed(3) k by auto
    then have "ws_free_memory ps pe (drop k bs) acc = ws_free_memory ps pe (drop (k + 1) bs) 0"
      using fixed pe by (simp add: d)
    moreover have "unfixed bs (k + 1) (min (k + 1) (ws_end bs))" by (auto simp: unfixed_def)
    ultimately show ?thesis using step [of "k + 1" 0] by simp
  next
    case opn
    have "k \<noteq> length bs - 1 \<or> mb_state (bs ! (length bs - 1)) \<noteq> FIXED" using opn(2) by blast
    then have ke: "k < ws_end bs" using k by (auto simp: we)
    then have mk: "min k (ws_end bs) = k" "min (k + 1) (ws_end bs) = k + 1" by auto
    have u: "unfixed bs m (k + 1)" using Suc.prems(3) opn by (auto simp: mk unfixed_def less_Suc_eq)
    have f: "free_sum bs m (k + 1) = free_sum bs m k + free_at bs k" using sums_Suc(1) [OF Suc.prems(2), of bs] by simp
    have hi: "\<forall>j. k + 1 \<le> j \<and> j < length bs \<longrightarrow> ps \<le> mb_ptr (bs ! j)"
      using opn(1) assms(6) unfolding in_order_def by (meson le_trans add_leD1)
    have e: "ws_free_memory ps pe (drop k bs) acc = ws_free_memory ps pe (drop (k + 1) bs) (acc + free_at bs k)"
      using opn pe by (auto simp: d free_at_def)
    show ?thesis unfolding e
    proof (rule step)
      show "m \<le> k + 1" using Suc.prems(2) by simp
      show "unfixed bs m (min (k + 1) (ws_end bs))" unfolding mk using u .
      show "acc + free_at bs k \<le> free_sum bs m (min (k + 1) (ws_end bs))" unfolding mk using Suc.prems(4) f by (simp add: mk)
      show "acc + free_at bs k = 0 \<or> (\<forall>j. k + 1 \<le> j \<and> j < length bs \<longrightarrow> ps \<le> mb_ptr (bs ! j))" using hi by blast
    qed
  qed
qed

lemma ws_region_found:
  assumes "i \<le> e" "e \<le> length bs" "unfixed bs m e" "req \<le> free_sum bs m e" "free_sum bs i e < req"
    "rg_end r = e" "rg_free r = free_sum bs i e" "m < i" "e = ws_end bs"
  shows "\<exists>r'. ws_region bs req i r = Inr r' \<and> m \<le> rg_begin r' \<and> rg_begin r' < e \<and> rg_end r' = e \<and>
     mb_state (bs ! rg_begin r') = FREE \<and> rg_free r' = free_sum bs (rg_begin r') e \<and> req \<le> rg_free r' \<and>
     free_sum bs (rg_begin r' + 1) e < req"
  using assms(1,5,6,7,8)
proof (induction i arbitrary: r)
  case (Suc i)
  have i: "i < e" "m \<le> i" using Suc.prems by auto
  have nf: "mb_state (bs ! i) \<noteq> FIXED" using assms(3) i by (simp add: unfixed_def)
  have fs: "free_sum bs i e = free_at bs i + free_sum bs (Suc i) e"
    using i by (simp add: free_sum_def sum.atLeast_Suc_lessThan)
  show ?case
  proof (cases "mb_state (bs ! i) = FREE")
    case True
    define q where "q = r\<lparr> rg_begin := i, rg_free := rg_free r + mb_actual_size (bs ! i) \<rparr>"
    have q: "rg_free q = free_sum bs i e" "rg_end q = e" "rg_begin q = i"
      using Suc.prems True fs by (auto simp: q_def free_at_def)
    have e: "ws_region bs req (Suc i) r = (if req \<le> rg_free q then Inr q else ws_region bs req i q)"
      using nf True by (simp add: q_def)
    show ?thesis
    proof (cases "req \<le> rg_free q")
      case True
      then show ?thesis using e q i Suc.prems(2) \<open>mb_state (bs ! i) = FREE\<close> by auto
    next
      case False
      then have "m \<noteq> i" using assms(4) q by auto
      then show ?thesis using e Suc.IH [of q] False q i by auto
    qed
  next
    case False
    then have fa: "free_sum bs i e = free_sum bs (Suc i) e" using fs by (simp add: free_at_def)
    have "m \<noteq> i" using assms(4) fa Suc.prems(2) by auto
    then show ?thesis
      using Suc.IH [of "r\<lparr> rg_in_use := rg_in_use r + mb_actual_size (bs ! i) \<rparr>"] Suc.prems fa nf False i by auto
  qed
qed simp

lemma ws_grow_sound:
  assumes "in_order bs" "\<forall>b\<in>set bs. mb_ptr b < pe" and need: "0 < sub64 sz (workspace_size d)"
    and nf: "\<not> workspace_fits bs sz" and en: "sub64 sz (workspace_size d) \<le> ws_free_memory ps pe bs 0"
  shows "\<exists>r. SelectRegionForWorkspaceGrow d bs sz ps pe out =
       Inr (True, needs_moves bs (rg_begin r) (rg_end r),
            if needs_moves bs (rg_begin r) (rg_end r) then Some r else snd out) \<and>
     rg_begin r < rg_end r \<and> rg_end r = ws_end bs \<and> unfixed bs (rg_begin r) (ws_end bs) \<and>
     sub64 sz (workspace_size d) \<le> free_sum bs (rg_begin r) (ws_end bs) \<and>
     free_sum bs (rg_begin r + 1) (ws_end bs) < sub64 sz (workspace_size d)"
proof -
  let ?req = "sub64 sz (workspace_size d)" and ?e = "ws_end bs"
  have el: "?e \<le> length bs" by (simp add: ws_end_def)
  obtain m where m: "unfixed bs m ?e" "ws_free_memory ps pe bs 0 \<le> free_sum bs m ?e"
    using ws_free_memory_bound [of 0 bs 0 0 ps pe] assms(1,2) by (auto simp: unfixed_def)
  have me: "m < ?e" using m(2) en need by (cases "m < ?e") (auto simp: free_sum_def)
  then have ne: "bs \<noteq> []" using el by auto
  define r0 where "r0 = (whole_region bs)\<lparr> rg_end := ?e \<rparr>"
  have r0: "rg_end r0 = ?e" "rg_free r0 = free_sum bs ?e ?e"
    by (simp_all add: r0_def whole_region_def free_sum_def)
  have "ws_region bs ?req (length bs) (whole_region bs) = ws_region bs ?req ?e r0"
  proof (cases "mb_state (last bs) = FIXED")
    case True
    obtain n where n: "length bs = Suc n" using ne by (cases "length bs") auto
    then show ?thesis using True ne by (simp add: ws_end_def r0_def last_conv_nth)
  next
    case False
    then show ?thesis by (simp add: ws_end_def r0_def whole_region_def)
  qed
  then obtain r where r: "ws_region bs ?req (length bs) (whole_region bs) = Inr r" "m \<le> rg_begin r" "rg_begin r < ?e"
    "rg_end r = ?e" "rg_free r = free_sum bs (rg_begin r) ?e" "?req \<le> rg_free r" "free_sum bs (rg_begin r + 1) ?e < ?req"
    using ws_region_found [OF le_refl el m(1) _ _ r0 me refl, of ?req] m(2) en need by (auto simp: free_sum_def)
  have u: "unfixed bs (rg_begin r) ?e" using m(1) r(2) by (simp add: unfixed_def)
  have "check_region bs r = Inr (needs_moves bs (rg_begin r) (rg_end r))"
    using unfixed_region [OF u el] by (simp add: check_region_def needs_moves_def r(4))
  then have "SelectRegionForWorkspaceGrow d bs sz ps pe out =
       Inr (True, needs_moves bs (rg_begin r) (rg_end r),
            if needs_moves bs (rg_begin r) (rg_end r) then Some r else snd out)"
    using r(1) nf en by (simp add: SelectRegionForWorkspaceGrow_def)
  then show ?thesis using r u by (intro exI [of _ r] conjI) simp_all
qed

section \<open>Alignment of the request\<close>

lemma align64_up:
  assumes al: "al = 2 ^ k" "k < 64" and n: "n + al \<le> u64_lim"
  shows "align64 al n = ((n + al - 1) div al) * al"
proof -
  let ?N = "n + al - 1"
  have "0 < al" using al(1) by simp
  then have N: "?N < 2 ^ 64" "1 \<le> n + al" using n by (auto simp: u64_lim_def)
  have e: "(of_nat n + of_nat al - 1 :: 64 word) = of_nat ?N"
    using N(2) by (simp add: of_nat_diff)
  have m: "(of_nat al - 1 :: 64 word) = mask k" using al(1) by (simp add: mask_eq_exp_minus_1)
  have "align64 al n = unat (push_bit k (drop_bit k (of_nat ?N :: 64 word)))"
    unfolding align64_def e m by (rule arg_cong [of _ _ unat]) (auto simp: bit_eq_iff bit_simps)
  also have "drop_bit k (of_nat ?N :: 64 word) = of_nat (?N div al)"
  proof (rule word_unat_eq_iff [THEN iffD2])
    have "?N div al < 2 ^ 64" using N(1) div_le_dividend [of ?N al] by linarith
    then show "unat (drop_bit k (of_nat ?N :: 64 word)) = unat (of_nat (?N div al) :: 64 word)"
      using N(1) unfolding unat_drop_bit_eq unat_of_nat by (simp add: drop_bit_eq_div al(1) take_bit_nat_eq_self)
  qed
  also have "push_bit k (of_nat (?N div al) :: 64 word) = of_nat (?N div al * al)"
    using al(1) by (simp add: push_bit_eq_mult)
  also have "unat (of_nat (?N div al * al) :: 64 word) = ?N div al * al"
  proof -
    have "?N div al * al < 2 ^ 64" using N(1) div_times_less_eq_dividend [of ?N al] by linarith
    then show ?thesis unfolding unat_of_nat by (simp add: take_bit_nat_eq_self)
  qed
  finally show ?thesis .
qed

end
