(* ===== verification/Device_Inv.thy ===== *)
theory Device_Inv
  imports Device_Users Device_Pool Defrag_Props
begin

text \<open>
  The invariant of \<open>device_memory\<close> between the table of handles and the pool, and the operations
  that keep it: creating a handle, taking memory for it, and freeing it.
\<close>

section \<open>The table\<close>

definition ptr_at :: "handles_map \<Rightarrow> 64 word \<Rightarrow> nat" where
  "ptr_at m i = (case hm_lookup m i of None \<Rightarrow> 0 | Some r \<Rightarrow> ps_ptr (hr_ptr_size r))"

definition size_at :: "handles_map \<Rightarrow> 64 word \<Rightarrow> nat" where
  "size_at m i = (case hm_lookup m i of None \<Rightarrow> 0 | Some r \<Rightarrow> unat (ps_size (hr_ptr_size r)))"

text \<open>A record that is not active has no memory.\<close>

definition hm_clean :: "handles_map \<Rightarrow> bool" where
  "hm_clean m \<longleftrightarrow> (\<forall>recs\<in>set (handles m). \<forall>r\<in>set recs. \<not> hr_active r \<longrightarrow> ps_ptr (hr_ptr_size r) = 0)"

lemma hm_clean_new: "hm_clean HandlesMap_new"
  by (simp add: hm_clean_def HandlesMap_new_def Record_default_def)

lemma hm_clean_set:
  assumes "hm_clean m" "hr_active r \<or> ps_ptr (hr_ptr_size r) = 0"
    "handles t = (handles m)[b := recs]" "set recs \<subseteq> insert r (set (handles m ! b))" "b < length (handles m)"
  shows "hm_clean t"
  unfolding hm_clean_def
proof (intro ballI impI)
  fix rs q assume q: "rs \<in> set (handles t)" "q \<in> set rs" "\<not> hr_active q"
  have "rs = recs \<or> rs \<in> set (handles m)"
    using q(1) assms(3) set_update_subset_insert [of "handles m" b recs] by auto
  then have "q = r \<or> (\<exists>rs\<in>set (handles m). q \<in> set rs)" using q(2) assms(4,5) nth_mem by blast
  then show "ps_ptr (hr_ptr_size q) = 0" using assms(1,2) q(3) unfolding hm_clean_def by auto
qed

lemma hm_clean_update:
  assumes "hm_clean m" "hm_inv m" "hm_lookup m i = Some r" "hr_active (f r) \<or> ps_ptr (hr_ptr_size (f r)) = 0"
  shows "hm_clean (hm_update i f m)"
proof -
  from hm_lookup_Some [OF assms(2,3)] obtain b j where bj: "i = hid b j" "b < 3" "0 < j"
    "j < length (handles m ! b)" "r = handles m ! b ! j" by blast
  note p = hid_parts(3,4) [OF assms(2) bj(2,4)]
  show ?thesis
  proof (rule hm_clean_set [OF assms(1,4)])
    show "handles (hm_update i f m) = (handles m)[b := (handles m ! b)[j := f r]]"
      using p bj(1,5) by (simp add: hm_update_def Let_def)
    show "set ((handles m ! b)[j := f r]) \<subseteq> insert (f r) (set (handles m ! b))"
      by (rule set_update_subset_insert)
    show "b < length (handles m)" using assms(2) bj(2) by (simp add: hm_inv_def)
  qed
qed

lemma hm_clean_Insert:
  assumes "hm_clean m" "hm_inv m" "hm_Insert sz us m = Inr (i, t)"
  shows "hm_clean t"
proof -
  let ?r = "Record_new sz us"
  have a: "hr_active ?r \<or> ps_ptr (hr_ptr_size ?r) = 0" by (simp add: Record_new_def)
  from assms(3) obtain b where b: "getBucketIndexForGivenTensorSize sz = Inr b"
    by (auto simp: hm_Insert_def bindR_eq_Inr)
  have l: "b < length (handles m)" using assms(2) size_class(1) [OF b] by (simp add: hm_inv_def)
  have "\<exists>recs. handles t = (handles m)[b := recs] \<and> set recs \<subseteq> insert ?r (set (handles m ! b))"
  proof (cases "free_handles m ! b")
    case Nil
    then show ?thesis using assms(3) b
      by (intro exI [of _ "handles m ! b @ [?r]"])
        (auto simp: hm_Insert_def bindR_eq_Inr Let_def split: if_splits)
  next
    case (Cons x q)
    then show ?thesis using assms(3) b set_update_subset_insert [of "handles m ! b" "unat x" ?r]
      by (intro exI [of _ "(handles m ! b)[unat x := ?r]"])
        (auto simp: hm_Insert_def bindR_eq_Inr Let_def split: if_splits)
  qed
  then show ?thesis using hm_clean_set [OF assms(1) a _ _ l] by blast
qed

lemma hm_clean_Erase:
  assumes "hm_clean m" "hm_inv m" "hm_lookup m i = Some r" "hm_Erase i m = Inr t"
  shows "hm_clean t"
proof -
  let ?f = "\<lambda>r. r\<lparr> hr_active := False, hr_ptr_size := (hr_ptr_size r)\<lparr> ps_size := 0, ps_ptr := 0 \<rparr> \<rparr>"
  have "handles t = handles (hm_update i ?f m)" using assms(4) by (auto simp: hm_Erase_def bindR_eq_Inr Let_def)
  moreover have "hm_clean (hm_update i ?f m)" by (rule hm_clean_update [OF assms(1-3)]) simp
  ultimately show ?thesis by (simp add: hm_clean_def)
qed

text \<open>The pointer of a handle that is in use.\<close>

lemma lookup_handle_ok:
  assumes "hm_inv m" "hm_lookup m i = Some r" "off < 2 ^ class_bits (get_bucket_index i)"
  shows "handle_ok \<lparr> mh_id = i, mh_offset = off \<rparr>"
proof -
  from hm_lookup_Some [OF assms(1,2)] obtain b j where bj: "i = hid b j" "b < 3" "0 < j"
    "j < length (handles m ! b)" by blast
  note p = hid_parts [OF assms(1) bj(2,4)] and c = class_len [OF assms(1) bj(2,4)]
  show ?thesis using p c assms(3) bj(1) by (simp add: handle_ok_def fits_class_def)
qed

lemma handle_pointer:
  assumes "handle_ok h"
  shows "\<exists>p. reinterpret_to_pointer h = Inr p \<and> reinterpret_from_pointer p = Inr h"
proof -
  from handle_ok_class [OF assms] obtain ty i off where h: "h = \<lparr> mh_id = create_memhandle ty i, mh_offset = off \<rparr>"
    "ty < 3" "fits_class (class_bits ty) i off" by metis
  then show ?thesis using to_pointer_class [OF h(2,3)] from_pointer_class [OF h(2,3)] by simp
qed

lemma lookup_valid: "hm_inv m \<Longrightarrow> hm_lookup m i = Some r \<Longrightarrow> is_valid i"
proof -
  assume "hm_inv m" "hm_lookup m i = Some r"
  then have "get_handle_index i \<noteq> 0" by (auto simp: hm_lookup_def split: option.splits if_splits)
  then show ?thesis by (auto simp: is_valid_def get_handle_index_def)
qed

lemma from_pointer_0: "reinterpret_from_pointer 0 = Inr \<lparr> mh_id = 0, mh_offset = 0 \<rparr>"
  by code_simp

section \<open>The invariant\<close>

text \<open>
  Every handle outside \<open>V\<close> that has memory has a positive size and at least that much of the heap
  of the pool, and no two of them have the same address.
\<close>

definition backed :: "64 word set \<Rightarrow> handles_map \<Rightarrow> pool \<Rightarrow> bool" where
  "backed V m s \<longleftrightarrow>
     (\<forall>i. i \<notin> V \<and> ptr_at m i \<noteq> 0 \<longrightarrow>
        0 < size_at m i \<and> (\<exists>a\<ge>size_at m i. (ptr_at m i, a) \<in> heap_live s)) \<and>
     (\<forall>i k. i \<notin> V \<and> k \<notin> V \<and> ptr_at m i \<noteq> 0 \<and> ptr_at m i = ptr_at m k \<longrightarrow> i = k)"

definition table_ok :: "handles_map \<Rightarrow> bool" where
  "table_ok m \<longleftrightarrow> hm_inv m \<and> hm_clean m \<and> (\<forall>i. size_at m i < 2 ^ 42)"

definition alignment_ok :: "nat \<Rightarrow> bool" where
  "alignment_ok al \<longleftrightarrow> (\<exists>k\<le>41. al = 2 ^ k)"

definition dm_inv :: "device_memory \<Rightarrow> bool" where
  "dm_inv d \<longleftrightarrow> pool_strategy d = startegy_coalesce_stringent \<and> alignment_ok (dm_alignment d) \<and>
     table_ok (handle2pointer d) \<and>
     (case suballoc d of None \<Rightarrow> False
      | Some s \<Rightarrow> good_pool s \<and> alignment s = dm_alignment d \<and> backed {} (handle2pointer d) s)"

lemma dm_invE:
  assumes "dm_inv d"
  obtains s where "suballoc d = Some s" "good_pool s" "alignment s = dm_alignment d"
    "backed {} (handle2pointer d) s" "table_ok (handle2pointer d)" "alignment_ok (dm_alignment d)"
    "pool_strategy d = startegy_coalesce_stringent" "suballocator_of d = Inr s"
  using assms by (auto simp: dm_inv_def suballocator_of_def split: option.splits)

lemma backed_lookup: "hm_lookup m' = hm_lookup m \<Longrightarrow> backed V m' s = backed V m s"
  by (simp add: backed_def ptr_at_def size_at_def)

lemma block_align_request:
  assumes al: "alignment_ok al" and n: "0 < n" "n < 2 ^ 42"
  shows "n \<le> align64 al n \<and> 0 < align64 al n \<and> align64 al n < u64_lim \<and> align64 al n mod al = 0"
proof -
  obtain k where k: "al = 2 ^ k" "k \<le> 41" using al by (auto simp: alignment_ok_def)
  have "al \<le> 2 ^ 41" unfolding k(1) by (rule power_increasing [OF k(2)]) simp
  then have l: "n + al \<le> u64_lim" using n(2) by (simp add: u64_lim_def)
  have e: "align64 al n = ((n + al - 1) div al) * al" by (rule align64_up [OF k(1) _ l]) (use k in simp)
  have pos: "0 < al" using k by simp
  have "n + al - 1 = (n + al - 1) div al * al + (n + al - 1) mod al" by simp
  moreover have "(n + al - 1) mod al < al" using pos by simp
  ultimately have ge: "n \<le> align64 al n" unfolding e using pos by linarith
  have "(n + al - 1) div al * al \<le> n + al - 1" by simp
  then have "align64 al n < u64_lim" unfolding e using l pos by linarith
  moreover have "align64 al n mod al = 0" by (simp add: e)
  moreover have "0 < align64 al n" using ge n(1) by linarith
  ultimately show ?thesis using ge by simp
qed

section \<open>Creating a handle\<close>

lemma dm_malloc_step:
  assumes inv: "dm_inv d" and room: "hm_room (sz, stream) (handle2pointer d)"
  shows "\<exists>p i m. dm_malloc_stream env sz stream d = Inr (True, p, d\<lparr> handle2pointer := m \<rparr>) \<and>
    dm_inv (d\<lparr> handle2pointer := m \<rparr>) \<and> hm_lookup (handle2pointer d) i = None \<and>
    hm_lookup m = (hm_lookup (handle2pointer d))(i \<mapsto> Record_new sz stream) \<and>
    reinterpret_from_pointer p = Inr \<lparr> mh_id = i, mh_offset = 0 \<rparr> \<and> p \<noteq> 0"
proof -
  let ?m = "handle2pointer d"
  from inv obtain s where s: "suballoc d = Some s" "good_pool s" "alignment s = dm_alignment d"
    "backed {} ?m s" "table_ok ?m" "alignment_ok (dm_alignment d)" "pool_strategy d = startegy_coalesce_stringent"
    by (rule dm_invE)
  have hi: "hm_inv ?m" "hm_clean ?m" using s(5) by (auto simp: table_ok_def)
  from handle_map.insert_law [OF hi(1) room] obtain i m where m: "hm_Insert sz stream ?m = Inr (i, m)"
    "hm_inv m" "hm_lookup ?m i = None" "hm_lookup m = (hm_lookup ?m)(i \<mapsto> Record_new sz stream)" by auto
  have li: "hm_lookup m i = Some (Record_new sz stream)" using m(4) by simp
  have "handle_ok \<lparr> mh_id = i, mh_offset = 0 \<rparr>"
    by (rule lookup_handle_ok [OF m(2) li]) (use class_bits_cases [of "get_bucket_index i"] in auto)
  from handle_pointer [OF this] obtain p where p: "reinterpret_to_pointer \<lparr> mh_id = i, mh_offset = 0 \<rparr> = Inr p"
    "reinterpret_from_pointer p = Inr \<lparr> mh_id = i, mh_offset = 0 \<rparr>" by blast
  have p0: "p \<noteq> 0" using p(2) from_pointer_0 lookup_valid [OF m(2) li] by (auto simp: is_valid_def)
  have pa: "ptr_at m k = ptr_at ?m k" for k
    using m(3,4) by (auto simp: ptr_at_def Record_new_def)
  have sa: "size_at m k = (if k = i then unat sz else size_at ?m k)" for k
    using m(4) by (auto simp: size_at_def Record_new_def)
  have "ptr_at ?m i = 0" using m(3) by (simp add: ptr_at_def)
  then have b: "backed {} m s" using s(4) unfolding backed_def pa sa by auto
  have "unat sz < 2 ^ 42"
  proof -
    obtain c where "getBucketIndexForGivenTensorSize sz = Inr c" using m(1) by (auto simp: hm_Insert_def bindR_eq_Inr)
    then have "sz < 2 ^ 42"
      unfolding bucket_for_size by (auto simp: word_less_nat_alt split: if_splits)
    then show ?thesis by (simp add: word_less_nat_alt)
  qed
  then have "table_ok m" using m(2) hm_clean_Insert [OF hi(2,1) m(1)] s(5) by (auto simp: table_ok_def sa)
  then have "dm_inv (d\<lparr> handle2pointer := m \<rparr>)" using s b by (simp add: dm_inv_def)
  moreover have "dm_malloc_stream env sz stream d = Inr (True, p, d\<lparr> handle2pointer := m \<rparr>)"
    using s(7) m(1) p(1) by (simp add: dm_malloc_stream_def)
  ultimately show ?thesis using m(3,4) p(2) p0 by blast
qed

lemma dm_malloc_default: "dm_malloc env sz d = dm_malloc_stream env sz 0 d"
  by (simp add: dm_malloc_def dm_malloc_stream_def)

section \<open>Taking memory for a handle\<close>

lemma set_ptr_step:
  assumes t: "table_ok m" and l: "hm_lookup m i = Some r"
    and ps: "ps = (hr_ptr_size r)\<lparr> ps_ptr := p \<rparr>"
  shows "\<exists>m'. hm_SetPtrSize i ps m = Inr m' \<and> table_ok m' \<and>
    hm_lookup m' = (hm_lookup m)(i \<mapsto> r\<lparr> hr_ptr_size := ps \<rparr>) \<and>
    (\<forall>k. ptr_at m' k = (if k = i then p else ptr_at m k)) \<and> (\<forall>k. size_at m' k = size_at m k)"
proof -
  have hi: "hm_inv m" "hm_clean m" "\<forall>i. size_at m i < 2 ^ 42" using t by (auto simp: table_ok_def)
  have a: "hr_active r" using l by (auto simp: hm_lookup_def split: option.splits if_splits)
  let ?f = "\<lambda>r. r\<lparr> hr_ptr_size := ps \<rparr>"
  let ?m = "hm_update i ?f m"
  have lk: "hm_lookup ?m = (hm_lookup m)(i \<mapsto> ?f r)"
    using hm_lookup_update [OF hi(1) l, of ?f] a by (auto simp: fun_eq_iff)
  have sz: "size_at ?m k = size_at m k" for k using l lk ps by (simp add: size_at_def)
  have "hm_inv ?m" by (rule hm_update_inv [OF hi(1) l]) (use a in simp)
  moreover have "hm_clean ?m" by (rule hm_clean_update [OF hi(2,1) l]) (use a in simp)
  ultimately have "table_ok ?m" using hi(3) sz by (simp add: table_ok_def)
  moreover have "ptr_at ?m k = (if k = i then p else ptr_at m k)" for k using lk ps by (simp add: ptr_at_def)
  ultimately show ?thesis using hm_change(1) [OF hi(1) l, of ps] lk sz by blast
qed

text \<open>New memory for handle \<open>i\<close>: it is not among the pointers of the others.\<close>

lemma backed_add:
  assumes b: "backed V m s" and g: "good_pool s" "good_pool t"
    and h: "(p, a) \<notin> pool_live s" "heap_live t = insert (p, a) (heap_live s)" and p: "p \<noteq> 0"
    and sz: "0 < size_at m i" "size_at m i \<le> a"
    and pa: "\<forall>k. ptr_at m' k = (if k = i then p else ptr_at m k)" and sa: "\<forall>k. size_at m' k = size_at m k"
  shows "backed (V - {i}) m' t"
proof -
  have other: "ptr_at m k \<noteq> p" if k: "k \<notin> V" "k \<noteq> i" for k
  proof
    assume e: "ptr_at m k = p"
    then obtain c where c: "(p, c) \<in> heap_live s" using b k p unfolding backed_def by metis
    have "(p, a) \<in> pool_live t" "(p, c) \<in> pool_live t" using h(2) c heap_live_sub by blast+
    then have "a = c" using device_pool.live_inj [of t p a c] g(2) by (simp add: good_pool_def)
    then show False using h(1) c heap_live_sub by blast
  qed
  show ?thesis
    unfolding backed_def
  proof (intro conjI allI impI)
    fix k assume k: "k \<notin> V - {i} \<and> ptr_at m' k \<noteq> 0"
    show "0 < size_at m' k" "\<exists>a\<ge>size_at m' k. (ptr_at m' k, a) \<in> heap_live t"
      using k b sz pa sa h(2) unfolding backed_def by (cases "k = i"; fastforce)+
  next
    fix k l assume kl: "k \<notin> V - {i} \<and> l \<notin> V - {i} \<and> ptr_at m' k \<noteq> 0 \<and> ptr_at m' k = ptr_at m' l"
    show "k = l"
    proof (cases "k = i \<or> l = i")
      case True
      then show ?thesis using kl pa other by (metis Diff_iff singletonD)
    next
      case False
      then show ?thesis using kl pa b unfolding backed_def by (metis Diff_iff singletonD)
    qed
  qed
qed

lemma get_and_alloc_step:
  assumes inv: "dm_inv d" and l: "hm_lookup (handle2pointer d) i = Some r"
    and sz: "0 < ps_size (hr_ptr_size r)"
  shows "\<exists>p s m. get_and_alloc_mem env i d =
      Inr (p, ps_size (hr_ptr_size r), d\<lparr> suballoc := Some s, handle2pointer := m \<rparr>) \<and>
    dm_inv (d\<lparr> suballoc := Some s, handle2pointer := m \<rparr>) \<and>
    hm_lookup m = (hm_lookup (handle2pointer d))(i \<mapsto> r\<lparr> hr_ptr_size := (hr_ptr_size r)\<lparr> ps_ptr := p \<rparr> \<rparr>) \<and>
    (ps_ptr (hr_ptr_size r) \<noteq> 0 \<longrightarrow> p = ps_ptr (hr_ptr_size r))"
proof -
  let ?m = "handle2pointer d" and ?ps = "hr_ptr_size r"
  from inv obtain s where s: "suballoc d = Some s" "good_pool s" "alignment s = dm_alignment d"
    "backed {} ?m s" "table_ok ?m" "alignment_ok (dm_alignment d)" "pool_strategy d = startegy_coalesce_stringent"
    "suballocator_of d = Inr s" by (rule dm_invE)
  have hi: "hm_inv ?m" using s(5) by (simp add: table_ok_def)
  have gp: "hm_GetPtrSize i ?m = Inr ?ps" using hm_GetPtrSize_lookup [OF hi lookup_bucket [OF hi l]] l by simp
  show ?thesis
  proof (cases "ps_ptr ?ps = 0")
    case False
    have "(hm_lookup ?m)(i \<mapsto> r\<lparr> hr_ptr_size := ?ps\<lparr> ps_ptr := ps_ptr ?ps \<rparr> \<rparr>) = hm_lookup ?m"
      using l by auto
    moreover have "d\<lparr> suballoc := Some s, handle2pointer := ?m \<rparr> = d" using s(1) by simp
    ultimately show ?thesis using False gp inv
      by (intro exI [of _ "ps_ptr ?ps"] exI [of _ s] exI [of _ ?m]) (simp add: get_and_alloc_mem_def)
  next
    case True
    let ?n = "unat (ps_size ?ps)"
    have n: "0 < ?n" "?n < 2 ^ 42" "size_at ?m i = ?n"
      using sz l s(5) by (auto simp: unat_gt_0 size_at_def table_ok_def dest!: spec [where x = i])
    note ba = block_align_request [OF s(6) n(1,2)]
    have rq: "pool_request (align64 (dm_alignment d) ?n, 0, False) s"
      using ba s(3) by (simp add: pool_request_def)
    from good_alloc [OF s(2) rq] obtain p t where t: "alloc_chunk (align64 (dm_alignment d) ?n) 0 False s = Inr (p, t)"
      "good_pool t" "same_config s t" and P: "if p = 0 then t = s else p mod alignment s = 0 \<and>
        (\<exists>a\<ge>align64 (dm_alignment d) ?n. (p, a) \<notin> pool_live s \<and> heap_live t = insert (p, a) (heap_live s))" by blast
    have run: "dm_alloc_stream env (ps_ptr ?ps) ?n (ps_stream ?ps) d = Inr (p \<noteq> 0, p, d\<lparr> suballoc := Some t \<rparr>)"
      using s(2,7,8) t(1) by (simp add: dm_alloc_stream_def SubAllocator_alloc_def pool_alloc_workspace_def
          block_align_def good_pool_def)
    from set_ptr_step [OF s(5) l refl, of p] obtain m where m: "hm_SetPtrSize i (?ps\<lparr> ps_ptr := p \<rparr>) ?m = Inr m"
      "table_ok m" "hm_lookup m = (hm_lookup ?m)(i \<mapsto> r\<lparr> hr_ptr_size := ?ps\<lparr> ps_ptr := p \<rparr> \<rparr>)"
      "\<forall>k. ptr_at m k = (if k = i then p else ptr_at ?m k)" "\<forall>k. size_at m k = size_at ?m k" by auto
    have "backed {} m t"
    proof (cases "p = 0")
      case pz: True
      then have "ptr_at m k = ptr_at ?m k" for k using m(4) l True by (simp add: ptr_at_def)
      then show ?thesis using s(4) m(5) P pz by (simp add: backed_def)
    next
      case False
      then obtain a where a: "align64 (dm_alignment d) ?n \<le> a" "(p, a) \<notin> pool_live s"
        "heap_live t = insert (p, a) (heap_live s)" using P by auto
      show ?thesis using backed_add [OF s(4,2) t(2) a(2,3) False _ _ m(4,5)] n ba a(1) by simp
    qed
    then have "dm_inv (d\<lparr> suballoc := Some t, handle2pointer := m \<rparr>)"
      using s(3,6,7) t(2,3) m(2) by (simp add: dm_inv_def same_config_def)
    moreover have "get_and_alloc_mem env i d = Inr (p, ps_size ?ps, d\<lparr> suballoc := Some t, handle2pointer := m \<rparr>)"
      using gp True run m(1) by (simp add: get_and_alloc_mem_def)
    ultimately show ?thesis using True m(3) by blast
  qed
qed

end
