(* ===== verification/Device_Run.thy ===== *)
theory Device_Run
  imports Device_Inv
begin

text \<open>
  Freeing a handle and extending the workspace under the invariant of \<open>device_memory\<close>, and what
  other threads may do meanwhile.
\<close>

section \<open>Freeing a handle\<close>

definition heap_of :: "device_memory \<Rightarrow> (nat \<times> nat) set" where
  "heap_of d = (case suballoc d of None \<Rightarrow> {} | Some s \<Rightarrow> heap_live s)"

definition not_reset :: "device_memory \<Rightarrow> 64 word \<Rightarrow> bool" where
  "not_reset d i \<longleftrightarrow> (case hm_lookup (handle2pointer d) i of None \<Rightarrow> False | Some r \<Rightarrow> \<not> hr_reset r)"

lemma backed_erase:
  assumes b: "backed {} m s" and lk: "hm_lookup m' = (hm_lookup m)(i := None)"
    and h: "heap_live t = heap_live s - {(ptr_at m i, a)}" "heap_live t = heap_live s \<or> ptr_at m i \<noteq> 0"
  shows "backed {} m' t"
proof -
  have pa: "ptr_at m' k = (if k = i then 0 else ptr_at m k)" "size_at m' k = (if k = i then 0 else size_at m k)" for k
    using lk by (simp_all add: ptr_at_def size_at_def)
  have "k \<noteq> i \<Longrightarrow> ptr_at m k \<noteq> 0 \<Longrightarrow> ptr_at m k \<noteq> ptr_at m i" for k using b unfolding backed_def by blast
  then show ?thesis using b h(1) unfolding backed_def pa by (simp split: if_splits) blast
qed

lemma dm_free_step:
  assumes inv: "dm_inv d" and nr: "not_reset d i" and p: "reinterpret_from_pointer p = Inr \<lparr> mh_id = i, mh_offset = 0 \<rparr>"
  shows "\<exists>d'. dm_free env p d = Inr d' \<and> dm_free_with_stream env p d = Inr d' \<and> dm_inv d' \<and>
    hm_lookup (handle2pointer d') = (hm_lookup (handle2pointer d))(i := None) \<and>
    heap_of d' = {q \<in> heap_of d. fst q \<noteq> ptr_at (handle2pointer d) i}"
proof -
  let ?m = "handle2pointer d"
  from inv obtain s where s: "suballoc d = Some s" "good_pool s" "alignment s = dm_alignment d"
    "backed {} ?m s" "table_ok ?m" "alignment_ok (dm_alignment d)" "pool_strategy d = startegy_coalesce_stringent"
    by (rule dm_invE)
  have hi: "hm_inv ?m" "hm_clean ?m" "\<forall>i. size_at ?m i < 2 ^ 42" using s(5) by (auto simp: table_ok_def)
  from nr obtain r where l: "hm_lookup ?m i = Some r" "\<not> hr_reset r"
    by (auto simp: not_reset_def split: option.splits)
  let ?ps = "hr_ptr_size r"
  have p0: "p \<noteq> 0" using p from_pointer_0 lookup_valid [OF hi(1) l(1)] by (auto simp: is_valid_def)
  have ck: "hm_checkIdIsReset i ?m = Inr (False, ?m)" using hm_change(4) [OF hi(1) l(1)] l(2) by simp
  have gp: "hm_GetPtrSize i ?m = Inr ?ps" using hm_GetPtrSize_lookup [OF hi(1) lookup_bucket [OF hi(1) l(1)]] l by simp
  from hm_Erase_step [OF hi(1) l(1)] obtain m where m: "hm_Erase i ?m = Inr m" "hm_inv m"
    "hm_lookup m = (hm_lookup ?m)(i := None)" by blast
  have tm: "table_ok m"
    using m hi hm_clean_Erase [OF hi(2,1) l(1) m(1)] by (simp add: table_ok_def size_at_def)
  have pt: "ptr_at ?m i = ps_ptr ?ps" using l by (simp add: ptr_at_def)
  have inv': "pool_inv s" using s(2) by (simp add: good_pool_def)
  show ?thesis
  proof (cases "ps_ptr ?ps = 0")
    case True
    let ?d = "d\<lparr> handle2pointer := m \<rparr>"
    have same: "d\<lparr> handle2pointer := ?m \<rparr> = d" by simp
    have run: "dm_free env p d = Inr ?d" "dm_free_with_stream env p d = Inr ?d"
      using p0 s(7) p ck gp m(1) True by (simp_all add: dm_free_def dm_free_with_stream_def Let_def)
    have nz: "heap_live s = heap_live s - {(ptr_at ?m i, 1)}"
      using device_pool.live_pos [OF inv', of 0 1] heap_live_sub True pt by auto
    have "backed {} m s" using backed_erase [OF s(4) m(3) nz] by simp
    then have "dm_inv ?d" using s tm by (simp add: dm_inv_def)
    moreover have "fst q \<noteq> 0" if "q \<in> heap_live s" for q
      using device_pool.live_pos [OF inv', of "fst q" "snd q"] that heap_live_sub [of s] by auto
    then have "heap_of ?d = {q \<in> heap_of d. fst q \<noteq> ptr_at ?m i}"
      using True pt s(1) by (auto simp: heap_of_def)
    ultimately show ?thesis using run m(3) by auto
  next
    case False
    then obtain a where a: "(ps_ptr ?ps, a) \<in> heap_live s"
      using s(4) pt unfolding backed_def by (metis empty_iff)
    from good_free [OF s(2) a] obtain t where t: "pool_free_chunk env (ps_ptr ?ps) s = Inr t" "good_pool t"
      "same_config s t" "heap_live t = heap_live s - {(ps_ptr ?ps, a)}" "is_stream_uses_empty (ps_ptr ?ps) s = Inr True"
      by blast
    let ?d = "d\<lparr> suballoc := Some t, handle2pointer := m \<rparr>"
    have run: "dm_free env p d = Inr ?d" "dm_free_with_stream env p d = Inr ?d"
      using p0 s(1,7) p ck gp m(1) False t(1,5)
      by (simp_all add: dm_free_def dm_free_with_stream_def Let_def dm_deallocate_def suballocator_of_def)
    have "backed {} m t" using backed_erase [OF s(4) m(3), of t a] t(4) pt False by simp
    then have "dm_inv ?d" using s t(2,3) tm by (simp add: dm_inv_def same_config_def)
    moreover have u: "q = (ps_ptr ?ps, a)" if "q \<in> heap_live s" "fst q = ps_ptr ?ps" for q
      using device_pool.live_inj [OF inv', of "ps_ptr ?ps" a "snd q"] that a heap_live_sub [of s] by (cases q) auto
    have "heap_live t = {q \<in> heap_live s. fst q \<noteq> ps_ptr ?ps}"
    proof (rule set_eqI)
      fix q show "(q \<in> heap_live t) = (q \<in> {q \<in> heap_live s. fst q \<noteq> ps_ptr ?ps})"
        unfolding t(4) using u [of q] by (cases "fst q = ps_ptr ?ps") auto
    qed
    then have "heap_of ?d = {q \<in> heap_of d. fst q \<noteq> ptr_at ?m i}" using s(1) pt by (simp add: heap_of_def)
    ultimately show ?thesis using run m(3) by (intro exI [of _ ?d]) simp
  qed
qed

lemma dm_free_dead:
  assumes "dm_inv d" "hm_lookup (handle2pointer d) i = None" "unat (get_bucket_index i) < 3" "p \<noteq> 0"
    "reinterpret_from_pointer p = Inr \<lparr> mh_id = i, mh_offset = off \<rparr>"
  shows "dm_free env p d = Inl Fatal" "dm_free_with_stream env p d = Inl Fatal"
proof -
  have "hm_inv (handle2pointer d)" "pool_strategy d = startegy_coalesce_stringent"
    using assms(1) by (auto simp: dm_inv_def table_ok_def)
  then show "dm_free env p d = Inl Fatal" "dm_free_with_stream env p d = Inl Fatal"
    using hm_check_lookup(1) [of "handle2pointer d" i] assms
    by (simp_all add: dm_free_def dm_free_with_stream_def hm_checkIdIsReset_def)
qed

section \<open>The workspace\<close>

lemma extend_workspace_step:
  assumes inv: "dm_inv d" and n: "0 < n" "n mod dm_alignment d = 0"
  shows "\<exists>p t. extend_workspace n cur d = Inr (p, d\<lparr> suballoc := Some t \<rparr>) \<and>
    dm_inv (d\<lparr> suballoc := Some t \<rparr>) \<and> heap_of d \<subseteq> heap_live t \<and>
    (p \<noteq> 0 \<longrightarrow> heap_live t = heap_of d \<and> (\<exists>a\<ge>n. (p, a) \<in> pool_live t \<and> p mod dm_alignment d = 0 \<and>
       (\<forall>(q, b)\<in>heap_of d. p + a \<le> q \<or> q + b \<le> p)))"
proof -
  let ?m = "handle2pointer d"
  from inv obtain s where s: "suballoc d = Some s" "good_pool s" "alignment s = dm_alignment d"
    "backed {} ?m s" "table_ok ?m" "alignment_ok (dm_alignment d)" "pool_strategy d = startegy_coalesce_stringent"
    "suballocator_of d = Inr s" by (rule dm_invE)
  have "n mod alignment s = 0" using n(2) s(3) by simp
  from good_extend [OF s(2) n(1) this, of cur] obtain p t where t: "extend_high_memory_allocation n cur s = Inr (p, t)"
    "good_pool t" "same_config s t" "heap_live s \<subseteq> heap_live t" "p \<noteq> 0 \<longrightarrow> heap_live t = heap_live s \<and>
     high_memory_allocated t \<and> p = b_addr (last (pool_blocks t)) \<and> n \<le> b_size (last (pool_blocks t))" by blast
  have hd: "heap_of d = heap_live s" using s(1) by (simp add: heap_of_def)
  have "backed {} ?m t" using s(4) t(4) unfolding backed_def by blast
  then have "dm_inv (d\<lparr> suballoc := Some t \<rparr>)" using s t(2,3) by (simp add: dm_inv_def same_config_def)
  moreover have "\<exists>a\<ge>n. (p, a) \<in> pool_live t \<and> p mod dm_alignment d = 0 \<and>
       (\<forall>(q, b)\<in>heap_of d. p + a \<le> q \<or> q + b \<le> p)" if "p \<noteq> 0"
  proof -
    let ?l = "last (pool_blocks t)"
    have h: "high_memory_allocated t" "p = b_addr ?l" "n \<le> b_size ?l" "heap_live t = heap_live s" using t(5) that by auto
    have w: "(p, b_size ?l) \<in> pool_live t" using workspace_live(2) [OF t(2) h(1)] h(2) by (simp add: extent_def)
    have it: "pool_inv t" using t(2) by (simp add: good_pool_def)
    have "p + b_size ?l \<le> q \<or> q + b \<le> p" if "(q, b) \<in> heap_of d" for q b
    proof -
      have "(q, b) \<in> heap_live t" using that hd h(4) by simp
      then have "(q, b) \<in> pool_live t" "(q, b) \<noteq> (p, b_size ?l)" using h(1,2) by (auto simp: heap_live_def extent_def)
      then show ?thesis using device_pool.live_disjoint [OF it w] by auto
    qed
    moreover have "p mod dm_alignment d = 0" using live_aligned [OF t(2) w] t(3) s(3) by (simp add: same_config_def)
    ultimately show ?thesis using w h(3) by (intro exI [of _ "b_size ?l"]) auto
  qed
  moreover have "extend_workspace n cur d = Inr (p, d\<lparr> suballoc := Some t \<rparr>)"
    using s(8) t(1) by (simp add: extend_workspace_def)
  ultimately show ?thesis using t(4,5) hd by (intro exI [of _ p] exI [of _ t]) simp
qed

section \<open>Other threads\<close>

text \<open>
  A step keeps the handles \<open>I\<close>: the invariant holds after it, their sizes stay, one that is fixed
  stays so, and one that has memory has memory after it, at the same address unless it may move.
  That memory has moved shows in \<open>update_on_defragment\<close>, which no one else resets.
\<close>

definition fixed_at :: "handles_map \<Rightarrow> 64 word \<Rightarrow> bool" where
  "fixed_at m i = (case hm_lookup m i of None \<Rightarrow> False | Some r \<Rightarrow> hr_fixed r)"

definition keeps :: "64 word set \<Rightarrow> device_memory \<Rightarrow> device_memory \<Rightarrow> bool" where
  "keeps I d d' \<longleftrightarrow> dm_inv d' \<and> dm_alignment d' = dm_alignment d \<and>
     (update_on_defragment d \<longrightarrow> update_on_defragment d') \<and>
     (\<forall>i\<in>I. size_at (handle2pointer d') i = size_at (handle2pointer d) i \<and>
        (fixed_at (handle2pointer d) i \<longrightarrow> fixed_at (handle2pointer d') i) \<and>
        (ptr_at (handle2pointer d) i \<noteq> 0 \<longrightarrow> ptr_at (handle2pointer d') i \<noteq> 0 \<and>
          (ptr_at (handle2pointer d') i = ptr_at (handle2pointer d) i \<or>
           update_on_defragment d' \<and> \<not> fixed_at (handle2pointer d) i)))"

lemma keeps_refl: "dm_inv d \<Longrightarrow> keeps I d d"
  by (simp add: keeps_def)

lemma keeps_trans: "keeps I d e \<Longrightarrow> keeps I e f \<Longrightarrow> keeps I d f"
  unfolding keeps_def by (metis (no_types, opaque_lifting))

lemma keeps_inv: "keeps I d e \<Longrightarrow> dm_inv e"
  by (simp add: keeps_def)

definition polite :: "64 word set \<Rightarrow> dm_threads \<Rightarrow> bool" where
  "polite I w \<longleftrightarrow>
     (\<forall>(c, f)\<in>set (next_waits w). \<forall>d. dm_inv d \<longrightarrow> keeps I d (f d)) \<and>
     (\<forall>f\<in>set (next_unlocks w). \<forall>d. dm_inv d \<longrightarrow> keeps I d (f d))"

lemma wait_keeps:
  assumes "wait_for_next_decrease_call w d = Inr (c, w', d')" "polite I w" "dm_inv d"
  shows "keeps I d d'" "polite I w'"
proof -
  have w: "w' = w \<and> d' = d \<or> (\<exists>c f. next_waits w = (c, f) # next_waits w' \<and> next_unlocks w' = next_unlocks w \<and> d' = f d)"
    using assms(1) by (auto simp: wait_for_next_decrease_call_def split: if_splits list.splits)
  then show "keeps I d d'" "polite I w'"
    using assms(2,3) keeps_refl [of d I] unfolding polite_def by fastforce+
qed

lemma wait_errors: "wait_for_next_decrease_call w d = Inl e \<Longrightarrow> e = No_return"
  by (auto simp: wait_for_next_decrease_call_def split: if_splits list.splits)

end
