(* ===== verification/Device_Move.thy ===== *)
theory Device_Move
  imports Device_Run "HOL-Library.Multiset"
begin

text \<open>
  Defragmentation keeps the invariant of \<open>device_memory\<close>: what the defragmenter collects are the
  handles that have memory, and moving them gives each new memory of its size.
\<close>

section \<open>The records the defragmenter sees\<close>

definition walk_pairs :: "handles_map \<Rightarrow> (nat \<times> nat) list" where
  "walk_pairs m = concat (map (\<lambda>c. map (Pair c) (0 # visited_from (handles m ! c) 1)) [0, 1, 2])"

lemma walk_map: "walk m 0 0 = map (\<lambda>(b, j). record_of m b j) (walk_pairs m)"
proof -
  have "[0 + 1..<3] = [1, 2::nat]" by (simp add: upt_rec)
  then show ?thesis by (simp add: walk_def walk_pairs_def)
qed

lemma walk_pairs_distinct: "distinct (walk_pairs m)"
proof -
  define L where "L c = map (Pair c) (0 # visited_from (handles m ! c) 1)" for c
  have "distinct (0 # visited_from recs 1)" for recs by (simp add: visited_from_def)
  then have "distinct (L c)" for c unfolding L_def distinct_map by (simp add: inj_on_def)
  moreover have "set (L c) \<subseteq> {c} \<times> UNIV" for c by (auto simp: L_def)
  then have "c \<noteq> e \<Longrightarrow> set (L c) \<inter> set (L e) = {}" for c e by blast
  moreover have "walk_pairs m = L 0 @ L 1 @ L 2" by (simp add: walk_pairs_def L_def)
  ultimately show ?thesis by (simp add: Int_Un_distrib)
qed

lemma walk_pairs_valid:
  assumes "hm_inv m" "(b, j) \<in> set (walk_pairs m)"
  shows "b < 3 \<and> j < length (handles m ! b)"
proof -
  have "b = 0 \<or> b = 1 \<or> b = 2" "j = 0 \<or> j < length (handles m ! b)"
    using assms(2) by (auto simp: walk_pairs_def visited_from_def)
  moreover have "b < 3 \<Longrightarrow> 0 < length (handles m ! b)" using assms(1) by (simp add: hm_inv_def)
  ultimately show ?thesis by auto
qed

definition live_records :: "handles_map \<Rightarrow> memory_record list" where
  "live_records m = filter (\<lambda>r. ps_ptr (mr_ptr_size r) \<noteq> 0) (walk m 0 0)"

lemma live_record:
  assumes t: "table_ok m" and r: "r \<in> set (live_records m)"
  shows "\<exists>q. hm_lookup m (mr_id r) = Some q \<and> hr_ptr_size q = mr_ptr_size r \<and> hr_fixed q = mr_fixed r"
proof -
  have hi: "hm_inv m" "hm_clean m" using t by (auto simp: table_ok_def)
  obtain b j where bj: "(b, j) \<in> set (walk_pairs m)" "r = record_of m b j" "ps_ptr (mr_ptr_size r) \<noteq> 0"
    using r by (auto simp: live_records_def walk_map)
  note v = walk_pairs_valid [OF hi(1) bj(1)]
  let ?q = "handles m ! b ! j"
  have l3: "length (handles m) = 3" using hi by (simp add: hm_inv_def)
  have "handles m ! b \<in> set (handles m)" "?q \<in> set (handles m ! b)" using v l3 by auto
  then have "\<not> hr_active ?q \<longrightarrow> ps_ptr (hr_ptr_size ?q) = 0" using hi(2) unfolding hm_clean_def by blast
  then have a: "hr_active ?q" using bj(2,3) by (auto simp: record_of_def)
  have "j \<noteq> 0" using a hi(1) v by (auto simp: hm_inv_def)
  then have "get_handle_index (hid b j) \<noteq> 0" using hid_parts(4) [OF hi(1)] v by (metis unsigned_0)
  then have "hm_lookup m (hid b j) = Some ?q"
    using hid_parts(3,4) [OF hi(1), of b j] v l3 a by (simp add: hm_lookup_def rec_at_def)
  then show ?thesis using bj(2) by (simp add: record_of_def)
qed

lemma live_records_distinct:
  assumes "table_ok m" shows "distinct (map mr_id (live_records m))"
proof -
  have hi: "hm_inv m" using assms by (simp add: table_ok_def)
  have "inj_on (\<lambda>(b, j). hid b j) (set (walk_pairs m))"
  proof (rule inj_onI, clarify)
    fix b j c k assume "(b, j) \<in> set (walk_pairs m)" "(c, k) \<in> set (walk_pairs m)" "hid b j = hid c k"
    then show "b = c \<and> j = k" using hid_parts(3,4) [OF hi] walk_pairs_valid [OF hi] by metis
  qed
  then have "distinct (map (\<lambda>(b, j). hid b j) (walk_pairs m))"
    using walk_pairs_distinct by (simp add: distinct_map)
  moreover have "map mr_id (walk m 0 0) = map (\<lambda>(b, j). hid b j) (walk_pairs m)"
    by (auto simp: walk_map record_of_def)
  ultimately show ?thesis by (metis live_records_def distinct_map_filter)
qed

section \<open>The blocks in use\<close>

definition live_size :: "pool \<Rightarrow> nat \<Rightarrow> nat" where
  "live_size s p = (case allocated_size p s of Inl e \<Rightarrow> 0 | Inr a \<Rightarrow> a)"

definition record_block :: "pool \<Rightarrow> memory_record \<Rightarrow> memory_block" where
  "record_block s r = \<lparr> mb_state = (if mr_fixed r then FIXED else IN_USE), mb_handle = mr_id r,
     mb_ptr = ps_ptr (mr_ptr_size r), mb_size = unat (ps_size (mr_ptr_size r)),
     mb_actual_size = live_size s (ps_ptr (mr_ptr_size r)), mb_stream = ps_stream (mr_ptr_size r) \<rparr>"

lemma record_block_state [simp]: "mb_state (record_block s r) = IN_USE \<longleftrightarrow> \<not> mr_fixed r"
  by (simp add: record_block_def)

lemma collect_records_map:
  assumes "pool_inv s" "\<And>r. r \<in> set rs \<Longrightarrow> ps_ptr (mr_ptr_size r) \<noteq> 0 \<Longrightarrow> \<exists>a. (ps_ptr (mr_ptr_size r), a) \<in> pool_live s"
  shows "collect_records d s rs = Inr (map (record_block s)
    (filter (\<lambda>r. ps_ptr (mr_ptr_size r) \<noteq> workspace_ptr d) (filter (\<lambda>r. ps_ptr (mr_ptr_size r) \<noteq> 0) rs)))"
  using assms(2)
proof (induction rs)
  case (Cons r rs)
  then have ih: "collect_records d s rs = Inr (map (record_block s)
    (filter (\<lambda>r. ps_ptr (mr_ptr_size r) \<noteq> workspace_ptr d) (filter (\<lambda>r. ps_ptr (mr_ptr_size r) \<noteq> 0) rs)))" by simp
  show ?case
  proof (cases "ps_ptr (mr_ptr_size r) = 0 \<or> ps_ptr (mr_ptr_size r) = workspace_ptr d")
    case True
    then show ?thesis using ih by (auto simp: Let_def)
  next
    case False
    then obtain a where a: "(ps_ptr (mr_ptr_size r), a) \<in> pool_live s" using Cons.prems [of r] by auto
    have "allocated_size (ps_ptr (mr_ptr_size r)) s = Inr a" by (rule allocated_size_live [OF assms(1) a])
    then show ?thesis using False ih by (simp add: Let_def record_block_def live_size_def)
  qed
qed simp

text \<open>What the moves need to know of a block that may move.\<close>

definition handle_block :: "handles_map \<Rightarrow> memory_block \<Rightarrow> bool" where
  "handle_block m b \<longleftrightarrow>
     (\<exists>q. hm_lookup m (mb_handle b) = Some q \<and> \<not> hr_fixed q \<and> ps_ptr (hr_ptr_size q) = mb_ptr b \<and> mb_ptr b \<noteq> 0 \<and>
        unat (ps_size (hr_ptr_size q)) = mb_size b \<and> ps_stream (hr_ptr_size q) = mb_stream b)"

abbreviation movable_blocks :: "memory_block list \<Rightarrow> memory_block list" where
  "movable_blocks bs \<equiv> filter (\<lambda>b. mb_state b = IN_USE) bs"

definition blocks_ok :: "handles_map \<Rightarrow> memory_block list \<Rightarrow> bool" where
  "blocks_ok m bs \<longleftrightarrow> (\<forall>b\<in>set (movable_blocks bs). handle_block m b) \<and> distinct (map mb_handle (movable_blocks bs))"

lemma blocks_ok_perm: "mset bs = mset bs' \<Longrightarrow> blocks_ok m bs = blocks_ok m bs'"
proof -
  assume e: "mset bs = mset bs'"
  then have f: "mset (movable_blocks bs) = mset (movable_blocks bs')" by (simp add: mset_filter)
  then have "mset (map mb_handle (movable_blocks bs)) = mset (map mb_handle (movable_blocks bs'))" by simp
  then show ?thesis unfolding blocks_ok_def using mset_eq_setD [OF f] mset_eq_imp_distinct_iff by metis
qed

lemma CollectResource_blocks:
  assumes t: "table_ok m" and inv: "pool_inv s" and b: "backed {} m s"
  shows "\<exists>bs. CollectResourceInformation d s m = Inr bs \<and> blocks_ok m bs \<and> (\<forall>b\<in>set bs. mb_state b \<noteq> FREE)"
proof -
  have hi: "hm_inv m" using t by (simp add: table_ok_def)
  let ?rs = "filter (\<lambda>r. ps_ptr (mr_ptr_size r) \<noteq> workspace_ptr d) (live_records m)"
  let ?bs = "map (record_block s) ?rs"
  let ?w = "if workspace_size d > 0 then [\<lparr> mb_state = FIXED, mb_handle = 0, mb_ptr = workspace_ptr d,
      mb_size = workspace_size d, mb_actual_size = workspace_size d, mb_stream = 0 \<rparr>] else []"
  have "\<exists>a. (ps_ptr (mr_ptr_size r), a) \<in> pool_live s" if r: "r \<in> set (walk m 0 0)" "ps_ptr (mr_ptr_size r) \<noteq> 0" for r
  proof -
    have "r \<in> set (live_records m)" using r by (simp add: live_records_def)
    from live_record [OF t this] have "ptr_at m (mr_id r) = ps_ptr (mr_ptr_size r)" by (auto simp: ptr_at_def)
    then have "\<exists>a. (ps_ptr (mr_ptr_size r), a) \<in> heap_live s" using b r(2) unfolding backed_def by (metis empty_iff)
    then show ?thesis using heap_live_sub by blast
  qed
  then have c: "collect_records d s (walk m 0 0) = Inr ?bs"
    using collect_records_map [OF inv] by (simp add: live_records_def)
  have "CollectResourceInformation d s m = Inr (sort_key mb_ptr (?bs @ ?w))"
    using hm_records_walk [OF hi] c by (simp add: CollectResourceInformation_def)
  moreover have "blocks_ok m (?bs @ ?w)"
  proof -
    have f: "movable_blocks (?bs @ ?w) = map (record_block s) (filter (\<lambda>r. \<not> mr_fixed r) ?rs)"
    proof -
      have "movable_blocks ?bs = map (record_block s) (filter (\<lambda>r. \<not> mr_fixed r) ?rs)"
        by (simp only: filter_map comp_def record_block_state)
      then show ?thesis by (simp only: filter_append) simp
    qed
    have "handle_block m (record_block s r)" if "r \<in> set (live_records m)" "\<not> mr_fixed r" for r
      using live_record [OF t that(1)] that by (auto simp: handle_block_def record_block_def live_records_def)
    moreover have "mb_handle \<circ> record_block s = mr_id" by (auto simp: record_block_def)
    ultimately show ?thesis
      using live_records_distinct [OF t] unfolding blocks_ok_def f by (auto simp: distinct_map_filter)
  qed
  then have "blocks_ok m (sort_key mb_ptr (?bs @ ?w))" by (subst blocks_ok_perm [of _ "?bs @ ?w"]) simp_all
  moreover have "\<forall>b\<in>set (sort_key mb_ptr (?bs @ ?w)). mb_state b \<noteq> FREE" by (auto simp: record_block_def split: if_splits)
  ultimately show ?thesis by blast
qed

text \<open>The map adds free blocks only, whatever the blocks in use are.\<close>

lemma gap_blocks_free: "\<forall>b\<in>set (gap_blocks se p nxt). mb_state b = FREE"
proof (induction se p nxt rule: gap_blocks.induct)
  case (1 se p nxt)
  then show ?case by (subst gap_blocks.simps) (auto simp: Let_def free_mem_def)
qed

lemma blocks_and_gaps_movable: "movable_blocks (blocks_and_gaps se p bs) = movable_blocks bs"
proof (induction bs arbitrary: p)
  case (Cons b bs)
  have "movable_blocks (gap_blocks se x y) = []" for x y
    using gap_blocks_free [of se x y] by (auto simp: filter_empty_conv)
  then show ?case using Cons by simp
qed simp

lemma CreateMemoryMap_movable: "movable_blocks (CreateMemoryMap d bs) = movable_blocks bs"
  by (cases bs) (auto simp: CreateMemoryMap_def Let_def free_mem_def blocks_and_gaps_movable)

lemma blocks_ok_map: "blocks_ok m bs \<Longrightarrow> blocks_ok m (CreateMemoryMap d bs)"
  by (simp add: blocks_ok_def CreateMemoryMap_movable)

lemma blocks_ok_region: "blocks_ok m bs \<Longrightarrow> blocks_ok m (region_blocks bs i j)"
proof -
  assume b: "blocks_ok m bs"
  have "bs = take i bs @ region_blocks bs i j @ drop (j - i) (drop i bs)" by (metis append_take_drop_id region_blocks_def)
  then have "movable_blocks bs = movable_blocks (take i bs) @ movable_blocks (region_blocks bs i j) @
      movable_blocks (drop (j - i) (drop i bs))" by (metis filter_append)
  then show ?thesis using b by (auto simp: blocks_ok_def)
qed

section \<open>The movers\<close>

definition mover_of :: "device_memory \<Rightarrow> memory_block \<Rightarrow> handle_mover" where
  "mover_of d b = \<lparr> hv_handle = mb_handle b, hv_source = mb_ptr b, hv_destination = 0, hv_size = mb_size b,
     hv_actual_size = block_align d (mb_size b), hv_stream = mb_stream b \<rparr>"

lemma mover_of_fields [simp]:
  "hv_handle (mover_of d b) = mb_handle b" "hv_source (mover_of d b) = mb_ptr b"
  by (simp_all add: mover_of_def)

lemma make_movers_map: "make_movers d bs = Inl Fatal \<or> make_movers d bs = Inr (map (mover_of d) (movable_blocks bs))"
proof (induction bs)
  case (Cons b bs)
  then show ?case by (cases "mb_state b") (auto simp: mover_of_def)
qed simp

text \<open>A mover of a handle of the table, and the movers of a region.\<close>

definition mover_ok :: "nat \<Rightarrow> handles_map \<Rightarrow> handle_mover \<Rightarrow> bool" where
  "mover_ok al m v \<longleftrightarrow>
     (\<exists>q. hm_lookup m (hv_handle v) = Some q \<and> \<not> hr_fixed q \<and> 0 < hv_size v \<and>
        unat (ps_size (hr_ptr_size q)) = hv_size v \<and> ps_stream (hr_ptr_size q) = hv_stream v \<and>
        hv_actual_size v = align64 al (hv_size v))"

definition handles_of :: "handle_mover list \<Rightarrow> 64 word set" where
  "handles_of vs = hv_handle ` set vs"

definition sources_of :: "handle_mover list \<Rightarrow> nat set" where
  "sources_of vs = hv_source ` set vs"

lemma movers_ok:
  assumes "blocks_ok m bs" "backed {} m s" "make_movers d bs = Inr vs"
  shows "\<forall>v\<in>set vs. mover_ok (dm_alignment d) m v \<and> hv_source v = ptr_at m (hv_handle v) \<and> hv_source v \<noteq> 0"
    "distinct (map hv_handle vs)" "distinct (map hv_source vs)"
proof -
  have vs: "vs = map (mover_of d) (movable_blocks bs)" using assms(3) make_movers_map [of d bs] by auto
  have hb: "handle_block m b" if "b \<in> set (movable_blocks bs)" for b using assms(1) that by (simp add: blocks_ok_def)
  have "mover_ok (dm_alignment d) m (mover_of d b) \<and> mb_ptr b = ptr_at m (mb_handle b) \<and> mb_ptr b \<noteq> 0"
    if b: "b \<in> set (movable_blocks bs)" for b
  proof -
    from hb [OF b] obtain q where q: "hm_lookup m (mb_handle b) = Some q" "\<not> hr_fixed q"
      "ps_ptr (hr_ptr_size q) = mb_ptr b" "mb_ptr b \<noteq> 0" "unat (ps_size (hr_ptr_size q)) = mb_size b"
      "ps_stream (hr_ptr_size q) = mb_stream b" by (auto simp: handle_block_def)
    then have pa: "ptr_at m (mb_handle b) = mb_ptr b" "size_at m (mb_handle b) = mb_size b"
      by (simp_all add: ptr_at_def size_at_def)
    then have "0 < mb_size b" using assms(2) q(4) unfolding backed_def by (metis empty_iff)
    then show ?thesis using q pa by (auto simp: mover_ok_def mover_of_def block_align_def)
  qed
  then show p: "\<forall>v\<in>set vs. mover_ok (dm_alignment d) m v \<and> hv_source v = ptr_at m (hv_handle v) \<and> hv_source v \<noteq> 0"
    unfolding vs set_map by (intro ballI, elim imageE) (simp only: mover_of_fields, metis)
  show h: "distinct (map hv_handle vs)"
    using assms(1) unfolding vs by (simp add: blocks_ok_def comp_def)
  have "inj_on hv_source (set vs)"
  proof (rule inj_onI)
    fix v w assume vw: "v \<in> set vs" "w \<in> set vs" "hv_source v = hv_source w"
    then have "hv_handle v = hv_handle w" using p assms(2) unfolding backed_def by (metis empty_iff)
    then show "v = w" using h vw(1,2) by (auto simp: distinct_map inj_on_def)
  qed
  then show "distinct (map hv_source vs)" using h by (simp add: distinct_map)
qed

lemma deallocate_movers_step:
  "good_pool s \<Longrightarrow> \<forall>v\<in>set vs. \<exists>a. (hv_source v, a) \<in> heap_live s \<Longrightarrow> distinct (map hv_source vs) \<Longrightarrow>
   \<exists>t. deallocate_movers env vs s = Inr t \<and> good_pool t \<and> same_config s t \<and>
     heap_live t = {q \<in> heap_live s. fst q \<notin> sources_of vs}"
proof (induction vs arbitrary: s)
  case Nil
  then show ?case by (simp add: sources_of_def)
next
  case (Cons v vs)
  have inv: "pool_inv s" using Cons.prems(1) by (simp add: good_pool_def)
  from Cons.prems(2) obtain a where a: "(hv_source v, a) \<in> heap_live s" by auto
  have nz: "hv_source v \<noteq> 0" using device_pool.live_pos [OF inv, of "hv_source v" a] a heap_live_sub [of s] by auto
  from good_free [OF Cons.prems(1) a] obtain t where t: "pool_free_chunk env (hv_source v) s = Inr t" "good_pool t"
    "same_config s t" "heap_live t = heap_live s - {(hv_source v, a)}" by blast
  have u: "fst q = hv_source v \<longleftrightarrow> q = (hv_source v, a)" if "q \<in> heap_live s" for q
    using device_pool.live_inj [OF inv, of "hv_source v" a "snd q"] that a heap_live_sub [of s] by (cases q) auto
  have "\<forall>w\<in>set vs. \<exists>a. (hv_source w, a) \<in> heap_live t"
  proof
    fix w assume w: "w \<in> set vs"
    then obtain b where "(hv_source w, b) \<in> heap_live s" using Cons.prems(2) by auto
    moreover have "hv_source v \<notin> hv_source ` set vs" using Cons.prems(3) by simp
    then have "hv_source w \<noteq> hv_source v" using w by (metis imageI)
    ultimately show "\<exists>a. (hv_source w, a) \<in> heap_live t" using t(4) by auto
  qed
  from Cons.IH [OF t(2) this] Cons.prems(3) obtain r where r: "deallocate_movers env vs t = Inr r" "good_pool r"
    "same_config t r" "heap_live r = {q \<in> heap_live t. fst q \<notin> sources_of vs}" by auto
  have "q \<in> heap_live t \<longleftrightarrow> q \<in> heap_live s \<and> fst q \<noteq> hv_source v" for q
    unfolding t(4) using u [of q] by auto
  then have "heap_live r = {q \<in> heap_live s. fst q \<notin> sources_of (v # vs)}"
    unfolding r(4) by (auto simp: sources_of_def)
  then show ?case using nz t(1,3) r(1-3) same_config_trans [of s t r] by (simp add: mover_Deallocate_def)
qed

end
