(* ===== verification/Device_Defrag.thy ===== *)
theory Device_Defrag
  imports Device_Move
begin

text \<open>
  The allocations of the movers and \<open>defragment_memory\<close> as a whole: whatever region was chosen, the
  table and the pool agree afterwards, no size changes, and memory that was fixed stays.
\<close>

section \<open>Allocating for the movers\<close>

text \<open>What a mover leaves of the record of its handle: everything but the address.\<close>

definition moved_to :: "handles_map \<Rightarrow> 64 word \<Rightarrow> nat \<Rightarrow> handles_map \<Rightarrow> bool" where
  "moved_to m i p m' \<longleftrightarrow>
     (\<exists>q. hm_lookup m i = Some q \<and> hm_lookup m' i = Some (q\<lparr> hr_ptr_size := (hr_ptr_size q)\<lparr> ps_ptr := p \<rparr> \<rparr>))"

lemma mover_Allocate_step:
  assumes g: "good_pool s" and t: "table_ok m" and v: "mover_ok (alignment s) m v" and al: "alignment_ok (alignment s)"
  shows "mover_Allocate env v s m = Inl Fatal \<or>
    (\<exists>p a t m'. mover_Allocate env v s m = Inr (v\<lparr> hv_destination := p \<rparr>, t, m') \<and> good_pool t \<and> same_config s t \<and>
       table_ok m' \<and> p \<noteq> 0 \<and> hv_size v \<le> a \<and> (p, a) \<notin> pool_live s \<and> heap_live t = insert (p, a) (heap_live s) \<and>
       (\<forall>k. ptr_at m' k = (if k = hv_handle v then p else ptr_at m k)) \<and> (\<forall>k. size_at m' k = size_at m k) \<and>
       moved_to m (hv_handle v) p m' \<and> (\<forall>k. k \<noteq> hv_handle v \<longrightarrow> hm_lookup m' k = hm_lookup m k))"
proof -
  from v obtain q where q: "hm_lookup m (hv_handle v) = Some q" "0 < hv_size v"
    "unat (ps_size (hr_ptr_size q)) = hv_size v" "ps_stream (hr_ptr_size q) = hv_stream v"
    "hv_actual_size v = align64 (alignment s) (hv_size v)" by (auto simp: mover_ok_def)
  have "hv_size v < 2 ^ 42"
    using t q(1,3) by (auto simp: table_ok_def size_at_def dest!: spec [where x = "hv_handle v"])
  note ba = block_align_request [OF al q(2) this]
  have rq: "pool_request (hv_actual_size v, hv_stream v, False) s" using ba q(5) by (simp add: pool_request_def)
  from good_alloc [OF g rq] obtain p t where p: "alloc_chunk (hv_actual_size v) (hv_stream v) False s = Inr (p, t)"
    "good_pool t" "same_config s t" and P: "p \<noteq> 0 \<Longrightarrow> \<exists>a\<ge>hv_actual_size v. (p, a) \<notin> pool_live s \<and>
      heap_live t = insert (p, a) (heap_live s)" by (auto split: if_splits)
  have pa: "pool_alloc_chunk env (hv_actual_size v) (hv_stream v) False s = Inr (p, t)"
    using p(1) g by (simp add: pool_alloc_chunk_def good_pool_def)
  show ?thesis
  proof (cases "p = 0")
    case True
    then show ?thesis using pa by (simp add: mover_Allocate_def)
  next
    case False
    then obtain a where a: "hv_actual_size v \<le> a" "(p, a) \<notin> pool_live s" "heap_live t = insert (p, a) (heap_live s)"
      using P by blast
    have e: "\<lparr> ps_ptr = p, ps_size = of_nat (hv_size v), ps_stream = hv_stream v \<rparr> = (hr_ptr_size q)\<lparr> ps_ptr := p \<rparr>"
      using q(3)[symmetric] q(4) by simp
    from set_ptr_step [OF t q(1) refl, of p] obtain m' where m: "hm_SetPtrSize (hv_handle v) ((hr_ptr_size q)\<lparr> ps_ptr := p \<rparr>) m = Inr m'"
      "table_ok m'" "hm_lookup m' = (hm_lookup m)(hv_handle v \<mapsto> q\<lparr> hr_ptr_size := (hr_ptr_size q)\<lparr> ps_ptr := p \<rparr> \<rparr>)"
      "\<forall>k. ptr_at m' k = (if k = hv_handle v then p else ptr_at m k)" "\<forall>k. size_at m' k = size_at m k" by blast
    have run: "mover_Allocate env v s m = Inr (v\<lparr> hv_destination := p \<rparr>, t, m')"
      using pa False m(1) by (simp add: mover_Allocate_def e)
    have "hv_size v \<le> a" using ba q(5) a(1) by simp
    moreover have "moved_to m (hv_handle v) p m'" using q(1) m(3) by (simp add: moved_to_def)
    moreover have "\<forall>k. k \<noteq> hv_handle v \<longrightarrow> hm_lookup m' k = hm_lookup m k" using m(3) by simp
    ultimately show ?thesis using run p(2,3) m(2,4,5) False a(2,3) by blast
  qed
qed

lemma mover_ok_other: "hm_lookup m' (hv_handle w) = hm_lookup m (hv_handle w) \<Longrightarrow> mover_ok al m' w = mover_ok al m w"
  by (simp add: mover_ok_def)

text \<open>What all the movers together do to the table.\<close>

definition moves :: "64 word set \<Rightarrow> handles_map \<Rightarrow> handles_map \<Rightarrow> bool" where
  "moves H m m' \<longleftrightarrow> (\<forall>i. i \<notin> H \<longrightarrow> hm_lookup m' i = hm_lookup m i) \<and>
     (\<forall>i\<in>H. \<exists>p. p \<noteq> 0 \<and> moved_to m i p m')"

text \<open>The new addresses are none of the old ones.\<close>

definition fresh_for :: "64 word set \<Rightarrow> pool \<Rightarrow> handles_map \<Rightarrow> bool" where
  "fresh_for H s m' \<longleftrightarrow> (\<forall>i\<in>H. \<forall>a. (ptr_at m' i, a) \<notin> heap_live s)"

lemma allocate_movers_step:
  "good_pool s \<Longrightarrow> table_ok m \<Longrightarrow> alignment_ok (alignment s) \<Longrightarrow> backed V m s \<Longrightarrow>
   \<forall>v\<in>set vs. mover_ok (alignment s) m v \<Longrightarrow> distinct (map hv_handle vs) \<Longrightarrow>
   allocate_movers env vs s m = Inl Fatal \<or>
   (\<exists>t m' cs. allocate_movers env vs s m = Inr (t, m', cs) \<and> good_pool t \<and> same_config s t \<and> table_ok m' \<and>
      backed (V - handles_of vs) m' t \<and> heap_live s \<subseteq> heap_live t \<and> moves (handles_of vs) m m' \<and>
      fresh_for (handles_of vs) s m')"
proof (induction vs arbitrary: s m V)
  case Nil
  then show ?case by (simp add: handles_of_def moves_def fresh_for_def)
next
  case (Cons v vs)
  let ?i = "hv_handle v"
  have vok: "mover_ok (alignment s) m v" using Cons.prems(5) by simp
  from mover_Allocate_step [OF Cons.prems(1,2) vok Cons.prems(3), of env]
  show ?case
  proof (elim disjE exE conjE)
    assume "mover_Allocate env v s m = Inl Fatal"
    then show ?thesis by simp
  next
    fix p a t m' assume r: "mover_Allocate env v s m = Inr (v\<lparr> hv_destination := p \<rparr>, t, m')" and g: "good_pool t"
      and c: "same_config s t" and tm: "table_ok m'" and p: "p \<noteq> 0" "hv_size v \<le> a" "(p, a) \<notin> pool_live s"
      "heap_live t = insert (p, a) (heap_live s)" and pa: "\<forall>k. ptr_at m' k = (if k = ?i then p else ptr_at m k)"
      and sa: "\<forall>k. size_at m' k = size_at m k" and mv: "moved_to m ?i p m'"
      and lk: "\<forall>k. k \<noteq> ?i \<longrightarrow> hm_lookup m' k = hm_lookup m k"
    have ni: "?i \<notin> handles_of vs" using Cons.prems(6) by (simp add: handles_of_def)
    have sz: "0 < size_at m ?i" "size_at m ?i \<le> a" using vok p(2) by (auto simp: mover_ok_def size_at_def)
    have b: "backed (V - {?i}) m' t" by (rule backed_add [OF Cons.prems(4,1) g p(3,4,1) sz pa sa])
    have al: "alignment t = alignment s" using c by (simp add: same_config_def)
    have vs: "\<forall>w\<in>set vs. mover_ok (alignment t) m' w"
    proof
      fix w assume w: "w \<in> set vs"
      then have "hv_handle w \<noteq> ?i" using ni unfolding handles_of_def by (metis imageI)
      then show "mover_ok (alignment t) m' w" using Cons.prems(5) w lk al mover_ok_other [of m' w m] by simp
    qed
    have fresh: "(p, b) \<notin> heap_live s" for b
    proof
      assume "(p, b) \<in> heap_live s"
      then have "(p, b) \<in> pool_live t" "(p, a) \<in> pool_live t" "(p, b) \<in> pool_live s"
        using p(4) heap_live_sub by blast+
      then show False using device_pool.live_inj [of t p a b] g p(3) by (auto simp: good_pool_def)
    qed
    have "allocate_movers env vs t m' = Inl Fatal \<or>
      (\<exists>u n cs. allocate_movers env vs t m' = Inr (u, n, cs) \<and> good_pool u \<and> same_config t u \<and> table_ok n \<and>
        backed (V - {?i} - handles_of vs) n u \<and> heap_live t \<subseteq> heap_live u \<and> moves (handles_of vs) m' n \<and>
        fresh_for (handles_of vs) t n)"
      using Cons.IH [OF g tm _ b vs] Cons.prems(3,6) al by simp
    then show ?thesis
    proof (elim disjE exE conjE)
      assume "allocate_movers env vs t m' = Inl Fatal"
      then show ?thesis using r by simp
    next
      fix u n cs assume u: "allocate_movers env vs t m' = Inr (u, n, cs)" "good_pool u" "same_config t u" "table_ok n"
        "backed (V - {?i} - handles_of vs) n u" "heap_live t \<subseteq> heap_live u" "moves (handles_of vs) m' n"
        "fresh_for (handles_of vs) t n"
      have h: "handles_of (v # vs) = insert ?i (handles_of vs)" by (simp add: handles_of_def)
      have "V - handles_of (v # vs) = V - {?i} - handles_of vs" unfolding h by auto
      then have bk: "backed (V - handles_of (v # vs)) n u" using u(5) by simp
      have ki: "hm_lookup n ?i = hm_lookup m' ?i" using u(7) ni by (simp add: moves_def)
      have moved: "moved_to m i q n" if "i \<in> handles_of vs" "moved_to m' i q n" for i q
        using that lk ni by (metis moved_to_def)
      have mvs: "moves (handles_of (v # vs)) m n"
        unfolding moves_def h
      proof (intro conjI allI ballI impI)
        fix i assume "i \<notin> insert ?i (handles_of vs)"
        then show "hm_lookup n i = hm_lookup m i" using u(7) lk by (simp add: moves_def)
      next
        fix i assume i: "i \<in> insert ?i (handles_of vs)"
        show "\<exists>q. q \<noteq> 0 \<and> moved_to m i q n"
        proof (cases "i = ?i")
          case True
          then show ?thesis using p(1) mv ki by (auto simp: moved_to_def)
        next
          case False
          then have iv: "i \<in> handles_of vs" using i by simp
          then obtain q where "q \<noteq> 0" "moved_to m' i q n" using u(7) unfolding moves_def by blast
          then show ?thesis using moved [OF iv] by blast
        qed
      qed
      have "ptr_at n ?i = p" using ki pa by (simp add: ptr_at_def)
      then have "fresh_for (handles_of (v # vs)) s n"
        using u(8) fresh p(4) unfolding fresh_for_def h by auto
      moreover have "heap_live s \<subseteq> heap_live u" using u(6) p(4) by auto
      moreover have "same_config s u" by (rule same_config_trans [OF c u(3)])
      moreover have "\<exists>cs. allocate_movers env (v # vs) s m = Inl Fatal \<or> allocate_movers env (v # vs) s m = Inr (u, n, cs)"
        using r u(1) by (auto simp: Let_def)
      ultimately show ?thesis using u(2,4) bk mvs by auto
    qed
  qed
qed

section \<open>The whole move\<close>

lemma good_defragmenter [simp]:
  "good_pool (set_defragmenter_state x s) = good_pool s"
  "heap_live (set_defragmenter_state x s) = heap_live s"
  "same_config s (set_defragmenter_state x s)"
  "alignment (set_defragmenter_state x s) = alignment s"
proof -
  have "pool_blocks (set_defragmenter_state x s) = pool_blocks s" "pool_live (set_defragmenter_state x s) = pool_live s"
    "pool_inv (set_defragmenter_state x s) = pool_inv s"
    by (simp_all add: set_defragmenter_state_def)
  then show "good_pool (set_defragmenter_state x s) = good_pool s" "heap_live (set_defragmenter_state x s) = heap_live s"
    "same_config s (set_defragmenter_state x s)" "alignment (set_defragmenter_state x s) = alignment s"
    by (simp_all add: good_pool_def heap_live_def pool_aligned_def set_defragmenter_state_def)
qed

lemma MoveData_cases: "MoveData h cs = Inl Fatal \<or> MoveData h cs = Inr ()"
  by (simp add: MoveData_def)

lemma run_movers_step:
  assumes g: "good_pool s" and t: "table_ok m" and al: "alignment_ok (alignment s)" and b: "backed {} m s"
    and vs: "\<forall>v\<in>set vs. mover_ok (alignment s) m v \<and> hv_source v = ptr_at m (hv_handle v) \<and> hv_source v \<noteq> 0"
    and dh: "distinct (map hv_handle vs)" and ds: "distinct (map hv_source vs)"
  shows "run_movers h first vs s m = Inl Fatal \<or>
    (\<exists>t m'. run_movers h first vs s m = Inr (t, m') \<and> good_pool t \<and> same_config s t \<and> table_ok m' \<and>
       backed {} m' t \<and> moves (handles_of vs) m m')"
proof -
  let ?env = "hs_env h" and ?s = "set_defragmenter_state True s" and ?H = "handles_of vs"
  have live: "\<forall>v\<in>set vs. \<exists>a. (hv_source v, a) \<in> heap_live s"
    using b vs unfolding backed_def by (metis empty_iff)
  have bs: "backed {} m ?s" using b by (simp add: backed_def)
  have vok: "\<forall>v\<in>set vs. mover_ok (alignment ?s) m v" using vs by simp
  have src: "ptr_at m i \<notin> sources_of vs" if i: "i \<notin> ?H" "ptr_at m i \<noteq> 0" for i
  proof
    assume "ptr_at m i \<in> sources_of vs"
    then obtain v where v: "v \<in> set vs" "ptr_at m i = hv_source v" by (auto simp: sources_of_def)
    then have "ptr_at m i = ptr_at m (hv_handle v)" using vs by simp
    then have "i = hv_handle v" using b i(2) unfolding backed_def by blast
    then show False using i(1) v(1) by (simp add: handles_of_def)
  qed
  show ?thesis
  proof (cases first)
    case False
    from deallocate_movers_step [of ?s vs ?env] g live ds obtain r where r: "deallocate_movers ?env vs ?s = Inr r"
      "good_pool r" "same_config ?s r" "heap_live r = {q \<in> heap_live s. fst q \<notin> sources_of vs}" by auto
    have br: "backed ?H m r" using b src unfolding backed_def r(4) by fastforce
    have ar: "alignment r = alignment s" using r(3) by (simp add: same_config_def)
    from allocate_movers_step [OF r(2) t _ br _ dh, of ?env] al vs ar
    consider "allocate_movers ?env vs r m = Inl Fatal"
      | u m' cs where "allocate_movers ?env vs r m = Inr (u, m', cs)" "good_pool u" "same_config r u" "table_ok m'"
        "backed {} m' u" "moves ?H m m'" by auto
    then show ?thesis
    proof cases
      case 1
      then show ?thesis using r(1) False by (simp add: run_movers_def Let_def)
    next
      case 2
      have "same_config s u" using r(3) 2(3) by (meson good_defragmenter(3) same_config_trans)
      then have "same_config s (set_defragmenter_state False u)" by (meson good_defragmenter(3) same_config_trans)
      moreover have "backed {} m' (set_defragmenter_state False u)" using 2(5) by (simp add: backed_def)
      ultimately show ?thesis using r(1) 2 False MoveData_cases [of h cs] by (auto simp: run_movers_def Let_def)
    qed
  next
    case True
    from allocate_movers_step [of ?s m "{}" vs ?env] g t al bs vok dh
    consider "allocate_movers ?env vs ?s m = Inl Fatal"
      | u m' cs where "allocate_movers ?env vs ?s m = Inr (u, m', cs)" "good_pool u" "same_config ?s u" "table_ok m'"
        "backed {} m' u" "heap_live s \<subseteq> heap_live u" "moves ?H m m'" "fresh_for ?H ?s m'" by auto
    then show ?thesis
    proof cases
      case 1
      then show ?thesis using True by (simp add: run_movers_def Let_def)
    next
      case 2
      have "\<forall>v\<in>set vs. \<exists>a. (hv_source v, a) \<in> heap_live u" using live 2(6) by blast
      from deallocate_movers_step [OF 2(2) this ds, of ?env] obtain r where r: "deallocate_movers ?env vs u = Inr r"
        "good_pool r" "same_config u r" "heap_live r = {q \<in> heap_live u. fst q \<notin> sources_of vs}" by auto
      have "ptr_at m' i \<notin> sources_of vs" if "ptr_at m' i \<noteq> 0" for i
      proof (cases "i \<in> ?H")
        case True
        then have "(ptr_at m' i, a) \<notin> heap_live s" for a using 2(8) by (simp add: fresh_for_def)
        then show ?thesis using live unfolding sources_of_def by auto
      next
        case False
        then have "ptr_at m' i = ptr_at m i" using 2(7) by (simp add: moves_def ptr_at_def)
        then show ?thesis using src [OF False] that by simp
      qed
      then have "backed {} m' r" using 2(5) unfolding backed_def r(4) by fastforce
      then have bd: "backed {} m' (set_defragmenter_state False r)" by (simp add: backed_def)
      have "same_config s r" using r(3) 2(3) by (meson good_defragmenter(3) same_config_trans)
      then have "same_config s (set_defragmenter_state False r)" by (meson good_defragmenter(3) same_config_trans)
      then show ?thesis using r(1,2) 2 bd True MoveData_cases [of h cs] by (auto simp: run_movers_def Let_def)
    qed
  qed
qed

end
