(* ===== verification/Device_Plan.thy ===== *)
theory Device_Plan
  imports Device_Defrag
begin

text \<open>
  \<open>defragment_memory\<close>: planning never fails but by the checks of the code, and whatever is planned
  the invariant of \<open>device_memory\<close> holds after the moves. Fixed handles do not move.
\<close>

section \<open>The plan\<close>

definition may_fail :: "'a res \<Rightarrow> bool" where
  "may_fail r \<longleftrightarrow> (\<forall>e. r = Inl e \<longrightarrow> e = Fatal)"

lemma may_fail_simps [simp]: "may_fail (Inr x)" "may_fail (Inl Fatal)"
  by (simp_all add: may_fail_def)

lemma may_fail_bind [intro!]: "may_fail r \<Longrightarrow> (\<And>x. r = Inr x \<Longrightarrow> may_fail (f x)) \<Longrightarrow> may_fail (bindR r f)"
  by (cases r) (auto simp: may_fail_def)

lemma may_fail_cases: "may_fail r \<Longrightarrow> r = Inl Fatal \<or> (\<exists>x. r = Inr x)"
  by (cases r) (auto simp: may_fail_def)

lemma check_region_fail: "may_fail (check_region bs r)"
  by (simp add: check_region_def Let_def)

lemma select_region_fail: "may_fail (SelectRegionForResourceAllocation bs sz a b out)"
  using check_region_fail by (auto simp: SelectRegionForResourceAllocation_def split: option.splits)

lemma ws_region_fail: "may_fail (ws_region bs req i r)"
  by (induction i arbitrary: r) (auto simp: Let_def)

lemma defrag_Run_fail: "may_fail (defrag_Run d bs ws sz out v)"
proof -
  have "may_fail (SelectRegionForWorkspaceGrow d bs n a b o1)" for n a b o1
    using ws_region_fail check_region_fail by (auto simp: SelectRegionForWorkspaceGrow_def Let_def)
  moreover have "may_fail (SelectRegionForWorkspaceGrowV2 d bs n o1)" for n o1
    using check_region_fail by (auto simp: SelectRegionForWorkspaceGrowV2_def Let_def split: option.splits)
  ultimately show ?thesis using select_region_fail unfolding defrag_Run_def Let_def
    by (cases out) (auto split: if_splits)
qed

lemma MemoryDefragementer_new_fail:
  assumes "pool_ok s"
  shows "may_fail (MemoryDefragementer_new s al)"
proof -
  obtain ids where ids: "pinv {} ids s" by (rule pool_okE [OF assms])
  from pinvD [OF ids(1)] obtain p where p: "prealloc_pool s = Live_pool p" "ids \<noteq> []" "pl_start p = hd ids" by auto
  obtain k where "chunk_heap s (hd ids) = Some k" "deref s (hd ids) = Inr k"
    using pinv_chunk [OF ids, of "hd ids"] p(2) by auto
  then have "\<exists>x. get_memory_info s = Inr [x]" using p by (simp add: get_memory_info_def deref_pool_def)
  then show ?thesis using get_tail_chunk_info_block [OF assms]
    by (auto simp: MemoryDefragementer_new_def Let_def split: prod.splits)
qed

lemma CollectMemory_blocks:
  assumes "table_ok m" "pool_inv s" "backed {} m s"
  shows "\<exists>bs. CollectMemoryInformation df s m = Inr (ValidateMemoryMap df bs, bs) \<and> blocks_ok m bs"
  using CollectResource_blocks [OF assms, of df] blocks_ok_map [of m _ df]
  by (auto simp: CollectMemoryInformation_def Let_def)

section \<open>The moves\<close>

text \<open>
  What a defragmentation does to the memory: some handles that are not fixed and had memory have
  memory elsewhere, and that is all.
\<close>

definition compacts :: "device_memory \<Rightarrow> device_memory \<Rightarrow> bool" where
  "compacts d d' \<longleftrightarrow> dm_inv d' \<and>
     (\<exists>s m H. d' = d\<lparr> suballoc := Some s, handle2pointer := m \<rparr> \<and> moves H (handle2pointer d) m \<and>
        (\<forall>i\<in>H. \<exists>q. hm_lookup (handle2pointer d) i = Some q \<and> \<not> hr_fixed q \<and> ps_ptr (hr_ptr_size q) \<noteq> 0))"

lemma compacts_refl: "dm_inv d \<Longrightarrow> compacts d d"
proof -
  assume inv: "dm_inv d"
  then obtain s where "suballoc d = Some s" by (rule dm_invE)
  then have "d = d\<lparr> suballoc := Some s, handle2pointer := handle2pointer d \<rparr>" by simp
  moreover have "moves {} (handle2pointer d) (handle2pointer d)" by (simp add: moves_def)
  ultimately show ?thesis using inv unfolding compacts_def by (metis empty_iff)
qed

lemma moved_sizes:
  assumes "moves H m m'"
  shows "size_at m' i = size_at m i" "i \<notin> H \<Longrightarrow> ptr_at m' i = ptr_at m i" "i \<in> H \<Longrightarrow> ptr_at m' i \<noteq> 0"
  using assms unfolding moves_def moved_to_def by (cases "i \<in> H"; fastforce simp: size_at_def ptr_at_def)+

text \<open>A fixed handle is not among those that move.\<close>

lemma compacts_fixed:
  assumes "compacts d d'"
  shows "fixed_at (handle2pointer d') i = fixed_at (handle2pointer d) i"
    "fixed_at (handle2pointer d) i \<Longrightarrow> hm_lookup (handle2pointer d') i = hm_lookup (handle2pointer d) i"
proof -
  from assms obtain s m H where c: "handle2pointer d' = m" "moves H (handle2pointer d) m"
    "\<forall>i\<in>H. \<exists>q. hm_lookup (handle2pointer d) i = Some q \<and> \<not> hr_fixed q" unfolding compacts_def by fastforce
  show "fixed_at (handle2pointer d') i = fixed_at (handle2pointer d) i"
  proof (cases "i \<in> H")
    case True
    then obtain p where "moved_to (handle2pointer d) i p m" using c(2) unfolding moves_def by blast
    then show ?thesis using c(1) by (auto simp: moved_to_def fixed_at_def)
  next
    case False
    then show ?thesis using c(1,2) by (simp add: moves_def fixed_at_def)
  qed
  show "hm_lookup (handle2pointer d') i = hm_lookup (handle2pointer d) i" if "fixed_at (handle2pointer d) i"
  proof -
    have "i \<notin> H" using that c(3) by (auto simp: fixed_at_def)
    then show ?thesis using c(1,2) by (simp add: moves_def)
  qed
qed

lemma movers_compact:
  assumes inv: "dm_inv d" and b: "blocks_ok (handle2pointer d) bs" and v: "make_movers d bs = Inr vs"
    and s: "suballoc d = Some s"
  shows "run_movers h first vs s (handle2pointer d) = Inl Fatal \<or>
    (\<exists>t m. run_movers h first vs s (handle2pointer d) = Inr (t, m) \<and>
       compacts d (d\<lparr> suballoc := Some t, handle2pointer := m \<rparr>))"
proof -
  let ?m = "handle2pointer d"
  from inv s have f: "good_pool s" "alignment s = dm_alignment d" "backed {} ?m s" "table_ok ?m"
    "alignment_ok (dm_alignment d)" "pool_strategy d = startegy_coalesce_stringent" by (auto simp: dm_inv_def)
  note vs = movers_ok [OF b f(3) v]
  have al: "alignment_ok (alignment s)" "\<forall>v\<in>set vs. mover_ok (alignment s) ?m v \<and>
      hv_source v = ptr_at ?m (hv_handle v) \<and> hv_source v \<noteq> 0" using f(5) vs(1) unfolding f(2) .
  from run_movers_step [OF f(1,4) al(1) f(3) al(2) vs(2,3), of h first]
  show ?thesis
  proof (elim disjE exE conjE)
    fix t m assume t: "run_movers h first vs s ?m = Inr (t, m)" "good_pool t" "same_config s t" "table_ok m"
      "backed {} m t" "moves (handles_of vs) ?m m"
    have "dm_inv (d\<lparr> suballoc := Some t, handle2pointer := m \<rparr>)"
      using f t by (simp add: dm_inv_def same_config_def)
    moreover have "\<exists>q. hm_lookup ?m i = Some q \<and> \<not> hr_fixed q \<and> ps_ptr (hr_ptr_size q) \<noteq> 0"
      if "i \<in> handles_of vs" for i
    proof -
      from that obtain v where v: "v \<in> set vs" "i = hv_handle v" by (auto simp: handles_of_def)
      then obtain q where "hm_lookup ?m i = Some q" "\<not> hr_fixed q" "ptr_at ?m i \<noteq> 0"
        using vs(1) by (fastforce simp: mover_ok_def)
      then show ?thesis by (simp add: ptr_at_def)
    qed
    ultimately show ?thesis using t(1,6) unfolding compacts_def by blast
  qed simp
qed

lemma defragment_now_step:
  assumes inv: "dm_inv d"
  shows "defragment_now h al n ws d = Inl Fatal \<or>
    (\<exists>ok d'. defragment_now h al n ws d = Inr (ok, d') \<and> compacts d d' \<and> (\<not> ok \<longrightarrow> d' = d))"
proof -
  let ?m = "handle2pointer d"
  from inv obtain s where s: "suballoc d = Some s" "good_pool s" "backed {} ?m s" "table_ok ?m"
    "suballocator_of d = Inr s" by (rule dm_invE)
  have ps: "pool_inv s" "pool_ok s" using s(2) by (auto simp: good_pool_def pool_inv_def)
  note refl = compacts_refl [OF inv]
  from may_fail_cases [OF MemoryDefragementer_new_fail [OF ps(2)], of al]
  show ?thesis
  proof (elim disjE exE)
    assume "MemoryDefragementer_new s al = Inl Fatal"
    then show ?thesis using s(5) by (simp add: defragment_now_def)
  next
    fix df assume df: "MemoryDefragementer_new s al = Inr df"
    from CollectMemory_blocks [OF s(4) ps(1) s(3)] obtain bs where
      bs: "CollectMemoryInformation df s ?m = Inr (ValidateMemoryMap df bs, bs)" "blocks_ok ?m bs" by blast
    let ?run = "defrag_Run df bs ws n (True, None) False"
    have now: "defragment_now h al n ws d =
      (if \<not> ValidateMemoryMap df bs then Inr (False, d)
       else bindR ?run (\<lambda>(found, (needed, region), is_v2).
         if \<not> found then Inr (False, d)
         else if \<not> needed then Inr (True, d)
         else (case region of None \<Rightarrow> Inr (False, d)
           | Some r \<Rightarrow> bindR (make_movers d (region_blocks bs (rg_begin r) (rg_end r))) (\<lambda>vs.
              if vs = [] then Inr (True, d)
              else bindR (run_movers h (ws \<and> is_v2) vs s ?m) (\<lambda>(s, m).
                  Inr (True, d\<lparr> suballoc := Some s, handle2pointer := m \<rparr>))))))"
      using s(5) df bs(1) by (simp add: defragment_now_def catch_fatal_def)
    from may_fail_cases [OF defrag_Run_fail, of df bs ws n "(True, None)" False]
    consider "?run = Inl Fatal" | fd nd rg v2 where "?run = Inr (fd, (nd, rg), v2)" by (metis prod.collapse)
    then show ?thesis
    proof cases
      case 1
      then show ?thesis using now refl by auto
    next
      case 2
      show ?thesis
      proof (cases "ValidateMemoryMap df bs \<and> fd \<and> nd \<and> rg \<noteq> None")
        case False
        then show ?thesis using now 2 refl by auto
      next
        case True
        then obtain r where r: "rg = Some r" by blast
        let ?rb = "region_blocks bs (rg_begin r) (rg_end r)"
        have rb: "blocks_ok ?m ?rb" by (rule blocks_ok_region [OF bs(2)])
        from make_movers_map [of d ?rb] consider "make_movers d ?rb = Inl Fatal"
          | vs where "make_movers d ?rb = Inr vs" by blast
        then show ?thesis
        proof cases
          case 1
          then show ?thesis using now 2 r True by simp
        next
          case (2 vs)
          from movers_compact [OF inv rb 2 s(1), of h "ws \<and> v2"] show ?thesis
            using now \<open>?run = _\<close> r True 2 refl by (cases "vs = []") auto
        qed
      qed
    qed
  qed
qed

end
