(* ===== verification/Device_Lock.thy ===== *)
theory Device_Lock
  imports Device_Plan
begin

text \<open>
  Turning handles into addresses while other threads run and memory may move: every address that
  \<open>lock_addresses\<close> returns lies in the memory its handle has when the lock is made.
\<close>

section \<open>Memory taken for a handle\<close>

lemma live_bound:
  assumes inv: "pool_inv s" and l: "(p, a) \<in> pool_live s"
  shows "p + a < u64_lim"
proof (cases "(p, a) \<in> small_live s")
  case True
  from small_live_inside [OF inv this] obtain b where "b \<in> set (pool_blocks s)" "p + a \<le> b_addr b + b_size b" by blast
  then show ?thesis using pool_block_facts(3) [of s b] inv by (simp add: pool_inv_def)
next
  case False
  then obtain b where "b \<in> set (pool_blocks s)" "p = b_addr b" "a = b_size b"
    using l by (auto simp: pool_live_def client_blocks_def extent_def)
  then show ?thesis using pool_block_facts(3) [of s b] inv by (simp add: pool_inv_def)
qed

definition sized :: "device_memory \<Rightarrow> 64 word \<Rightarrow> bool" where
  "sized d i \<longleftrightarrow> 0 < size_at (handle2pointer d) i"

lemma sized_lookup:
  assumes "sized d i"
  obtains r where "hm_lookup (handle2pointer d) i = Some r" "0 < ps_size (hr_ptr_size r)"
    "size_at (handle2pointer d) i = unat (ps_size (hr_ptr_size r))"
  using assms by (auto simp: sized_def size_at_def word_gt_0 unat_gt_0 split: option.splits)

lemma keeps_sized: "keeps I d d' \<Longrightarrow> i \<in> I \<Longrightarrow> sized d i \<Longrightarrow> sized d' i"
  by (simp add: keeps_def sized_def)

lemma keeps_size: "keeps I d d' \<Longrightarrow> i \<in> I \<Longrightarrow> size_at (handle2pointer d') i = size_at (handle2pointer d) i"
  by (simp add: keeps_def)

lemma get_and_alloc_keeps:
  assumes inv: "dm_inv d" and sz: "sized d i"
  shows "\<exists>p n d'. get_and_alloc_mem env i d = Inr (p, n, d') \<and> keeps I d d' \<and>
    p = ptr_at (handle2pointer d') i \<and> unat n = size_at (handle2pointer d) i \<and>
    (ptr_at (handle2pointer d) i \<noteq> 0 \<longrightarrow> d' = d) \<and>
    not_reset d' i = not_reset d i \<and> critical_section d' = critical_section d"
proof -
  let ?m = "handle2pointer d"
  from sized_lookup [OF sz] obtain r where r: "hm_lookup ?m i = Some r" "0 < ps_size (hr_ptr_size r)"
    "size_at ?m i = unat (ps_size (hr_ptr_size r))" .
  from get_and_alloc_step [OF inv r(1,2), of env] obtain p s m where
    g: "get_and_alloc_mem env i d = Inr (p, ps_size (hr_ptr_size r), d\<lparr> suballoc := Some s, handle2pointer := m \<rparr>)"
      "dm_inv (d\<lparr> suballoc := Some s, handle2pointer := m \<rparr>)"
      "hm_lookup m = (hm_lookup ?m)(i \<mapsto> r\<lparr> hr_ptr_size := (hr_ptr_size r)\<lparr> ps_ptr := p \<rparr> \<rparr>)"
      "ps_ptr (hr_ptr_size r) \<noteq> 0 \<longrightarrow> p = ps_ptr (hr_ptr_size r)" by blast
  have pa: "ptr_at m k = (if k = i then p else ptr_at ?m k)" "size_at m k = size_at ?m k" "fixed_at m k = fixed_at ?m k" for k
    using g(3) r(1) by (simp_all add: ptr_at_def size_at_def fixed_at_def)
  have "ptr_at ?m i = ps_ptr (hr_ptr_size r)" using r(1) by (simp add: ptr_at_def)
  then have "keeps I d (d\<lparr> suballoc := Some s, handle2pointer := m \<rparr>)"
    using g(2,4) pa by (simp add: keeps_def)
  moreover have "d\<lparr> suballoc := Some s, handle2pointer := m \<rparr> = d" if "ptr_at ?m i \<noteq> 0"
  proof -
    have "hm_GetPtrSize i ?m = Inr (hr_ptr_size r)"
      using hm_GetPtrSize_lookup [OF _ lookup_bucket [OF _ r(1)]] inv r(1) by (auto simp: dm_inv_def table_ok_def)
    then have "get_and_alloc_mem env i d = Inr (ps_ptr (hr_ptr_size r), ps_size (hr_ptr_size r), d)"
      using that r(1) by (simp add: get_and_alloc_mem_def ptr_at_def)
    then show ?thesis using g(1) by simp
  qed
  moreover have "not_reset (d\<lparr> suballoc := Some s, handle2pointer := m \<rparr>) i = not_reset d i"
    using g(3) r(1) by (simp add: not_reset_def)
  ultimately show ?thesis using g(1) r(3) pa(1) by auto
qed

section \<open>Waiting and moving\<close>

text \<open>
  The recipes come to an end: the counter is or will be zero. Then no wait fails, and the waits
  after it return at once.
\<close>

definition drains :: "dm_threads \<Rightarrow> bool" where
  "drains w \<longleftrightarrow> get_count w = 0 \<or> (\<exists>(c, f)\<in>set (next_waits w). counter_state c = 0)"

lemma wait_drains:
  "drains w \<Longrightarrow> wait_for_next_decrease_call w d \<noteq> Inl e"
  "drains w \<Longrightarrow> wait_for_next_decrease_call w d = Inr (c, w', d') \<Longrightarrow> drains w'"
  by (auto simp: drains_def wait_for_next_decrease_call_def get_count_def split: if_splits list.splits)

text \<open>A step of the threads and of the memory.\<close>

definition step_ok :: "64 word set \<Rightarrow> dm_threads \<Rightarrow> device_memory \<Rightarrow> dm_threads \<Rightarrow> device_memory \<Rightarrow> bool" where
  "step_ok I w d w' d' \<longleftrightarrow> keeps I d d' \<and> polite I w' \<and> (drains w \<longrightarrow> drains w')"

lemma step_okD: "step_ok I w d w' d' \<Longrightarrow> keeps I d d' \<and> polite I w' \<and> dm_inv d'"
  using keeps_inv by (auto simp: step_ok_def)

lemma step_ok_trans: "step_ok I w d v e \<Longrightarrow> step_ok I v e u f \<Longrightarrow> step_ok I w d u f"
  using keeps_trans [of I d e f] by (simp add: step_ok_def)

lemma step_ok_keeps: "step_ok I w d v e \<Longrightarrow> keeps I e f \<Longrightarrow> step_ok I w d v f"
  using keeps_trans [of I d e f] by (simp add: step_ok_def)

lemma step_ok_start: "keeps I d e \<Longrightarrow> polite I w \<Longrightarrow> step_ok I w d w e"
  by (simp add: step_ok_def)

lemma wait_cases:
  assumes "dm_inv d" "polite I w"
  obtains "wait_for_next_decrease_call w d = Inl No_return" "\<not> drains w"
  | c w' d' where "wait_for_next_decrease_call w d = Inr (c, w', d')" "step_ok I w d w' d'"
proof (cases "wait_for_next_decrease_call w d")
  case (Inl e)
  then show thesis using wait_errors [OF Inl] wait_drains(1) [of w d] that(1) by metis
next
  case (Inr x)
  obtain c w' d' where "x = (c, w', d')" by (cases x)
  then show thesis
    using that(2) wait_keeps [OF _ assms(2,1)] wait_drains(2) Inr unfolding step_ok_def by blast
qed

text \<open>What an operation that returns a pointer and a size for handle \<open>i\<close> may end in.\<close>

definition ptr_result :: "64 word set \<Rightarrow> dm_threads \<Rightarrow> 64 word \<Rightarrow> device_memory
    \<Rightarrow> (nat \<times> 64 word \<times> dm_threads \<times> device_memory) res \<Rightarrow> bool" where
  "ptr_result I w i d r \<longleftrightarrow> r = Inl Fatal \<or> r = Inl No_return \<and> \<not> drains w \<or>
     (\<exists>p n w' d'. r = Inr (p, n, w', d') \<and> step_ok I w d w' d' \<and>
        (p = 0 \<or> p = ptr_at (handle2pointer d') i) \<and> unat n = size_at (handle2pointer d) i)"

lemma ptr_result_intro:
  "step_ok I w d w' d' \<Longrightarrow> p = 0 \<or> p = ptr_at (handle2pointer d') i \<Longrightarrow>
   unat n = size_at (handle2pointer d) i \<Longrightarrow> ptr_result I w i d (Inr (p, n, w', d'))"
  by (auto simp: ptr_result_def)

lemma ptr_result_after:
  assumes "step_ok I w d v e" "i \<in> I" "ptr_result I v i e r"
  shows "ptr_result I w i d r"
proof -
  have "keeps I d e" "drains w \<longrightarrow> drains v" using assms(1) by (auto simp: step_ok_def)
  then show ?thesis
    using assms(3) step_ok_trans [OF assms(1)] keeps_size [of I d e i] assms(2) by (auto simp: ptr_result_def)
qed

lemma retry_alloc_result:
  "dm_inv d \<Longrightarrow> polite I w \<Longrightarrow> i \<in> I \<Longrightarrow> sized d i \<Longrightarrow> ptr_result I w i d (retry_alloc env i w d)"
proof (induction env i w d rule: retry_alloc.induct)
  case (1 env i w d)
  show ?case
  proof (rule wait_cases [OF 1(2,3)])
    assume "wait_for_next_decrease_call w d = Inl No_return" "\<not> drains w"
    then show ?thesis by (subst retry_alloc.simps) (simp add: ptr_result_def)
  next
    fix c w1 d1 assume x: "wait_for_next_decrease_call w d = Inr (c, w1, d1)" "step_ok I w d w1 d1"
    have k1: "keeps I d d1" "dm_inv d1" "polite I w1" using step_okD [OF x(2)] by auto
    have sz: "sized d1 i" by (rule keeps_sized [OF k1(1) 1(4,5)])
    from get_and_alloc_keeps [OF k1(2) sz, of env I] obtain p n d2 where
      g: "get_and_alloc_mem env i d1 = Inr (p, n, d2)" "keeps I d1 d2" "p = ptr_at (handle2pointer d2) i"
        "unat n = size_at (handle2pointer d1) i" by blast
    have k: "step_ok I w d w1 d2" by (rule step_ok_keeps [OF x(2) g(2)])
    show ?thesis
    proof (cases "c > 0 \<and> p = 0")
      case True
      have "ptr_result I w1 i d2 (retry_alloc env i w1 d2)"
        using 1(1) [OF x(1) refl refl g(1) refl refl True keeps_inv [OF g(2)] k1(3) 1(4) keeps_sized [OF g(2) 1(4) sz]] .
      then show ?thesis using ptr_result_after [OF k 1(4)] x(1) g(1) True
        by (subst retry_alloc.simps) simp
    next
      case False
      then show ?thesis using x(1) g k keeps_size [OF k1(1) 1(4)]
        by (subst retry_alloc.simps) (auto intro!: ptr_result_intro)
    qed
  qed
qed

lemma alloc_or_wait_result:
  assumes inv: "dm_inv d" and w: "polite I w" and i: "i \<in> I" "sized d i"
  shows "ptr_result I w i d (alloc_or_wait env i w d)"
proof -
  from get_and_alloc_keeps [OF inv i(2), of env I] obtain p n e where
    g: "get_and_alloc_mem env i d = Inr (p, n, e)" "keeps I d e" "p = ptr_at (handle2pointer e) i"
      "unat n = size_at (handle2pointer d) i" by blast
  have s: "step_ok I w d w e" by (rule step_ok_start [OF g(2) w])
  have "ptr_result I w i d (retry_alloc env i w e)"
    by (rule ptr_result_after [OF s i(1) retry_alloc_result])
      (use g(2) w i keeps_inv keeps_sized in \<open>auto\<close>)
  moreover have "ptr_result I w i d (Inr (p, n, w, e))" by (rule ptr_result_intro) (use g s in auto)
  ultimately show ?thesis using g(1) by (simp add: alloc_or_wait_def)
qed

text \<open>The flag is no part of the invariant.\<close>

lemma dm_inv_flag [simp]: "dm_inv (d\<lparr> update_on_defragment := u \<rparr>) = dm_inv d"
  by (simp add: dm_inv_def split: option.splits)

lemma compacts_facts:
  assumes "compacts d d'"
  shows "dm_inv d'" "dm_alignment d' = dm_alignment d" "update_on_defragment d' = update_on_defragment d"
    "critical_section d' = critical_section d"
    "size_at (handle2pointer d') i = size_at (handle2pointer d) i"
    "ptr_at (handle2pointer d) i \<noteq> 0 \<Longrightarrow> ptr_at (handle2pointer d') i \<noteq> 0"
proof -
  from assms obtain s m H where c: "d' = d\<lparr> suballoc := Some s, handle2pointer := m \<rparr>" "moves H (handle2pointer d) m"
    "dm_inv d'" by (auto simp: compacts_def)
  show "dm_inv d'" "dm_alignment d' = dm_alignment d" "update_on_defragment d' = update_on_defragment d"
    "critical_section d' = critical_section d"
    "size_at (handle2pointer d') i = size_at (handle2pointer d) i"
    using c(1,3) moved_sizes(1) [OF c(2)] by simp_all
  show "ptr_at (handle2pointer d) i \<noteq> 0 \<Longrightarrow> ptr_at (handle2pointer d') i \<noteq> 0"
    using c(1) moved_sizes(2,3) [OF c(2), of i] by (cases "i \<in> H") auto
qed

lemma keeps_compact:
  assumes "compacts d e" "keeps I e f"
  shows "keeps I d (f\<lparr> update_on_defragment := True \<rparr>)"
proof -
  have p: "fixed_at (handle2pointer d) i \<Longrightarrow> ptr_at (handle2pointer e) i = ptr_at (handle2pointer d) i" for i
    using compacts_fixed(2) [OF assms(1)] by (simp add: ptr_at_def)
  show ?thesis using compacts_facts [OF assms(1)] compacts_fixed(1) [OF assms(1)] p assms(2)
    unfolding keeps_def by simp metis
qed

lemma wait_for_unlocks_step:
  assumes "wait_for_unlocks w d = (b, w', d')" "polite I w" "dm_inv d"
  shows "step_ok I w d w' d'" "b \<Longrightarrow> critical_section d' = 0"
proof -
  have c: "w' = w \<and> d' = d \<or> (\<exists>f. next_unlocks w = f # next_unlocks w' \<and> next_waits w' = next_waits w \<and>
      recipe_counter w' = recipe_counter w \<and> d' = f d)"
    using assms(1) by (auto simp: wait_for_unlocks_def split: if_splits list.splits)
  then have "keeps I d d'" "polite I w'" using assms(2,3) keeps_refl [of d I] unfolding polite_def by fastforce+
  moreover have "drains w' = drains w" using c by (auto simp: drains_def get_count_def)
  ultimately show "step_ok I w d w' d'" by (simp add: step_ok_def)
  show "b \<Longrightarrow> critical_section d' = 0"
    using assms(1) by (auto simp: wait_for_unlocks_def split: if_splits list.splits)
qed

lemma defragment_memory_step:
  assumes inv: "dm_inv d" and w: "polite I w"
  shows "defragment_memory h al n ws w d = Inl Fatal \<or>
    (\<exists>ok w' e d'. defragment_memory h al n ws w d = Inr (ok, w', d') \<and> step_ok I w d w' e \<and> compacts e d' \<and>
       critical_section e = 0 \<and> (\<not> ok \<longrightarrow> d' = e))"
proof -
  obtain b w' e where x: "wait_for_unlocks w d = (b, w', e)" by (metis prod.collapse)
  note k = wait_for_unlocks_step [OF x w inv]
  show ?thesis
  proof (cases "hs_synchronize h \<and> b")
    case False
    then show ?thesis using x by (auto simp: defragment_memory_def)
  next
    case True
    have "dm_inv e" using step_okD [OF k(1)] by simp
    from defragment_now_step [OF this, of h al n ws] show ?thesis
      using True x k by (auto simp: defragment_memory_def)
  qed
qed

lemma alloc_or_defragment_result:
  assumes inv: "dm_inv d" and w: "polite I w" and i: "i \<in> I" "sized d i"
  shows "ptr_result I w i d (alloc_or_defragment h i w d)"
proof -
  from alloc_or_wait_result [OF assms, of "hs_env h"]
  consider "alloc_or_wait (hs_env h) i w d = Inl Fatal \<or> alloc_or_wait (hs_env h) i w d = Inl No_return \<and> \<not> drains w"
    | p n w' e where "alloc_or_wait (hs_env h) i w d = Inr (p, n, w', e)" "step_ok I w d w' e"
      "p = 0 \<or> p = ptr_at (handle2pointer e) i" "unat n = size_at (handle2pointer d) i"
    by (auto simp: ptr_result_def)
  then show ?thesis
  proof cases
    case 1
    then show ?thesis by (auto simp: alloc_or_defragment_def ptr_result_def)
  next
    case (2 p n w' e)
    note own = ptr_result_intro [OF 2(2-4)]
    have ke: "polite I w'" "dm_inv e" using step_okD [OF 2(2)] by auto
    let ?def = "defragment_memory h (dm_alignment e) (unat n) False w' e"
    show ?thesis
    proof (cases "p = 0 \<and> hs_defragmentation h")
      case False
      then show ?thesis using 2(1) own by (auto simp: alloc_or_defragment_def)
    next
      case True
      from defragment_memory_step [OF ke(2,1), of h "dm_alignment e" "unat n" False]
      consider "?def = Inl Fatal" | ok w2 e2 d2 where "?def = Inr (ok, w2, d2)" "step_ok I w' e w2 e2" "compacts e2 d2"
        "\<not> ok \<longrightarrow> d2 = e2" by blast
      then show ?thesis
      proof cases
        case 1
        then show ?thesis using 2(1) True by (simp add: alloc_or_defragment_def ptr_result_def)
      next
        case x: (2 ok w2 e2 d2)
        have k: "step_ok I w d w2 e2" by (rule step_ok_trans [OF 2(2) x(2)])
        then have kk: "keeps I d e2" using step_okD by blast
        have e2: "sized e2 i" by (rule keeps_sized [OF kk i])
        show ?thesis
        proof (cases ok)
          case False
          have "ptr_result I w i d (Inr (p, n, w2, e2))" by (rule ptr_result_intro [OF k]) (use True 2(4) in auto)
          then show ?thesis using 2(1) True False x(1,4) by (simp add: alloc_or_defragment_def)
        next
          case ok: True
          have d2: "dm_inv d2" "sized d2 i" using compacts_facts [OF x(3)] e2 by (simp_all add: sized_def)
          from get_and_alloc_keeps [OF d2, of "hs_env h" I] obtain q m f where
            g: "get_and_alloc_mem (hs_env h) i d2 = Inr (q, m, f)" "keeps I d2 f" "q = ptr_at (handle2pointer f) i"
              "unat m = size_at (handle2pointer d2) i" by blast
          have kf: "step_ok I w d w2 (f\<lparr> update_on_defragment := True \<rparr>)"
            by (rule step_ok_keeps [OF k keeps_compact [OF x(3) g(2)]])
          have "size_at (handle2pointer d2) i = size_at (handle2pointer d) i"
            using compacts_facts(5) [OF x(3)] keeps_size [OF kk i(1)] by simp
          then have "ptr_result I w i d (Inr (q, m, w2, f\<lparr> update_on_defragment := True \<rparr>))"
            using g(3,4) by (intro ptr_result_intro [OF kf]) simp_all
          then show ?thesis using 2(1) True ok x(1) g(1) by (simp add: alloc_or_defragment_def)
        qed
      qed
    qed
  qed
qed

section \<open>Addresses\<close>

definition decoded :: "64 word \<Rightarrow> mem_handle" where
  "decoded a = (case reinterpret_from_pointer a of Inl e \<Rightarrow> \<lparr> mh_id = 0, mh_offset = 0 \<rparr> | Inr h \<Rightarrow> h)"

definition device_address :: "device_memory \<Rightarrow> mem_handle \<Rightarrow> nat" where
  "device_address d h =
     (if is_valid (mh_id h) then ptr_at (handle2pointer d) (mh_id h) + unat (mh_offset h) else 0)"

text \<open>A handle that resolves at once: it is null, or has memory that its offset is inside of.\<close>

definition resolved :: "device_memory \<Rightarrow> mem_handle \<Rightarrow> bool" where
  "resolved d h \<longleftrightarrow> is_valid (mh_id h) \<longrightarrow>
     ptr_at (handle2pointer d) (mh_id h) \<noteq> 0 \<and> unat (mh_offset h) < size_at (handle2pointer d) (mh_id h)"

lemma resolved_memory:
  assumes inv: "dm_inv d" and p: "ptr_at (handle2pointer d) i \<noteq> 0"
  obtains a where "(ptr_at (handle2pointer d) i, a) \<in> heap_of d" "size_at (handle2pointer d) i \<le> a"
    "ptr_at (handle2pointer d) i + a < u64_lim" "ptr_at (handle2pointer d) i mod dm_alignment d = 0"
proof -
  from inv obtain s where s: "suballoc d = Some s" "good_pool s" "alignment s = dm_alignment d"
    "backed {} (handle2pointer d) s" by (rule dm_invE)
  obtain a where a: "(ptr_at (handle2pointer d) i, a) \<in> heap_live s" "size_at (handle2pointer d) i \<le> a"
    using s(4) p unfolding backed_def by blast
  then have l: "(ptr_at (handle2pointer d) i, a) \<in> pool_live s" using heap_live_sub by blast
  show thesis
    by (rule that [of a]) (use a s l live_bound [OF _ l] live_aligned [OF s(2) l] in \<open>auto simp: heap_of_def good_pool_def\<close>)
qed

lemma resolved_address:
  assumes inv: "dm_inv d" and r: "resolved d h" and v: "is_valid (mh_id h)"
  shows "add64 (ptr_at (handle2pointer d) (mh_id h)) (unat (mh_offset h)) = device_address d h"
proof -
  have "ptr_at (handle2pointer d) (mh_id h) \<noteq> 0" using r v by (simp add: resolved_def)
  from resolved_memory [OF inv this] obtain a where
    "size_at (handle2pointer d) (mh_id h) \<le> a" "ptr_at (handle2pointer d) (mh_id h) + a < u64_lim" by metis
  then show ?thesis using r v by (simp add: resolved_def device_address_def add64_exact)
qed

lemma keeps_resolved:
  assumes "keeps I d d'" "is_valid (mh_id h) \<Longrightarrow> mh_id h \<in> I" "resolved d h"
  shows "resolved d' h" "\<not> update_on_defragment d' \<Longrightarrow> device_address d' h = device_address d h"
  using assms by (auto simp: keeps_def resolved_def device_address_def)

lemma get_pointer_resolved:
  assumes inv: "dm_inv d" and r: "resolved d h"
  shows "get_pointer host h w d = Inr (device_address d h, w, d)"
proof (cases "is_valid (mh_id h)")
  case False
  then show ?thesis by (simp add: get_pointer_def device_address_def)
next
  case v: True
  let ?i = "mh_id h"
  have p: "ptr_at (handle2pointer d) ?i \<noteq> 0" "unat (mh_offset h) < size_at (handle2pointer d) ?i"
    using r v by (auto simp: resolved_def)
  have "sized d ?i" using p(2) by (simp add: sized_def)
  from get_and_alloc_keeps [OF inv this, of "hs_env host" "{}"] p(1) obtain n where
    g: "get_and_alloc_mem (hs_env host) ?i d = Inr (ptr_at (handle2pointer d) ?i, n, d)"
      "unat n = size_at (handle2pointer d) ?i" by auto
  have al: "dm_alignment d \<noteq> 0" using inv by (auto simp: dm_inv_def alignment_ok_def)
  from resolved_memory [OF inv p(1)] have "ptr_at (handle2pointer d) ?i mod dm_alignment d = 0" by metis
  moreover have "alloc_or_defragment host ?i w d = Inr (ptr_at (handle2pointer d) ?i, n, w, d)"
    using g(1) p(1) by (simp add: alloc_or_defragment_def alloc_or_wait_def)
  moreover have "mh_offset h < n" using g(2) p(2) by (simp add: word_less_nat_alt)
  ultimately show ?thesis using v p(1) al resolved_address [OF inv r v] by (simp add: get_pointer_def)
qed

lemma translate_resolved:
  assumes "dm_inv d" "\<forall>a\<in>set as. (\<exists>h. reinterpret_from_pointer a = Inr h) \<and> resolved d (decoded a)"
  shows "translate host as w d = Inr (map (device_address d \<circ> decoded) as, w, d)"
  using assms(2)
proof (induction as)
  case (Cons a as)
  then obtain h where h: "reinterpret_from_pointer a = Inr h" "resolved d h" by (auto simp: decoded_def)
  then show ?case using Cons get_pointer_resolved [OF assms(1) h(2), of host w] by (simp add: decoded_def)
qed simp

lemma get_pointer_step:
  assumes inv: "dm_inv d" and w: "polite I w" and i: "is_valid (mh_id h) \<Longrightarrow> mh_id h \<in> I \<and> sized d (mh_id h)"
  shows "get_pointer host h w d = Inl Fatal \<or> get_pointer host h w d = Inl No_return \<and> \<not> drains w \<or>
    (\<exists>w' d'. get_pointer host h w d = Inr (device_address d' h, w', d') \<and> step_ok I w d w' d' \<and> resolved d' h)"
proof (cases "is_valid (mh_id h)")
  case False
  then have "get_pointer host h w d = Inr (device_address d h, w, d)" "resolved d h"
    by (simp_all add: get_pointer_def device_address_def resolved_def)
  then show ?thesis using step_ok_start [OF keeps_refl [OF inv, of I] w] by blast
next
  case v: True
  let ?i = "mh_id h"
  note ii = i [OF v]
  from alloc_or_defragment_result [OF inv w, of ?i host] ii
  consider "alloc_or_defragment host ?i w d = Inl Fatal \<or> alloc_or_defragment host ?i w d = Inl No_return \<and> \<not> drains w"
    | p n w' e where "alloc_or_defragment host ?i w d = Inr (p, n, w', e)" "step_ok I w d w' e"
      "p = 0 \<or> p = ptr_at (handle2pointer e) ?i" "unat n = size_at (handle2pointer d) ?i"
    by (auto simp: ptr_result_def)
  then show ?thesis
  proof cases
    case 1
    then show ?thesis using v by (auto simp: get_pointer_def)
  next
    case (2 p n w' e)
    have e: "dm_inv e" "size_at (handle2pointer e) ?i = unat n"
      using step_okD [OF 2(2)] keeps_size [of I d e ?i] ii 2(4) by simp_all
    show ?thesis
    proof (cases "p = 0 \<or> mh_offset h \<ge> n")
      case True
      then show ?thesis using v 2(1) by (auto simp: get_pointer_def)
    next
      case False
      then have r: "resolved e h" using 2(3) e(2) by (auto simp: resolved_def word_le_nat_alt)
      have pp: "ptr_at (handle2pointer e) ?i \<noteq> 0" using r v by (simp add: resolved_def)
      have al: "dm_alignment e \<noteq> 0" using e(1) by (auto simp: dm_inv_def alignment_ok_def)
      from resolved_memory [OF e(1) pp] have "ptr_at (handle2pointer e) ?i mod dm_alignment e = 0" by metis
      then have "get_pointer host h w d = Inr (device_address e h, w', e)"
        using v 2(1,3) False al resolved_address [OF e(1) r v] by (auto simp: get_pointer_def)
      then show ?thesis using 2(2) r by blast
    qed
  qed
qed

section \<open>A lock\<close>

text \<open>The address decodes, and its handle, unless it is null, is in use with a positive size.\<close>

definition lockable :: "device_memory \<Rightarrow> 64 word \<Rightarrow> bool" where
  "lockable d a \<longleftrightarrow> (\<exists>h. reinterpret_from_pointer a = Inr h \<and> (is_valid (mh_id h) \<longrightarrow> sized d (mh_id h)))"

definition ids_of :: "64 word list \<Rightarrow> 64 word set" where
  "ids_of as = {i. \<exists>a\<in>set as. mh_id (decoded a) = i \<and> is_valid i}"

lemma lockableD:
  "lockable d a \<Longrightarrow> reinterpret_from_pointer a = Inr (decoded a) \<and>
    (is_valid (mh_id (decoded a)) \<longrightarrow> sized d (mh_id (decoded a)))"
  by (auto simp: lockable_def decoded_def)

lemma keeps_lockable: "keeps I d d' \<Longrightarrow> ids_of as \<subseteq> I \<Longrightarrow> a \<in> set as \<Longrightarrow> lockable d a \<Longrightarrow> lockable d' a"
  using lockableD [of d a] keeps_sized [of I d d' "mh_id (decoded a)"] unfolding lockable_def ids_of_def by auto

lemma translate_step:
  "dm_inv d \<Longrightarrow> polite I w \<Longrightarrow> ids_of as \<subseteq> I \<Longrightarrow> \<forall>a\<in>set as. lockable d a \<Longrightarrow>
   translate host as w d = Inl Fatal \<or> translate host as w d = Inl No_return \<and> \<not> drains w \<or>
   (\<exists>ps w' d'. translate host as w d = Inr (ps, w', d') \<and> step_ok I w d w' d' \<and>
      (\<forall>a\<in>set as. resolved d' (decoded a)) \<and>
      (\<not> update_on_defragment d' \<longrightarrow> ps = map (device_address d' \<circ> decoded) as))"
proof (induction as arbitrary: d w)
  case Nil
  then show ?case by (simp add: keeps_refl step_ok_start)
next
  case (Cons a as)
  let ?h = "decoded a"
  have la: "lockable d a" and I: "ids_of as \<subseteq> I" "is_valid (mh_id ?h) \<Longrightarrow> mh_id ?h \<in> I"
    using Cons.prems(3,4) by (auto simp: ids_of_def)
  have h: "reinterpret_from_pointer a = Inr ?h" "is_valid (mh_id ?h) \<Longrightarrow> mh_id ?h \<in> I \<and> sized d (mh_id ?h)"
    using lockableD [OF la] I(2) by auto
  from get_pointer_step [OF Cons.prems(1,2) h(2), of host]
  consider "get_pointer host ?h w d = Inl Fatal \<or> get_pointer host ?h w d = Inl No_return \<and> \<not> drains w"
    | w1 d1 where "get_pointer host ?h w d = Inr (device_address d1 ?h, w1, d1)" "step_ok I w d w1 d1" "resolved d1 ?h"
    by blast
  then show ?case
  proof cases
    case 1
    then show ?thesis using h(1) by auto
  next
    case (2 w1 d1)
    have k1: "keeps I d d1" "dm_inv d1" "polite I w1" "drains w \<longrightarrow> drains w1"
      using step_okD [OF 2(2)] 2(2) by (auto simp: step_ok_def)
    have l1: "\<forall>a\<in>set as. lockable d1 a" using keeps_lockable [OF k1(1) I(1)] Cons.prems(4) by auto
    from Cons.IH [OF k1(2,3) I(1) l1]
    consider "translate host as w1 d1 = Inl Fatal \<or> translate host as w1 d1 = Inl No_return \<and> \<not> drains w1"
      | ps w' d' where "translate host as w1 d1 = Inr (ps, w', d')" "step_ok I w1 d1 w' d'"
        "\<forall>a\<in>set as. resolved d' (decoded a)"
        "\<not> update_on_defragment d' \<longrightarrow> ps = map (device_address d' \<circ> decoded) as" by blast
    then show ?thesis
    proof cases
      case 1
      then show ?thesis using h(1) 2(1) k1(4) by auto
    next
      case t: (2 ps w' d')
      have "keeps I d1 d'" using step_okD [OF t(2)] by simp
      note kr = keeps_resolved [OF this I(2) 2(3)]
      have "translate host (a # as) w d = Inr (device_address d1 ?h # ps, w', d')" using h(1) 2(1) t(1) by simp
      then show ?thesis using step_ok_trans [OF 2(2) t(2)] t(3,4) kr by auto
    qed
  qed
qed

lemma pool_has_step: "dm_inv d \<Longrightarrow> \<exists>b. pool_has n d = Inr b"
  by (auto simp: pool_has_def elim: dm_invE)

text \<open>What waiting for recipes may end in.\<close>

definition wait_result :: "64 word set \<Rightarrow> dm_threads \<Rightarrow> device_memory \<Rightarrow> (dm_threads \<times> device_memory) res \<Rightarrow> bool" where
  "wait_result I w d r \<longleftrightarrow> r = Inl No_return \<and> \<not> drains w \<or> (\<exists>w' d'. r = Inr (w', d') \<and> step_ok I w d w' d')"

lemma wait_result_after: "step_ok I w d v e \<Longrightarrow> wait_result I v e r \<Longrightarrow> wait_result I w d r"
  using step_ok_trans [of I w d v e] by (auto simp: wait_result_def step_ok_def [of I w d v e])

lemma limit_recipes_step: "dm_inv d \<Longrightarrow> polite I w \<Longrightarrow> wait_result I w d (limit_recipes n w d)"
proof (induction n w d rule: limit_recipes.induct)
  case (1 n w d)
  show ?case
  proof (rule wait_cases [OF 1(2,3)])
    assume "wait_for_next_decrease_call w d = Inl No_return" "\<not> drains w"
    then show ?thesis by (subst limit_recipes.simps) (simp add: wait_result_def)
  next
    fix c w1 d1 assume x: "wait_for_next_decrease_call w d = Inr (c, w1, d1)" "step_ok I w d w1 d1"
    have k1: "dm_inv d1" "polite I w1" using step_okD [OF x(2)] by auto
    obtain b where b: "pool_has n d1 = Inr b" using pool_has_step [OF k1(1), of n] by blast
    show ?thesis
    proof (cases "b \<or> c = 0")
      case True
      then show ?thesis using x b by (subst limit_recipes.simps) (auto simp: wait_result_def)
    next
      case False
      then have "wait_result I w1 d1 (limit_recipes n w1 d1)"
        using 1(1) [OF x(1) refl refl b _ _ k1] by simp
      then show ?thesis using wait_result_after [OF x(2)] x(1) b False by (subst limit_recipes.simps) simp
    qed
  qed
qed

lemma check_and_limit_step:
  assumes "dm_inv d" "polite I w"
  shows "wait_result I w d (check_and_limit_recipe_execution n w d)"
proof -
  have "wait_result I w d (Inr (w, d))"
    using step_ok_start [OF keeps_refl [OF assms(1)] assms(2)] by (simp add: wait_result_def)
  then show ?thesis using pool_has_step [OF assms(1), of n] limit_recipes_step [OF assms, of n]
    by (auto simp: check_and_limit_recipe_execution_def)
qed

lemma missing_sizes_ok: "dm_inv d \<Longrightarrow> \<forall>a\<in>set as. lockable d a \<Longrightarrow> \<exists>us. missing_sizes as (handle2pointer d) acc = Inr us"
proof (induction as arbitrary: acc)
  case (Cons a as)
  have "lockable d a" using Cons.prems(2) by simp
  note l = lockableD [OF this]
  show ?case
  proof (cases "is_valid (mh_id (decoded a))")
    case False
    then show ?thesis using l Cons by simp
  next
    case True
    with l obtain r where "hm_lookup (handle2pointer d) (mh_id (decoded a)) = Some r" by (auto elim: sized_lookup)
    then have "\<exists>ps. hm_GetPtrSize (mh_id (decoded a)) (handle2pointer d) = Inr ps"
      using hm_GetPtrSize_lookup [OF _ lookup_bucket] Cons.prems(1) by (auto simp: dm_inv_def table_ok_def)
    then show ?thesis using l True Cons by auto
  qed
qed simp

lemma lock_addresses_step:
  assumes inv: "dm_inv d" and w: "polite (ids_of as) w" and l: "\<forall>a\<in>set as. lockable d a"
  shows "lock_addresses host as w d = Inl Fatal \<or> lock_addresses host as w d = Inl No_return \<and> \<not> drains w \<or>
    (\<exists>w' d'. lock_addresses host as w d = Inr (map (device_address d' \<circ> decoded) as, w', d') \<and> dm_inv d' \<and>
       (\<forall>a\<in>set as. resolved d' (decoded a)) \<and> \<not> update_on_defragment d' \<and>
       (\<forall>i\<in>ids_of as. size_at (handle2pointer d') i = size_at (handle2pointer d) i \<and>
          (fixed_at (handle2pointer d) i \<and> ptr_at (handle2pointer d) i \<noteq> 0 \<longrightarrow>
             ptr_at (handle2pointer d') i = ptr_at (handle2pointer d) i)))"
proof -
  let ?I = "ids_of as"
  have st: "pool_strategy d = startegy_coalesce_stringent" if "dm_inv d" for d using that by (simp add: dm_inv_def)
  obtain n where n: "get_total_memory_required as d = Inr n"
    using missing_sizes_ok [OF inv l, of "[]"] st [OF inv] by (auto simp: get_total_memory_required_def)
  from check_and_limit_step [OF inv w, of n]
  consider "check_and_limit_recipe_execution n w d = Inl No_return" "\<not> drains w"
    | w1 d1 where "check_and_limit_recipe_execution n w d = Inr (w1, d1)" "step_ok ?I w d w1 d1"
    by (auto simp: wait_result_def)
  then show ?thesis
  proof cases
    case 1
    then show ?thesis using n by (simp add: lock_addresses_def)
  next
    case (2 w1 d1)
    have k1: "dm_inv d1" "polite ?I w1" "keeps ?I d d1" "drains w \<longrightarrow> drains w1"
      using step_okD [OF 2(2)] 2(2) by (auto simp: step_ok_def)
    have l1: "\<forall>a\<in>set as. lockable d1 a" using keeps_lockable [OF k1(3)] l by blast
    from translate_step [OF k1(1,2) _ l1, of host]
    consider "translate host as w1 d1 = Inl Fatal \<or> translate host as w1 d1 = Inl No_return \<and> \<not> drains w1"
      | ps w' e where "translate host as w1 d1 = Inr (ps, w', e)" "step_ok ?I w1 d1 w' e"
        "\<forall>a\<in>set as. resolved e (decoded a)" "\<not> update_on_defragment e \<longrightarrow> ps = map (device_address e \<circ> decoded) as"
      by blast
    then show ?thesis
    proof cases
      case 1
      then show ?thesis using n 2(1) st [OF k1(1)] k1(4) by (auto simp: lock_addresses_def)
    next
      case t: (2 ps w' e)
      have e: "dm_inv e" "keeps ?I d e" using step_okD [OF step_ok_trans [OF 2(2) t(2)]] by auto
      have le: "\<forall>a\<in>set as. (\<exists>h. reinterpret_from_pointer a = Inr h) \<and> resolved e (decoded a)"
        using l t(3) lockableD by blast
      let ?f = "e\<lparr> update_on_defragment := False, critical_section := critical_section e + 1 \<rparr>"
      have f: "dm_inv ?f" "device_address ?f = device_address e" "resolved ?f = resolved e"
        using e(1) by (auto simp: dm_inv_def device_address_def resolved_def fun_eq_iff split: option.splits)
      have "lock_addresses host as w d = Inr (map (device_address e \<circ> decoded) as, w', ?f)"
        using n 2(1) st [OF k1(1)] t(1,4) translate_resolved [OF e(1) le, of host w'] by (auto simp: lock_addresses_def)
      then show ?thesis using f t(3) e(2) by (auto simp: keeps_def)
    qed
  qed
qed

text \<open>Addresses of different handles lie in disjoint memory.\<close>

lemma resolved_disjoint:
  assumes inv: "dm_inv d" and p: "ptr_at (handle2pointer d) i \<noteq> 0" "ptr_at (handle2pointer d) k \<noteq> 0" "i \<noteq> k"
  shows "ptr_at (handle2pointer d) i + size_at (handle2pointer d) i \<le> ptr_at (handle2pointer d) k \<or>
    ptr_at (handle2pointer d) k + size_at (handle2pointer d) k \<le> ptr_at (handle2pointer d) i"
proof -
  from inv obtain s where s: "suballoc d = Some s" "good_pool s" "backed {} (handle2pointer d) s" by (rule dm_invE)
  let ?p = "ptr_at (handle2pointer d) i" and ?q = "ptr_at (handle2pointer d) k"
  obtain a b where ab: "(?p, a) \<in> heap_live s" "size_at (handle2pointer d) i \<le> a" "(?q, b) \<in> heap_live s"
    "size_at (handle2pointer d) k \<le> b" using s(3) p unfolding backed_def by blast
  have "?p \<noteq> ?q" using s(3) p unfolding backed_def by blast
  moreover have "pool_inv s" using s(2) by (simp add: good_pool_def)
  ultimately show ?thesis
    using device_pool.live_disjoint [of s ?p a ?q b] ab heap_live_sub [of s] by fastforce
qed

end
