(* ===== verification/Device_Workspace.thy ===== *)
theory Device_Workspace
  imports Device_Lock
begin

text \<open>
  The workspace of the recipes and the tensors that PyTorch allocates, on top of \<open>device_memory\<close>:
  memory of tensors is never part of the workspace, also when it is moved to let the workspace grow.
\<close>

section \<open>The workspace\<close>

text \<open>
  What the handles \<open>I\<close> are left with when memory may move: their size, and memory when they had any,
  the same when they are fixed.
\<close>

definition retains :: "64 word set \<Rightarrow> device_memory \<Rightarrow> device_memory \<Rightarrow> bool" where
  "retains I d d' \<longleftrightarrow> dm_inv d' \<and> dm_alignment d' = dm_alignment d \<and>
     (\<forall>i\<in>I. size_at (handle2pointer d') i = size_at (handle2pointer d) i \<and>
        (fixed_at (handle2pointer d) i \<longrightarrow> fixed_at (handle2pointer d') i) \<and>
        (ptr_at (handle2pointer d) i \<noteq> 0 \<longrightarrow> ptr_at (handle2pointer d') i \<noteq> 0 \<and>
          (fixed_at (handle2pointer d) i \<longrightarrow> ptr_at (handle2pointer d') i = ptr_at (handle2pointer d) i)))"

lemma retains_trans: "retains I d e \<Longrightarrow> retains I e f \<Longrightarrow> retains I d f"
  by (auto simp: retains_def)

lemma retains_keeps: "keeps I d e \<Longrightarrow> retains I d e"
  by (auto simp: retains_def keeps_def)

lemma retains_compacts: "compacts d e \<Longrightarrow> retains I d e"
  using compacts_facts [of d e] compacts_fixed [of d e] by (simp add: retains_def ptr_at_def)

lemma retains_step: "step_ok I w d w' e \<Longrightarrow> retains I d e"
  using retains_keeps by (simp add: step_ok_def)

text \<open>\<open>n\<close> bytes at \<open>p\<close> are the workspace: they are in no memory of a handle.\<close>

definition workspace_at :: "device_memory \<Rightarrow> nat \<Rightarrow> nat \<Rightarrow> bool" where
  "workspace_at d p n \<longleftrightarrow> p mod dm_alignment d = 0 \<and>
     (\<exists>s a. suballoc d = Some s \<and> n \<le> a \<and> (p, a) \<in> pool_live s \<and>
        (\<forall>(q, b)\<in>heap_of d. p + a \<le> q \<or> q + b \<le> p))"

lemma extend_keeps:
  assumes inv: "dm_inv d" and n: "0 < n" "n mod dm_alignment d = 0"
  shows "\<exists>p d'. extend_workspace n cur d = Inr (p, d') \<and> keeps I d d' \<and> (p \<noteq> 0 \<longrightarrow> workspace_at d' p n)"
proof -
  from extend_workspace_step [OF assms, of cur] show ?thesis
  proof (elim exE conjE)
    fix p t assume x: "extend_workspace n cur d = Inr (p, d\<lparr> suballoc := Some t \<rparr>)" "dm_inv (d\<lparr> suballoc := Some t \<rparr>)"
      and ws: "p \<noteq> 0 \<longrightarrow> heap_live t = heap_of d \<and> (\<exists>a\<ge>n. (p, a) \<in> pool_live t \<and> p mod dm_alignment d = 0 \<and>
        (\<forall>(q, b)\<in>heap_of d. p + a \<le> q \<or> q + b \<le> p))"
    have "keeps I d (d\<lparr> suballoc := Some t \<rparr>)" using x(2) by (simp add: keeps_def)
    moreover have "workspace_at (d\<lparr> suballoc := Some t \<rparr>) p n" if nz: "p \<noteq> 0"
    proof -
      obtain a where "n \<le> a" "(p, a) \<in> pool_live t" "p mod dm_alignment d = 0"
        "\<forall>(q, b)\<in>heap_live t. p + a \<le> q \<or> q + b \<le> p" using ws nz by auto
      then show ?thesis unfolding workspace_at_def heap_of_def by (intro conjI exI [of _ t] exI [of _ a]) simp_all
    qed
    ultimately show ?thesis using x(1) by (intro exI [of _ p] exI [of _ "d\<lparr> suballoc := Some t \<rparr>"]) simp
  qed
qed

lemma wait_recipes_step: "dm_inv d \<Longrightarrow> polite I w \<Longrightarrow> wait_result I w d (wait_recipes n w d)"
proof (induction n w d rule: wait_recipes.induct)
  case (1 n w d)
  show ?case
  proof (cases "get_count w > n")
    case False
    then show ?thesis using step_ok_start [OF keeps_refl [OF 1(2)] 1(3)]
      by (subst wait_recipes.simps) (simp add: wait_result_def)
  next
    case True
    show ?thesis
    proof (rule wait_cases [OF 1(2,3)])
      assume "wait_for_next_decrease_call w d = Inl No_return" "\<not> drains w"
      then show ?thesis using True by (subst wait_recipes.simps) (simp add: wait_result_def)
    next
      fix c w1 d1 assume x: "wait_for_next_decrease_call w d = Inr (c, w1, d1)" "step_ok I w d w1 d1"
      then have "wait_result I w1 d1 (wait_recipes n w1 d1)"
        using 1(1) [OF True x(1) refl refl] step_okD [OF x(2)] by blast
      then show ?thesis using wait_result_after [OF x(2)] x(1) True by (subst wait_recipes.simps) simp
    qed
  qed
qed

text \<open>The first two attempts, and the one after moving memory.\<close>

definition extend_or_wait ::
  "nat \<Rightarrow> nat \<Rightarrow> dm_threads \<Rightarrow> device_memory \<Rightarrow> (nat \<times> dm_threads \<times> device_memory) res" where
  "extend_or_wait n cur w d =
     bindR (extend_workspace n cur d) (\<lambda>(v, d).
       if v = 0 then bindR (wait_recipes 0 w d) (\<lambda>(w, d). bindR (extend_workspace n cur d) (\<lambda>(v, d). Inr (v, w, d)))
       else Inr (v, w, d))"

lemma extend_or_wait_step:
  assumes inv: "dm_inv d" and w: "polite I w" and n: "0 < n" "n mod dm_alignment d = 0"
  shows "extend_or_wait n cur w d = Inl No_return \<and> \<not> drains w \<or>
    (\<exists>v w' d'. extend_or_wait n cur w d = Inr (v, w', d') \<and> step_ok I w d w' d' \<and> (v \<noteq> 0 \<longrightarrow> workspace_at d' v n))"
proof -
  from extend_keeps [OF inv n, of cur I] obtain p e where
    x: "extend_workspace n cur d = Inr (p, e)" "keeps I d e" "p \<noteq> 0 \<longrightarrow> workspace_at e p n" by blast
  have se: "step_ok I w d w e" by (rule step_ok_start [OF x(2) w])
  show ?thesis
  proof (cases "p = 0")
    case False
    then show ?thesis using x se by (simp add: extend_or_wait_def)
  next
    case True
    from wait_recipes_step [OF keeps_inv [OF x(2)] w, of 0]
    consider "wait_recipes 0 w e = Inl No_return" "\<not> drains w"
      | w1 d1 where "wait_recipes 0 w e = Inr (w1, d1)" "step_ok I w e w1 d1" by (auto simp: wait_result_def)
    then show ?thesis
    proof cases
      case 1
      then show ?thesis using x(1) True by (simp add: extend_or_wait_def)
    next
      case (2 w1 d1)
      have s1: "step_ok I w d w1 d1" by (rule step_ok_trans [OF se 2(2)])
      then have d1: "dm_inv d1" "n mod dm_alignment d1 = 0" using step_okD [OF s1] n(2) by (auto simp: keeps_def)
      from extend_keeps [OF d1(1) n(1) d1(2), of cur I] obtain q f where
        y: "extend_workspace n cur d1 = Inr (q, f)" "keeps I d1 f" "q \<noteq> 0 \<longrightarrow> workspace_at f q n" by blast
      then show ?thesis using x(1) True 2(1) step_ok_keeps [OF s1 y(2)] by (simp add: extend_or_wait_def)
    qed
  qed
qed

lemma workspace_alloc_step:
  assumes inv: "dm_inv d" and w: "polite I w" and req: "0 < req" "req < 2 ^ 42"
    and grow: "\<not> (ws_size \<ge> req \<and> ptr \<noteq> 0)"
  shows "workspace_alloc h ptr ws_size req w d = Inl Fatal \<or>
    workspace_alloc h ptr ws_size req w d = Inl No_return \<and> \<not> drains w \<or>
    (\<exists>v sz w' d'. workspace_alloc h ptr ws_size req w d = Inr (v, sz, w', d') \<and> retains I d d' \<and>
       (if v = 0 then sz = ws_size else sz = block_align d req \<and> req \<le> sz \<and> workspace_at d' v sz))"
proof -
  let ?n = "block_align d req"
  have st: "pool_strategy d = startegy_coalesce_stringent" "alignment_ok (dm_alignment d)" using inv by (auto simp: dm_inv_def)
  have n: "0 < ?n" "req \<le> ?n" "?n mod dm_alignment d = 0"
    using block_align_request [OF st(2) req] by (simp_all add: block_align_def)
  let ?r = "extend_or_wait ?n ws_size w d"
  let ?rest = "\<lambda>(v, w, d). bindR (if v = 0 \<and> hs_defragmentation h then defragment_memory h (dm_alignment d) req True w d
      else Inr (False, w, d)) (\<lambda>(done, w, d).
    bindR (if done then extend_workspace ?n ws_size d else Inr (v, d)) (\<lambda>(v, d).
      Inr (v, if v \<noteq> 0 then ?n else ws_size, w, d)))"
  have run: "workspace_alloc h ptr ws_size req w d = bindR ?r ?rest"
    using st(1) grow unfolding workspace_alloc_def extend_or_wait_def Let_def
    by (cases "extend_workspace ?n ws_size d") (auto intro!: arg_cong2 [where f = bindR])
  from extend_or_wait_step [OF inv w n(1,3), of ws_size] show ?thesis
  proof (elim disjE exE conjE)
    assume "?r = Inl No_return" "\<not> drains w"
    then show ?thesis unfolding run by simp
  next
    fix v w1 d1 assume x: "?r = Inr (v, w1, d1)" "step_ok I w d w1 d1" "v \<noteq> 0 \<longrightarrow> workspace_at d1 v ?n"
    have run1: "workspace_alloc h ptr ws_size req w d = ?rest (v, w1, d1)" unfolding run x(1) by simp
    have r1: "retains I d d1" "dm_inv d1" "polite I w1" using retains_step [OF x(2)] step_okD [OF x(2)] by auto
    show ?thesis
    proof (cases "v = 0 \<and> hs_defragmentation h")
      case False
      then show ?thesis using run1 r1(1) x(3) n(2) by auto
    next
      case True
      let ?def = "defragment_memory h (dm_alignment d1) req True w1 d1"
      from defragment_memory_step [OF r1(2,3), of h "dm_alignment d1" req True]
      consider "?def = Inl Fatal" | ok w2 e d2 where "?def = Inr (ok, w2, d2)" "step_ok I w1 d1 w2 e" "compacts e d2"
        by blast
      then show ?thesis
      proof cases
        case 1
        then show ?thesis using run1 True by simp
      next
        case (2 ok w2 e d2)
        have r2: "retains I d d2"
          by (rule retains_trans [OF r1(1) retains_trans [OF retains_step [OF 2(2)] retains_compacts [OF 2(3)]]])
        then have d2: "dm_inv d2" "?n mod dm_alignment d2 = 0" using n(3) by (auto simp: retains_def)
        from extend_keeps [OF d2(1) n(1) d2(2), of ws_size I] obtain q f where
          y: "extend_workspace ?n ws_size d2 = Inr (q, f)" "keeps I d2 f" "q \<noteq> 0 \<longrightarrow> workspace_at f q ?n" by blast
        show ?thesis using run1 True 2(1) y r2 retains_trans [OF r2 retains_keeps [OF y(2)]] n(2) by (cases ok) auto
      qed
    qed
  qed
qed

end
