(* ===== verification/Device_Reach.thy ===== *)
theory Device_Reach
  imports Device_Workspace
begin

text \<open>
  The states \<open>device_memory\<close> can be in: how it is made, the operations of its users as one step
  relation, and the invariant in every reachable state. At the end, the states at which the
  properties are applied.
\<close>

section \<open>A new device memory\<close>

lemma device_memory_new_step:
  assumes st: "hs_strategy h = startegy_coalesce_stringent" and at: "hs_attributes h"
    and c: "create_ok (hs_env h) (hs_alignment h) (hs_first_host h)
      (align64 (hs_alignment h) (mul64 (mul64 (mul64 (hs_pool_size_flag h) 1024) 1024) 1024)) n base"
    and dv: "hs_alignment h dvd base" "hs_alignment h dvd n"
  shows "\<exists>d. device_memory_new h = Inr d \<and> dm_inv d \<and> heap_of d = {} \<and> handle2pointer d = HandlesMap_new \<and>
    dm_alignment d = hs_alignment h \<and> critical_section d = 0 \<and> \<not> update_on_defragment d \<and>
    (\<exists>s. suballoc d = Some s \<and> max_pool_size s = n \<and> \<not> high_memory_allocated s \<and>
       (2 * small_region (hs_alignment h) \<le> n - hs_alignment h \<longrightarrow>
         (\<exists>b e. pool_blocks s = [b, e] \<and> \<not> b_used e \<and> b_size e = n - hs_alignment h - small_region (hs_alignment h))))"
proof -
  let ?sz = "mul64 (mul64 (mul64 (hs_pool_size_flag h) 1024) 1024) 1024"
  from pool_create_step [OF c, of "hs_device_id h" "hs_events h"] dv obtain s where
    s: "pool_create (hs_env h) (hs_device_id h) (align64 (hs_alignment h) ?sz)
      (pool_new (hs_alignment h) (hs_first_host h) (hs_events h)) = Inr s" "pool_inv s" "pool_live s = {}"
      "\<not> high_memory_allocated s" "alignment s = hs_alignment h" "hpu_events s = []"
      "\<forall>b\<in>set (pool_blocks s). hs_alignment h dvd b_addr b \<and> hs_alignment h dvd b_size b"
      "\<forall>b\<in>set (pool_blocks s). b_uses b = [] \<and> b_events b = 0" "max_pool_size s = n"
      "2 * small_region (hs_alignment h) \<le> n - hs_alignment h \<longrightarrow> (\<exists>b d. pool_blocks s = [b, d] \<and> b_used b \<and>
         \<not> b_used d \<and> extent b = (base + hs_alignment h, small_region (hs_alignment h)) \<and>
         extent d = (base + hs_alignment h + small_region (hs_alignment h), n - hs_alignment h - small_region (hs_alignment h)))"
    by auto
  have big: "2 * small_region (hs_alignment h) \<le> n - hs_alignment h \<longrightarrow>
      (\<exists>b e. pool_blocks s = [b, e] \<and> \<not> b_used e \<and> b_size e = n - hs_alignment h - small_region (hs_alignment h))"
    using s(10) by (auto simp: extent_def)
  let ?d = "\<lparr> pool_strategy = hs_strategy h, dm_pool_size = ?sz, suballoc = Some s,
    update_on_defragment = False, handle2pointer = HandlesMap_new, critical_section = 0, dm_alignment = hs_alignment h \<rparr>"
  have run: "device_memory_new h = Inr ?d" using st at s(1) by (simp add: device_memory_new_def block_align_def)
  have g: "good_pool s" using s by (simp add: good_pool_def pool_aligned_def aligned_blocks_def idle_blocks_def)
  have "hm_lookup HandlesMap_new i = None" for i
    by (simp add: hm_lookup_def HandlesMap_new_def rec_at_def Record_default_def nth_Cons' split: if_splits)
  then have z: "ptr_at HandlesMap_new i = 0" "size_at HandlesMap_new i = 0" for i by (simp_all add: ptr_at_def size_at_def)
  have "table_ok HandlesMap_new" using hm_inv_new hm_clean_new z by (simp add: table_ok_def)
  moreover have "alignment_ok (hs_alignment h)" using c by (auto simp: create_ok_def alignment_ok_def)
  ultimately have "dm_inv ?d" using st g s(5) z by (simp add: dm_inv_def backed_def)
  moreover have "heap_of ?d = {}" using s(3) heap_live_sub [of s] by (auto simp: heap_of_def)
  ultimately show ?thesis using run big s(4,9) by simp
qed

section \<open>Tensors\<close>

lemma tensor_allocate_step:
  assumes inv: "dm_inv d" and n: "0 < n" "n < 2 ^ 42"
    and room: "hm_room (of_nat n, if hs_record_stream h then st else 0) (handle2pointer d)"
  shows "\<exists>p i d'. tensor_allocate h True n st w d = Inr (p, w, d') \<and> dm_inv d' \<and> p \<noteq> 0 \<and>
    reinterpret_from_pointer p = Inr \<lparr> mh_id = i, mh_offset = 0 \<rparr> \<and>
    hm_lookup (handle2pointer d) i = None \<and> size_at (handle2pointer d') i = n \<and> ptr_at (handle2pointer d') i = 0 \<and>
    not_reset d' i \<and> lockable d' p \<and> suballoc d' = suballoc d \<and> dm_alignment d' = dm_alignment d \<and>
    update_on_defragment d' = update_on_defragment d \<and> critical_section d' = critical_section d \<and>
    (\<forall>k. k \<noteq> i \<longrightarrow> hm_lookup (handle2pointer d') k = hm_lookup (handle2pointer d) k)"
proof -
  let ?st = "if hs_record_stream h then st else 0"
  from dm_malloc_step [OF inv room, of "hs_env h"] obtain p i m where
    m: "dm_malloc_stream (hs_env h) (of_nat n) ?st d = Inr (True, p, d\<lparr> handle2pointer := m \<rparr>)"
      "dm_inv (d\<lparr> handle2pointer := m \<rparr>)" "hm_lookup (handle2pointer d) i = None"
      "hm_lookup m = (hm_lookup (handle2pointer d))(i \<mapsto> Record_new (of_nat n) ?st)"
      "reinterpret_from_pointer p = Inr \<lparr> mh_id = i, mh_offset = 0 \<rparr>" "p \<noteq> 0" by blast
  have tm: "tensor_malloc h n st d = Inr (True, p, d\<lparr> handle2pointer := m \<rparr>)"
    using m(1) by (cases "hs_record_stream h") (simp_all add: tensor_malloc_def dm_malloc_default)
  have sz: "unat (of_nat n :: 64 word) = n" using n(2) by (simp add: unat_of_nat)
  have "sized (d\<lparr> handle2pointer := m \<rparr>) i" using m(4) sz n(1) by (simp add: sized_def size_at_def Record_new_def)
  then have "lockable (d\<lparr> handle2pointer := m \<rparr>) p" using m(5) by (simp add: lockable_def)
  moreover have "tensor_allocate h True n st w d = Inr (p, w, d\<lparr> handle2pointer := m \<rparr>)"
    using tm n(1) m(6) by (simp add: tensor_allocate_def)
  ultimately show ?thesis using m sz by (intro exI [of _ p] exI [of _ i] exI [of _ "d\<lparr> handle2pointer := m \<rparr>"])
      (simp add: size_at_def ptr_at_def Record_new_def not_reset_def)
qed

section \<open>Fixed addresses\<close>

lemma mark_fixed_step:
  assumes inv: "dm_inv d" and i: "sized d i"
  shows "\<exists>m. hm_MarkMemoryFixed i (handle2pointer d) = Inr m \<and> dm_inv (d\<lparr> handle2pointer := m \<rparr>) \<and>
    keeps I d (d\<lparr> handle2pointer := m \<rparr>) \<and> fixed_at m i \<and> size_at m = size_at (handle2pointer d) \<and>
    ptr_at m = ptr_at (handle2pointer d)"
proof -
  let ?m = "handle2pointer d" and ?f = "\<lambda>r. r\<lparr> hr_fixed := True \<rparr>"
  from inv obtain s where s: "suballoc d = Some s" "good_pool s" "alignment s = dm_alignment d"
    "backed {} ?m s" "table_ok ?m" "alignment_ok (dm_alignment d)" "pool_strategy d = startegy_coalesce_stringent"
    by (rule dm_invE)
  have hi: "hm_inv ?m" "hm_clean ?m" "\<forall>i. size_at ?m i < 2 ^ 42" using s(5) by (auto simp: table_ok_def)
  from sized_lookup [OF i] obtain r where l: "hm_lookup ?m i = Some r" by metis
  have a: "hr_active r" using l by (auto simp: hm_lookup_def split: option.splits if_splits)
  let ?n = "hm_update i ?f ?m"
  have lk: "hm_lookup ?n = (hm_lookup ?m)(i \<mapsto> ?f r)" using hm_lookup_update [OF hi(1) l, of ?f] a by (auto simp: fun_eq_iff)
  then have e: "size_at ?n = size_at ?m" "ptr_at ?n = ptr_at ?m" using l by (auto simp: size_at_def ptr_at_def fun_eq_iff)
  have f: "fixed_at ?n k = (k = i \<or> fixed_at ?m k)" for k using lk by (simp add: fixed_at_def)
  have "hm_inv ?n" "hm_clean ?n"
    by (rule hm_update_inv [OF hi(1) l], use a in simp) (rule hm_clean_update [OF hi(2,1) l], use a in simp)
  then have t: "table_ok ?n" using hi(3) e by (simp add: table_ok_def)
  have "backed {} ?n s" using s(4) e by (simp add: backed_def)
  then have d: "dm_inv (d\<lparr> handle2pointer := ?n \<rparr>)" using s t by (simp add: dm_inv_def)
  have "keeps I d (d\<lparr> handle2pointer := ?n \<rparr>)" using d e f by (simp add: keeps_def)
  then show ?thesis using hm_change(2) [OF hi(1) l] d e f by simp
qed

lemma fix_address_step:
  assumes inv: "dm_inv d" and w: "polite I w" and i: "i \<in> I" "sized d i"
    and p: "reinterpret_from_pointer p = Inr \<lparr> mh_id = i, mh_offset = 0 \<rparr>"
  shows "fix_address h p w d = Inl Fatal \<or> fix_address h p w d = Inl No_return \<and> \<not> drains w \<or>
    (\<exists>q w' d'. fix_address h p w d = Inr (q, w', d') \<and> step_ok I w d w' d' \<and> q \<noteq> 0 \<and>
       fixed_at (handle2pointer d') i \<and> ptr_at (handle2pointer d') i = q)"
proof -
  have st: "pool_strategy d = startegy_coalesce_stringent" "hm_inv (handle2pointer d)"
    using inv by (auto simp: dm_inv_def table_ok_def)
  from sized_lookup [OF i(2)] obtain r where l: "hm_lookup (handle2pointer d) i = Some r" by metis
  have v: "is_valid i" by (rule lookup_valid [OF st(2) l])
  have p0: "p \<noteq> 0" using p from_pointer_0 v by (auto simp: is_valid_def)
  from mark_fixed_step [OF inv i(2), of I] obtain m where
    m: "hm_MarkMemoryFixed i (handle2pointer d) = Inr m" "dm_inv (d\<lparr> handle2pointer := m \<rparr>)"
      "keeps I d (d\<lparr> handle2pointer := m \<rparr>)" "fixed_at m i" "size_at m = size_at (handle2pointer d)" by blast
  let ?d = "d\<lparr> handle2pointer := m \<rparr>" and ?h = "\<lparr> mh_id = i, mh_offset = 0 \<rparr>"
  have run: "fix_address h p w d = get_pointer h ?h w ?d" using p0 st(1) p m(1) by (simp add: fix_address_def)
  have sd: "sized ?d i" using i(2) m(5) by (simp add: sized_def)
  have s1: "step_ok I w d w ?d" by (rule step_ok_start [OF m(3) w])
  from get_pointer_step [OF m(2) w, of ?h h] i(1) sd
  consider "get_pointer h ?h w ?d = Inl Fatal \<or> get_pointer h ?h w ?d = Inl No_return \<and> \<not> drains w"
    | w' d' where "get_pointer h ?h w ?d = Inr (device_address d' ?h, w', d')" "step_ok I w ?d w' d'" "resolved d' ?h"
    by auto
  then show ?thesis
  proof cases
    case 1
    then show ?thesis using run by auto
  next
    case (2 w' d')
    have "fixed_at (handle2pointer d') i" using step_okD [OF 2(2)] i(1) m(4) by (simp add: keeps_def)
    then show ?thesis using run 2(1,3) step_ok_trans [OF s1 2(2)] v by (simp add: device_address_def resolved_def)
  qed
qed

section \<open>When memory is free\<close>

text \<open>With a free chunk that is large enough no wait and no move takes place.\<close>

lemma good_alloc_fits:
  assumes g: "good_pool s" and r: "pool_request (n, st, us) s" and m: "n \<le> max_pool_size s"
    and b: "b \<in> set (pool_blocks s)" "fits n st us b" and a: "alloc_chunk n st us s = Inr (p, t)"
  shows "p \<noteq> 0"
proof -
  have inv: "pool_inv s" "pool_ok s" and n: "0 < n" "n < u64_lim"
    using g r by (auto simp: good_pool_def pool_inv_def pool_request_def)
  have "alloc_blocks s n st us (pool_blocks s) \<noteq> None"
    using b by (auto simp: alloc_blocks_def best_block_None split: option.splits)
  then obtain q u where q: "alloc_large n st us s = Inr (q, u)" "q \<noteq> 0"
    using alloc_large_step [OF inv(2) n m, of st us] by fastforce
  show ?thesis using a q alloc_chunk_unfold [OF inv(1) r]
    by (auto split: option.splits sum.splits if_splits)
qed

definition room_for :: "nat \<Rightarrow> device_memory \<Rightarrow> bool" where
  "room_for n d \<longleftrightarrow> (\<exists>s b. suballoc d = Some s \<and> block_align d n \<le> max_pool_size s \<and>
     b \<in> set (pool_blocks s) \<and> fits (block_align d n) 0 False b)"

lemma get_pointer_fits:
  assumes inv: "dm_inv d" and i: "sized d (mh_id h)" "unat (mh_offset h) < size_at (handle2pointer d) (mh_id h)"
    and p: "ptr_at (handle2pointer d) (mh_id h) = 0" and room: "room_for (size_at (handle2pointer d) (mh_id h)) d"
  shows "\<exists>d'. get_pointer host h w d = Inr (device_address d' h, w, d') \<and> keeps I d d' \<and> resolved d' h \<and>
    update_on_defragment d' = update_on_defragment d \<and> not_reset d' (mh_id h) = not_reset d (mh_id h) \<and>
    critical_section d' = critical_section d"
proof -
  let ?m = "handle2pointer d" and ?i = "mh_id h"
  from inv obtain s where s: "suballoc d = Some s" "good_pool s" "alignment s = dm_alignment d" "table_ok ?m"
    "alignment_ok (dm_alignment d)" "pool_strategy d = startegy_coalesce_stringent" "suballocator_of d = Inr s" by (rule dm_invE)
  have hi: "hm_inv ?m" using s(4) by (simp add: table_ok_def)
  from sized_lookup [OF i(1)] obtain r where l: "hm_lookup ?m ?i = Some r"
    "size_at ?m ?i = unat (ps_size (hr_ptr_size r))" by metis
  let ?n = "unat (ps_size (hr_ptr_size r))"
  have n: "0 < ?n" "?n < 2 ^ 42"
    using i(1) l(2) s(4) by (auto simp: sized_def table_ok_def dest!: spec [where x = ?i])
  have rq: "pool_request (block_align d ?n, 0, False) s"
    using block_align_request [OF s(5) n] s(3) by (simp add: pool_request_def block_align_def)
  from good_alloc [OF s(2) rq] obtain q t where q: "alloc_chunk (block_align d ?n) 0 False s = Inr (q, t)" by blast
  have q0: "q \<noteq> 0" using room good_alloc_fits [OF s(2) rq _ _ _ q] s(1) l(2) by (auto simp: room_for_def)
  from get_and_alloc_keeps [OF inv i(1), of "hs_env host" I] obtain p' n' d' where
    g: "get_and_alloc_mem (hs_env host) ?i d = Inr (p', n', d')" "keeps I d d'" "p' = ptr_at (handle2pointer d') ?i"
      "unat n' = size_at ?m ?i" "not_reset d' ?i = not_reset d ?i" "critical_section d' = critical_section d" by blast
  from get_and_alloc_keeps [OF inv i(1), of "hs_env host" "{?i}"] g(1)
  have sz: "size_at (handle2pointer d') ?i = size_at ?m ?i" "dm_inv d'" by (auto simp: keeps_def)
  have "hm_GetPtrSize ?i ?m = Inr (hr_ptr_size r)" "ps_ptr (hr_ptr_size r) = 0"
    using hm_GetPtrSize_lookup [OF hi lookup_bucket [OF hi l(1)]] l(1) p by (simp_all add: ptr_at_def)
  then have f: "p' = q \<and> update_on_defragment d' = update_on_defragment d"
    using g(1) s(2,6,7) q by (auto simp: get_and_alloc_mem_def dm_alloc_stream_def SubAllocator_alloc_def
        pool_alloc_workspace_def good_pool_def bindR_eq_Inr)
  have v: "is_valid ?i" by (rule lookup_valid [OF hi l(1)])
  have rs: "resolved d' h" using f q0 g(3) sz(1) i(2) by (simp add: resolved_def)
  have pp: "ptr_at (handle2pointer d') ?i \<noteq> 0" using f q0 g(3) by simp
  have al: "dm_alignment d' \<noteq> 0" using sz(2) by (auto simp: dm_inv_def alignment_ok_def)
  from resolved_memory [OF sz(2) pp] have "p' mod dm_alignment d' = 0" using g(3) by metis
  moreover have "alloc_or_defragment host ?i w d = Inr (p', n', w, d')"
    using g(1,3) pp by (simp add: alloc_or_defragment_def alloc_or_wait_def)
  moreover have "\<not> mh_offset h \<ge> n'" using i(2) g(4) by (simp add: word_le_nat_alt)
  ultimately have "get_pointer host h w d = Inr (device_address d' h, w, d')"
    using v g(3) pp al resolved_address [OF sz(2) rs v] by (simp add: get_pointer_def)
  then show ?thesis using g(2,5,6) rs f by blast
qed

lemma lock_one_fits:
  assumes inv: "dm_inv d" and a: "reinterpret_from_pointer a = Inr h"
    and i: "sized d (mh_id h)" "unat (mh_offset h) < size_at (handle2pointer d) (mh_id h)"
    and p: "ptr_at (handle2pointer d) (mh_id h) = 0" and room: "room_for (size_at (handle2pointer d) (mh_id h)) d"
    and q: "\<not> update_on_defragment d" "get_count w = 0"
  shows "\<exists>q d'. lock_addresses host [a] w d = Inr ([q], w, d') \<and> not_reset d' (mh_id h) = not_reset d (mh_id h) \<and>
    critical_section d' = critical_section d + 1"
proof -
  have st: "pool_strategy e = startegy_coalesce_stringent" if "dm_inv e" for e using that by (simp add: dm_inv_def)
  have "lockable d a" using a i(1) by (simp add: lockable_def)
  then obtain n where n: "get_total_memory_required [a] d = Inr n"
    using missing_sizes_ok [OF inv, of "[a]" "[]"] st [OF inv] by (auto simp: get_total_memory_required_def)
  from get_pointer_fits [OF inv i p room, of host w "{}"] obtain e where
    e: "get_pointer host h w d = Inr (device_address e h, w, e)" "update_on_defragment e = update_on_defragment d"
    "not_reset e (mh_id h) = not_reset d (mh_id h)" "critical_section e = critical_section d" by blast
  then show ?thesis using n q st [OF inv] a by (simp  add: lock_addresses_def check_and_limit_recipe_execution_def not_reset_def)
qed

lemma workspace_alloc_returns:
  assumes inv: "dm_inv d" and w: "polite I w" "drains w" and req: "0 < req" "req < 2 ^ 42"
  shows "workspace_alloc h ptr ws req w d \<noteq> Inl No_return"
proof (cases "ws \<ge> req \<and> ptr \<noteq> 0")
  case True
  then show ?thesis using inv by (auto simp: workspace_alloc_def dm_inv_def)
next
  case False
  then show ?thesis using workspace_alloc_step [OF inv w(1) req False, of h] w(2) by auto
qed

lemma workspace_alloc_safe:
  assumes inv: "dm_inv d" and w: "polite I w" and req: "0 < req" "req < 2 ^ 42"
    and e: "workspace_alloc h ptr ws req w d = Inl e"
  shows "e \<in> {Fatal, No_return}"
proof (cases "ws \<ge> req \<and> ptr \<noteq> 0")
  case True
  then show ?thesis using inv e by (auto simp: workspace_alloc_def dm_inv_def)
next
  case False
  then show ?thesis using workspace_alloc_step [OF inv w req False, of h] e by auto
qed

lemma compacts_zero:
  assumes "compacts d d'"
  shows "ptr_at (handle2pointer d') i = 0 \<longleftrightarrow> ptr_at (handle2pointer d) i = 0"
proof -
  from assms obtain s m H where c: "handle2pointer d' = m" "moves H (handle2pointer d) m"
    "\<forall>i\<in>H. \<exists>q. hm_lookup (handle2pointer d) i = Some q \<and> ps_ptr (hr_ptr_size q) \<noteq> 0" unfolding compacts_def by fastforce
  show ?thesis
  proof (cases "i \<in> H")
    case True
    then have "ptr_at (handle2pointer d) i \<noteq> 0" using c(3) by (auto simp: ptr_at_def)
    then show ?thesis using True moved_sizes(3) [OF c(2), of i] c(1) by simp
  next
    case False
    then show ?thesis using moved_sizes(2) [OF c(2), of i] c(1) by simp
  qed
qed

lemma heap_of_pos: "dm_inv d \<Longrightarrow> (p, a) \<in> heap_of d \<Longrightarrow> p \<noteq> 0"
  using heap_live_sub device_pool.live_pos by (fastforce simp: heap_of_def good_pool_def elim: dm_invE)

lemma dm_inv_sized: "dm_inv d \<Longrightarrow> ptr_at (handle2pointer d) i \<noteq> 0 \<Longrightarrow> 0 < size_at (handle2pointer d) i"
  by (auto simp: backed_def elim: dm_invE)

lemma fix_address_fits:
  assumes inv: "dm_inv d" and a: "reinterpret_from_pointer a = Inr \<lparr> mh_id = i, mh_offset = 0 \<rparr>" and i: "sized d i"
    and p: "ptr_at (handle2pointer d) i = 0" and room: "room_for (size_at (handle2pointer d) i) d"
  shows "\<exists>x. fix_address host a w d = Inr x"
proof -
  from mark_fixed_step [OF inv i, of "{i}"] obtain m where
    m: "hm_MarkMemoryFixed i (handle2pointer d) = Inr m" "dm_inv (d\<lparr> handle2pointer := m \<rparr>)"
      "size_at m = size_at (handle2pointer d)" "ptr_at m = ptr_at (handle2pointer d)" by blast
  let ?d = "d\<lparr> handle2pointer := m \<rparr>" and ?h = "\<lparr> mh_id = i, mh_offset = 0 \<rparr>"
  obtain r where l: "hm_lookup (handle2pointer d) i = Some r" by (rule sized_lookup [OF i])
  have st: "pool_strategy d = startegy_coalesce_stringent" "hm_inv (handle2pointer d)"
    using inv by (auto simp: dm_inv_def table_ok_def)
  have "a \<noteq> 0" using a from_pointer_0 lookup_valid [OF st(2) l] by (auto simp: is_valid_def)
  then have "fix_address host a w d = get_pointer host ?h w ?d" using st(1) a m(1) by (simp add: fix_address_def)
  moreover have "sized ?d (mh_id ?h)" "unat (mh_offset ?h) < size_at (handle2pointer ?d) (mh_id ?h)"
    "ptr_at (handle2pointer ?d) (mh_id ?h) = 0" "room_for (size_at (handle2pointer ?d) (mh_id ?h)) ?d"
    using i m(3,4) p room by (simp_all add: sized_def room_for_def block_align_def)
  ultimately show ?thesis using get_pointer_fits [OF m(2), of ?h host w "{}"] by auto
qed

section \<open>Reachable states\<close>

text \<open>
  The operations with what their users keep to: a handle is freed once, addresses are locked and
  fixed while their handles are in use, and other threads leave the handles of a call alone.
\<close>

inductive device_step :: "host \<Rightarrow> device_memory \<Rightarrow> device_memory \<Rightarrow> bool" for h :: host where
  Malloc: "hm_room (sz, st) (handle2pointer d) \<Longrightarrow> dm_malloc_stream (hs_env h) sz st d = Inr (ok, p, d') \<Longrightarrow>
    device_step h d d'"
| Free: "not_reset d i \<Longrightarrow> reinterpret_from_pointer p = Inr \<lparr> mh_id = i, mh_offset = 0 \<rparr> \<Longrightarrow>
    dm_free (hs_env h) p d = Inr d' \<or> dm_free_with_stream (hs_env h) p d = Inr d' \<Longrightarrow> device_step h d d'"
| Lock: "polite (ids_of as) w \<Longrightarrow> \<forall>a\<in>set as. lockable d a \<Longrightarrow> lock_addresses h as w d = Inr (out, w', d') \<Longrightarrow>
    device_step h d d'"
| Unlock: "device_step h d (unlock_addresses d)"
| Fix: "polite I w \<Longrightarrow> i \<in> I \<Longrightarrow> sized d i \<Longrightarrow> reinterpret_from_pointer p = Inr \<lparr> mh_id = i, mh_offset = 0 \<rparr> \<Longrightarrow>
    fix_address h p w d = Inr (q, w', d') \<Longrightarrow> device_step h d d'"
| Workspace: "polite I w \<Longrightarrow> 0 < req \<Longrightarrow> req < 2 ^ 42 \<Longrightarrow> workspace_alloc h ptr ws req w d = Inr (v, ws', w', d') \<Longrightarrow>
    device_step h d d'"
| Defragment: "polite I w \<Longrightarrow> defragment_memory h al n grow w d = Inr (ok, w', d') \<Longrightarrow> device_step h d d'"

inductive device_reach :: "host \<Rightarrow> device_memory \<Rightarrow> bool" for h :: host where
  New: "hs_strategy h = startegy_coalesce_stringent \<Longrightarrow>
    create_ok (hs_env h) (hs_alignment h) (hs_first_host h)
      (align64 (hs_alignment h) (mul64 (mul64 (mul64 (hs_pool_size_flag h) 1024) 1024) 1024)) n base \<Longrightarrow>
    hs_alignment h dvd base \<Longrightarrow> hs_alignment h dvd n \<Longrightarrow> device_memory_new h = Inr d \<Longrightarrow> device_reach h d"
| Step: "device_reach h d \<Longrightarrow> device_step h d d' \<Longrightarrow> device_reach h d'"

inductive_cases device_stepE: "device_step h d d'"

lemma device_step_inv: "device_step h d d' \<Longrightarrow> dm_inv d \<Longrightarrow> dm_inv d'"
proof (induction rule: device_step.induct)
  case (Malloc sz st d ok p d')
  then show ?case using dm_malloc_step [OF Malloc(3,1), of "hs_env h"] by auto
next
  case (Free d i p d')
  then show ?case using dm_free_step [OF Free(4,1,2), of "hs_env h"] by auto
next
  case (Lock as w d out w' d')
  then show ?case using lock_addresses_step [OF Lock(4,1,2), of h] by auto
next
  case (Unlock d)
  then show ?case by (simp add: unlock_addresses_def dm_inv_def split: option.splits)
next
  case (Fix I w i d p q w' d')
  then show ?case using fix_address_step [OF Fix(6,1,2,3,4), of h] step_okD by auto
next
  case (Workspace I w req ptr ws d v ws' w' d')
  show ?case
  proof (cases "ws \<ge> req \<and> ptr \<noteq> 0")
    case True
    then show ?thesis using Workspace by (auto simp: workspace_alloc_def dm_inv_def)
  next
    case False
    then show ?thesis using workspace_alloc_step [OF Workspace(5,1,2,3) False, of h] Workspace(4)
      by (auto simp: retains_def)
  qed
next
  case (Defragment I w al n grow d ok w' d')
  then show ?case using defragment_memory_step [OF Defragment(3,1), of h al n grow] compacts_facts(1) by auto
qed

lemma device_reach_inv: "device_reach h d \<Longrightarrow> dm_inv d"
proof (induction rule: device_reach.induct)
  case (New n base d)
  have "hs_attributes h" using New(5) by (auto simp: device_memory_new_def bindR_eq_Inr Let_def split: if_splits)
  then show ?case using device_memory_new_step [OF New(1) _ New(2,3,4)] New(5) by auto
qed (rule device_step_inv)

end
