(* ===== verification/Memory_Mapper.thy ===== *)
theory Memory_Mapper
  imports Mem_Prelude
begin

text \<open>
  The cache of pinned host buffers (\<open>memory_mapping.h\<close>, \<open>memory_mapping.cpp\<close>). For each size there
  is a vector of buffers that were mapped for the device; a released buffer stays mapped and is
  handed out again, and \<open>drop_cache\<close> unmaps the ones that are not in use. Mapping and unmapping
  are calls of the Synapse library, the parameters of \<open>host_env\<close>; a buffer is its host address, and
  \<open>make_unique\<close> returns a new one.
\<close>

section \<open>State\<close>

record host_env =
  he_map :: "nat \<Rightarrow> nat \<Rightarrow> bool"
  he_unmap :: "nat \<Rightarrow> bool"

record mapped_entry =
  me_in_use :: bool
  me_buf :: nat

record acquired_entry =
  ae_size :: nat
  ae_idx :: nat
  ae_ptr :: nat
  ae_ok :: bool

record memory_mapper =
  mapped_locations :: "(nat \<times> mapped_entry list) list"
  mm_next_buf :: nat

definition memory_mapper_new :: memory_mapper where
  "memory_mapper_new = \<lparr> mapped_locations = [], mm_next_buf = 1 \<rparr>"

section \<open>The buffers of one size\<close>

fun find_free :: "mapped_entry list \<Rightarrow> nat option" where
  "find_free [] = None"
| "find_free (e # es) = (if \<not> me_in_use e then Some 0 else map_option Suc (find_free es))"

text \<open>The third component is the next new buffer.\<close>

definition fe_acquire ::
  "host_env \<Rightarrow> nat \<Rightarrow> nat \<Rightarrow> mapped_entry list \<Rightarrow> acquired_entry \<times> mapped_entry list \<times> nat" where
  "fe_acquire env sz b es =
     (case find_free es of
        None \<Rightarrow>
          if he_map env sz b then
            (\<lparr> ae_size = sz, ae_idx = length es, ae_ptr = b, ae_ok = True \<rparr>,
             es @ [\<lparr> me_in_use = True, me_buf = b \<rparr>], b + 1)
          else (\<lparr> ae_size = sz, ae_idx = 0, ae_ptr = 0, ae_ok = False \<rparr>, es, b + 1)
      | Some i \<Rightarrow>
          (\<lparr> ae_size = sz, ae_idx = i, ae_ptr = me_buf (es ! i), ae_ok = True \<rparr>,
           es[i := (es ! i)\<lparr> me_in_use := True \<rparr>], b))"

definition fe_release :: "nat \<Rightarrow> mapped_entry list \<Rightarrow> mapped_entry list" where
  "fe_release idx es =
     (if idx \<ge> length es then es
      else if \<not> me_in_use (es ! idx) then es
      else es[idx := (es ! idx)\<lparr> me_in_use := False \<rparr>])"

text \<open>Whether every unmapping succeeded, and the entries that stay.\<close>

definition fe_unmap_all :: "host_env \<Rightarrow> mapped_entry list \<Rightarrow> bool \<times> mapped_entry list" where
  "fe_unmap_all env es =
     (list_all (\<lambda>e. he_unmap env (me_buf e)) (filter (\<lambda>e. \<not> me_in_use e) es), filter me_in_use es)"

section \<open>The mapper\<close>

definition entries_of :: "nat \<Rightarrow> memory_mapper \<Rightarrow> mapped_entry list" where
  "entries_of sz m = (case map_of (mapped_locations m) sz of None \<Rightarrow> [] | Some es \<Rightarrow> es)"

definition mm_map :: "host_env \<Rightarrow> nat \<Rightarrow> memory_mapper \<Rightarrow> acquired_entry \<times> memory_mapper" where
  "mm_map env sz m =
     (let (a, es, b) = fe_acquire env sz (mm_next_buf m) (entries_of sz m)
      in (a, m\<lparr> mapped_locations := AList.update sz es (mapped_locations m), mm_next_buf := b \<rparr>))"

definition mm_unmap :: "acquired_entry \<Rightarrow> memory_mapper \<Rightarrow> memory_mapper" where
  "mm_unmap a m =
     (case map_of (mapped_locations m) (ae_size a) of
        None \<Rightarrow> m
      | Some es \<Rightarrow>
          m\<lparr> mapped_locations := AList.update (ae_size a) (fe_release (ae_idx a) es) (mapped_locations m) \<rparr>)"

definition mm_drop_cache :: "host_env \<Rightarrow> memory_mapper \<Rightarrow> bool \<times> memory_mapper" where
  "mm_drop_cache env m =
     (list_all (\<lambda>(sz, es). fst (fe_unmap_all env es)) (mapped_locations m),
      m\<lparr> mapped_locations := map (\<lambda>(sz, es). (sz, snd (fe_unmap_all env es))) (mapped_locations m) \<rparr>)"

section \<open>Buffers that are held\<close>

definition mm_inv :: "memory_mapper \<Rightarrow> bool" where
  "mm_inv m \<longleftrightarrow> distinct (map fst (mapped_locations m)) \<and>
     (\<forall>sz. \<forall>e\<in>set (entries_of sz m). 0 < me_buf e \<and> me_buf e < mm_next_buf m) \<and>
     (\<forall>sz. distinct (map me_buf (entries_of sz m))) \<and>
     (\<forall>sz tz. sz \<noteq> tz \<longrightarrow> me_buf ` set (entries_of sz m) \<inter> me_buf ` set (entries_of tz m) = {}) \<and>
     0 < mm_next_buf m"

definition held :: "memory_mapper \<Rightarrow> nat set" where
  "held m = (\<Union>sz. me_buf ` {e \<in> set (entries_of sz m). me_in_use e})"

lemma entries_of_update [simp]:
  "entries_of sz (m\<lparr> mapped_locations := AList.update tz es (mapped_locations m), mm_next_buf := b \<rparr>) =
     (if sz = tz then es else entries_of sz m)"
  "entries_of sz (m\<lparr> mapped_locations := AList.update tz es (mapped_locations m) \<rparr>) =
     (if sz = tz then es else entries_of sz m)"
  by (simp_all add: entries_of_def update_conv')

lemma find_free_Some:
  "find_free es = Some i \<Longrightarrow> i < length es \<and> \<not> me_in_use (es ! i) \<and> (\<forall>j<i. me_in_use (es ! j))"
proof (induction es arbitrary: i)
  case (Cons e es)
  then show ?case by (auto split: if_splits simp: less_Suc_eq_0_disj)
qed simp

lemma find_free_None: "find_free es = None \<longleftrightarrow> (\<forall>e\<in>set es. me_in_use e)"
  by (induction es) auto

lemma mm_inv_new: "mm_inv memory_mapper_new"
  by (simp add: mm_inv_def memory_mapper_new_def entries_of_def)

text \<open>Replacing the buffers of one size.\<close>

lemma mm_inv_update:
  assumes inv: "mm_inv m" and b: "mm_next_buf m \<le> b"
    and es: "distinct (map me_buf es)"
      "me_buf ` set es \<subseteq> me_buf ` set (entries_of sz m) \<union> {n. mm_next_buf m \<le> n \<and> n < b}"
  shows "mm_inv (m\<lparr> mapped_locations := AList.update sz es (mapped_locations m), mm_next_buf := b \<rparr>)"
    (is "mm_inv ?t")
proof -
  have pos: "0 < mm_next_buf m" using inv by (simp add: mm_inv_def)
  have old: "0 < me_buf e \<and> me_buf e < mm_next_buf m" if "e \<in> set (entries_of tz m)" for tz e
    using inv that by (auto simp: mm_inv_def)
  have new: "0 < me_buf e \<and> me_buf e < b" if "e \<in> set es" for e
    using es(2) that old b pos by fastforce
  have dj: "me_buf ` set es \<inter> me_buf ` set (entries_of tz m) = {}" if "tz \<noteq> sz" for tz
  proof -
    have "me_buf ` set (entries_of sz m) \<inter> me_buf ` set (entries_of tz m) = {}"
      using inv that by (simp add: mm_inv_def)
    moreover have "{n. mm_next_buf m \<le> n \<and> n < b} \<inter> me_buf ` set (entries_of tz m) = {}"
      using old by fastforce
    ultimately show ?thesis using es(2) by blast
  qed
  have "distinct (map fst (mapped_locations ?t))"
    using inv by (simp add: mm_inv_def distinct_update)
  moreover have "\<forall>tz. \<forall>e\<in>set (entries_of tz ?t). 0 < me_buf e \<and> me_buf e < mm_next_buf ?t"
  proof (intro allI ballI)
    fix tz e assume "e \<in> set (entries_of tz ?t)"
    then show "0 < me_buf e \<and> me_buf e < mm_next_buf ?t"
      using old [of e tz] new [of e] b by (auto split: if_splits)
  qed
  moreover have "\<forall>tz. distinct (map me_buf (entries_of tz ?t))" using inv es(1) by (simp add: mm_inv_def)
  moreover have "\<forall>tz uz. tz \<noteq> uz \<longrightarrow> me_buf ` set (entries_of tz ?t) \<inter> me_buf ` set (entries_of uz ?t) = {}"
    using dj inv by (auto simp: mm_inv_def)
  ultimately show ?thesis using pos b unfolding mm_inv_def by simp
qed

lemma held_split:
  "held m = me_buf ` {e \<in> set (entries_of sz m). me_in_use e} \<union>
     (\<Union>tz\<in>- {sz}. me_buf ` {e \<in> set (entries_of tz m). me_in_use e})"
  unfolding held_def by auto

lemma held_update:
  "held (m\<lparr> mapped_locations := AList.update sz es (mapped_locations m), mm_next_buf := b \<rparr>) =
     me_buf ` {e \<in> set es. me_in_use e} \<union> (\<Union>tz\<in>- {sz}. me_buf ` {e \<in> set (entries_of tz m). me_in_use e})"
  by (subst held_split [of _ sz]) simp

lemma set_split_at: "i < length xs \<Longrightarrow> set xs = insert (xs ! i) (set (take i xs) \<union> set (drop (Suc i) xs))"
  by (metis id_take_nth_drop set_append list.simps(15) Un_insert_right)

lemma set_update_at: "i < length xs \<Longrightarrow> set (xs[i := x]) = insert x (set (take i xs) \<union> set (drop (Suc i) xs))"
  by (simp add: upd_conv_take_nth_drop)

text \<open>Mapping returns a buffer that nobody holds; unmapping it gives back the state of before.\<close>

lemma mm_map_step:
  assumes inv: "mm_inv m" and run: "mm_map env sz m = (a, t)" and ok: "ae_ok a"
  shows "mm_inv t \<and> 0 < ae_ptr a \<and> ae_ptr a \<notin> held m \<and> held t = insert (ae_ptr a) (held m) \<and>
    ae_size a = sz \<and> ae_idx a < length (entries_of sz t) \<and>
    entries_of sz t ! ae_idx a = \<lparr> me_in_use = True, me_buf = ae_ptr a \<rparr>"
proof -
  let ?es = "entries_of sz m" and ?b = "mm_next_buf m"
  have dist: "distinct (map me_buf ?es)" and pos: "0 < ?b"
    and old: "\<And>tz e. e \<in> set (entries_of tz m) \<Longrightarrow> 0 < me_buf e \<and> me_buf e < ?b"
    and dj: "\<And>tz. tz \<noteq> sz \<Longrightarrow> me_buf ` set ?es \<inter> me_buf ` set (entries_of tz m) = {}"
    using inv by (auto simp: mm_inv_def)
  show ?thesis
  proof (cases "find_free ?es")
    case None
    let ?n = "?es @ [\<lparr> me_in_use = True, me_buf = ?b \<rparr>]"
    have r: "a = \<lparr> ae_size = sz, ae_idx = length ?es, ae_ptr = ?b, ae_ok = True \<rparr>"
      "t = m\<lparr> mapped_locations := AList.update sz ?n (mapped_locations m), mm_next_buf := ?b + 1 \<rparr>"
      using run ok None by (auto simp: mm_map_def fe_acquire_def split: if_splits)
    have nb: "?b \<notin> me_buf ` set ?es" using old [of _ sz] by fastforce
    have "mm_inv t" unfolding r(2)
    proof (rule mm_inv_update [OF inv])
      show "distinct (map me_buf ?n)" using dist nb by simp
      show "me_buf ` set ?n \<subseteq> me_buf ` set ?es \<union> {n. ?b \<le> n \<and> n < ?b + 1}" by auto
    qed simp
    moreover have "?b \<notin> held m" using old by (fastforce simp: held_def)
    moreover have "held t = insert ?b (held m)"
    proof -
      have "{e \<in> set ?n. me_in_use e} = insert \<lparr> me_in_use = True, me_buf = ?b \<rparr> {e \<in> set ?es. me_in_use e}" by auto
      then show ?thesis unfolding r(2) held_update held_split [of m sz] by simp
    qed
    ultimately show ?thesis using r pos by simp
  next
    case (Some i)
    note ff = find_free_Some [OF Some]
    let ?e = "?es ! i"
    let ?n = "?es[i := ?e\<lparr> me_in_use := True \<rparr>]"
    have r: "a = \<lparr> ae_size = sz, ae_idx = i, ae_ptr = me_buf ?e, ae_ok = True \<rparr>"
      "t = m\<lparr> mapped_locations := AList.update sz ?n (mapped_locations m), mm_next_buf := ?b \<rparr>"
      using run Some by (auto simp: mm_map_def fe_acquire_def)
    have ein: "?e \<in> set ?es" using ff by simp
    have bufs: "map me_buf ?n = map me_buf ?es" using ff
      by (simp add: map_update) (metis list_update_id nth_map)
    then have bs: "me_buf ` set ?n = me_buf ` set ?es" by (metis image_set)
    have "mm_inv t" unfolding r(2)
      by (rule mm_inv_update [OF inv]) (simp_all only: bufs bs dist order_refl Un_upper1)
    moreover have "me_buf ?e \<notin> held m"
    proof
      assume "me_buf ?e \<in> held m"
      then obtain tz e where e: "e \<in> set (entries_of tz m)" "me_in_use e" "me_buf e = me_buf ?e"
        by (auto simp: held_def)
      then have "tz = sz" using dj [of tz] ein by force
      then have "e = ?e" using e dist ein by (simp add: distinct_map inj_on_def)
      then show False using e(2) ff by simp
    qed
    moreover have "{e \<in> set ?n. me_in_use e} = insert (?e\<lparr> me_in_use := True \<rparr>) {e \<in> set ?es. me_in_use e}"
      using ff by (auto simp: set_update_at set_split_at [of i ?es])
    then have "held t = insert (me_buf ?e) (held m)"
      unfolding r(2) held_update held_split [of m sz] by simp
    ultimately show ?thesis using r ff old [OF ein] by simp
  qed
qed

lemma mm_unmap_step:
  assumes inv: "mm_inv m" and i: "ae_idx a < length (entries_of (ae_size a) m)"
    "entries_of (ae_size a) m ! ae_idx a = \<lparr> me_in_use = True, me_buf = ae_ptr a \<rparr>"
  shows "mm_inv (mm_unmap a m) \<and> held (mm_unmap a m) = held m - {ae_ptr a}"
proof -
  let ?sz = "ae_size a" and ?i = "ae_idx a"
  let ?es = "entries_of ?sz m"
  let ?n = "?es[?i := \<lparr> me_in_use = False, me_buf = ae_ptr a \<rparr>]"
  obtain es where es: "map_of (mapped_locations m) ?sz = Some es" "?es = es"
    using i(1) by (auto simp: entries_of_def split: option.splits)
  have r: "mm_unmap a m = m\<lparr> mapped_locations := AList.update ?sz ?n (mapped_locations m), mm_next_buf := mm_next_buf m \<rparr>"
    using es i by (simp add: mm_unmap_def fe_release_def)
  have dist: "distinct (map me_buf ?es)"
    and dj: "\<And>tz. tz \<noteq> ?sz \<Longrightarrow> me_buf ` set ?es \<inter> me_buf ` set (entries_of tz m) = {}"
    using inv by (auto simp: mm_inv_def)
  have bufs: "map me_buf ?n = map me_buf ?es" using i
    by (simp add: map_update) (metis list_update_id nth_map mapped_entry.select_convs(2))
  then have bs: "me_buf ` set ?n = me_buf ` set ?es" by (metis image_set)
  have I: "mm_inv (mm_unmap a m)" unfolding r
    by (rule mm_inv_update [OF inv]) (simp_all only: bufs bs dist order_refl Un_upper1)
  have H: "me_buf ` {e \<in> set ?n. me_in_use e} = me_buf ` {e \<in> set ?es. me_in_use e} - {ae_ptr a}"
  proof -
    let ?r = "set (take ?i ?es) \<union> set (drop (Suc ?i) ?es)"
    have "ae_ptr a \<notin> me_buf ` ?r"
    proof -
      have "distinct (map me_buf (take ?i ?es) @ ae_ptr a # map me_buf (drop (Suc ?i) ?es))"
        using dist id_take_nth_drop [OF i(1)] i(2)
        by (metis list.simps(9) map_append mapped_entry.select_convs(2))
      then show ?thesis by auto
    qed
    then have nin: "ae_ptr a \<notin> me_buf ` {e \<in> ?r. me_in_use e}" by blast
    have A: "{e \<in> set ?n. me_in_use e} = {e \<in> ?r. me_in_use e}"
      unfolding set_update_at [OF i(1)] by auto
    have B: "{e \<in> set ?es. me_in_use e} = insert \<lparr> me_in_use = True, me_buf = ae_ptr a \<rparr> {e \<in> ?r. me_in_use e}"
      by (subst set_split_at [OF i(1)]) (auto simp: i(2))
    show ?thesis unfolding A B image_insert mapped_entry.select_convs using nin by blast
  qed
  have O: "ae_ptr a \<notin> me_buf ` {e \<in> set (entries_of tz m). me_in_use e}" if "tz \<noteq> ?sz" for tz
  proof -
    have "ae_ptr a \<in> me_buf ` set ?es" using i by (metis image_eqI mapped_entry.select_convs(2) nth_mem)
    then show ?thesis using dj [OF that] by blast
  qed
  have hu: "held (mm_unmap a m) = me_buf ` {e \<in> set ?n. me_in_use e} \<union>
      (\<Union>tz\<in>- {?sz}. me_buf ` {e \<in> set (entries_of tz m). me_in_use e})"
    unfolding r by (rule held_update)
  have "ae_ptr a \<notin> (\<Union>tz\<in>- {?sz}. me_buf ` {e \<in> set (entries_of tz m). me_in_use e})"
    using O by blast
  then show ?thesis
    using I unfolding hu H held_split [of m ?sz] by (simp only: Un_Diff Diff_insert_absorb Diff_triv
        insert_absorb not_False_eq_True) simp
qed

text \<open>Dropping the cache keeps every held buffer but moves it to another index.\<close>

lemma entries_of_drop [simp]: "entries_of sz (snd (mm_drop_cache env m)) = filter me_in_use (entries_of sz m)"
  by (simp add: entries_of_def mm_drop_cache_def fe_unmap_all_def map_of_map split: option.splits)

lemma mm_drop_cache_step:
  assumes "mm_inv m"
  shows "mm_inv (snd (mm_drop_cache env m)) \<and> held (snd (mm_drop_cache env m)) = held m"
proof -
  let ?t = "snd (mm_drop_cache env m)"
  have k: "map fst (mapped_locations ?t) = map fst (mapped_locations m)" "mm_next_buf ?t = mm_next_buf m"
    by (auto simp: mm_drop_cache_def)
  have e: "entries_of tz ?t = filter me_in_use (entries_of tz m)" for tz by simp
  have sub: "set (entries_of tz ?t) \<subseteq> set (entries_of tz m)" for tz unfolding e by auto
  have "mm_inv ?t"
    unfolding mm_inv_def
  proof (intro conjI allI impI)
    fix tz uz :: nat
    show "distinct (map me_buf (entries_of tz ?t))"
      unfolding e using assms by (simp add: mm_inv_def distinct_map_filter)
    show "\<forall>e\<in>set (entries_of tz ?t). 0 < me_buf e \<and> me_buf e < mm_next_buf ?t"
      using assms sub [of tz] k(2) unfolding mm_inv_def by (metis subsetD)
    assume "tz \<noteq> uz"
    then have "me_buf ` set (entries_of tz m) \<inter> me_buf ` set (entries_of uz m) = {}"
      using assms by (simp add: mm_inv_def)
    then show "me_buf ` set (entries_of tz ?t) \<inter> me_buf ` set (entries_of uz ?t) = {}"
      using image_mono [OF sub [of tz], of me_buf] image_mono [OF sub [of uz], of me_buf] by blast
  qed (use assms k in \<open>simp_all add: mm_inv_def\<close>)
  then show ?thesis by (simp add: held_def)
qed

text \<open>
  A client that unmaps after the cache was dropped uses an index that has moved: it releases a
  buffer that another client holds.
\<close>

lemma unmap_after_drop:
  assumes m: "mapped_locations m = [(sz, [f, u, v])]" and u: "\<not> me_in_use f" "me_in_use u" "me_in_use v"
  shows "\<exists>b t. mm_map env sz (mm_unmap \<lparr> ae_size = sz, ae_idx = 1, ae_ptr = me_buf u, ae_ok = True \<rparr>
      (snd (mm_drop_cache env m))) = (b, t) \<and> ae_ok b \<and> ae_ptr b = me_buf v \<and> me_buf v \<in> held m"
proof -
  have d: "mapped_locations (snd (mm_drop_cache env m)) = [(sz, [u, v])]"
    using m u by (simp add: mm_drop_cache_def fe_unmap_all_def)
  have r: "mapped_locations (mm_unmap \<lparr> ae_size = sz, ae_idx = 1, ae_ptr = me_buf u, ae_ok = True \<rparr>
      (snd (mm_drop_cache env m))) = [(sz, [u, v\<lparr> me_in_use := False \<rparr>])]"
    using d u by (simp add: mm_unmap_def fe_release_def)
  have "v \<in> set (entries_of sz m)" using m by (simp add: entries_of_def)
  then have h: "me_buf v \<in> held m" using u(3) by (auto simp: held_def)
  have "entries_of sz (mm_unmap \<lparr> ae_size = sz, ae_idx = 1, ae_ptr = me_buf u, ae_ok = True \<rparr>
      (snd (mm_drop_cache env m))) = [u, v\<lparr> me_in_use := False \<rparr>]" unfolding entries_of_def r by simp
  then show ?thesis using u h unfolding mm_map_def fe_acquire_def by simp
qed

end
