(* ===== verification/Device_Example.thy ===== *)
theory Device_Example
  imports Device_Reach Pool_Example Memory_Mapper
begin

text \<open>
  A device memory of one gigabyte, and the same with one tensor of 300 bytes that has no memory yet.
  The states at which the properties of \<open>device_memory\<close> are applied.
\<close>

definition demo_host :: host where
  "demo_host = \<lparr> hs_env = demo_env\<lparr> de_free_mem := 8589934592 \<rparr>, hs_pool_size_flag = 1,
     hs_strategy = startegy_coalesce_stringent, hs_alignment = 128, hs_device_id = 0, hs_first_host = 1,
     hs_events = event_handle_cache_new 0, hs_attributes = True, hs_synchronize = True,
     hs_copy = (\<lambda>_. True), hs_defragmentation = True, hs_record_stream = True \<rparr>"

definition demo_idle :: dm_threads where
  "demo_idle = \<lparr> recipe_counter = \<lparr> counter_state = 0, total_submitted = 0, total_freed = 0 \<rparr>,
     next_waits = [], next_unlocks = [] \<rparr>"

definition demo_blank :: device_memory where
  "demo_blank = \<lparr> pool_strategy = strategy_none, dm_pool_size = 0, suballoc = None, update_on_defragment = False,
     handle2pointer = HandlesMap_new, critical_section = 0, dm_alignment = 128 \<rparr>"

definition demo_device :: device_memory where
  "demo_device = (case device_memory_new demo_host of Inr d \<Rightarrow> d | Inl _ \<Rightarrow> demo_blank)"

definition demo_tensor :: "64 word \<times> device_memory" where
  "demo_tensor = (case tensor_allocate demo_host True 300 0 demo_idle demo_device of
     Inr (p, w, d) \<Rightarrow> (p, d) | Inl _ \<Rightarrow> (0, demo_blank))"

lemma demo_host_create:
  "create_ok (hs_env demo_host) (hs_alignment demo_host) (hs_first_host demo_host)
     (align64 (hs_alignment demo_host) (mul64 (mul64 (mul64 (hs_pool_size_flag demo_host) 1024) 1024) 1024))
     1073741824 4096"
proof -
  have e: "align64 128 1073741824 = 1073741824" by (simp add: align64_def)
  have "\<exists>e. (128::nat) = 2 ^ e \<and> 7 \<le> e \<and> e \<le> 41" by (rule exI [of _ 7]) simp
  then show ?thesis
    by (simp add: create_ok_def demo_host_def demo_env_def pool_size_def default_pool_size_def mul64_def
        u64_lim_def small_region_def e)
qed

lemma demo_device_facts:
  "device_memory_new demo_host = Inr demo_device" "dm_inv demo_device" "heap_of demo_device = {}"
  "handle2pointer demo_device = HandlesMap_new" "dm_alignment demo_device = 128"
  "\<not> update_on_defragment demo_device" "room_for 300 demo_device"
  "critical_section demo_device = 0"
  "\<exists>v d. workspace_alloc demo_host 0 0 4096 demo_idle demo_device = Inr (v, 4096, demo_idle, d) \<and> v \<noteq> 0"
proof -
  from device_memory_new_step [OF _ _ demo_host_create] obtain d s where
    d: "device_memory_new demo_host = Inr d" "dm_inv d" "heap_of d = {}" "handle2pointer d = HandlesMap_new"
      "dm_alignment d = 128" "\<not> update_on_defragment d" "suballoc d = Some s" "max_pool_size s = 1073741824"
      "\<not> high_memory_allocated s" "\<exists>b e. pool_blocks s = [b, e] \<and> \<not> b_used e \<and> b_size e = 1073741824 - 128 - small_region 128"
      "critical_section d = 0" by (auto simp: demo_host_def small_region_def)
  have e: "demo_device = d" using d(1) by (simp add: demo_device_def)
  then show "device_memory_new demo_host = Inr demo_device" "dm_inv demo_device" "heap_of demo_device = {}"
    "handle2pointer demo_device = HandlesMap_new" "dm_alignment demo_device = 128" "\<not> update_on_defragment demo_device"
    "critical_section demo_device = 0" using d by simp_all
  have a: "align64 128 300 = 384" by (simp add: align64_def)
  from d(10) obtain b f where bf: "pool_blocks s = [b, f]" "\<not> b_used f" "b_size f = 1073741824 - 128 - small_region 128" by blast
  then show "room_for 300 demo_device" unfolding e room_for_def
    by (intro exI [of _ s] exI [of _ f]) (use d a in \<open>simp add: block_align_def fits_def small_region_def\<close>)
  have n: "align64 128 4096 = 4096" by (simp add: align64_def)
  have "good_pool s" using d(2,7) by (auto simp: dm_inv_def)
  then have i: "pool_inv s" by (simp add: good_pool_def)
  from extend_inv [OF i, of 4096 0] d(9) obtain p t where
    t: "extend_high_memory_allocation 4096 0 s = Inr (p, t)" "extend_result 4096 0 s p t" by auto
  have "p \<noteq> 0" using t(2) bf d(8,9) by (auto simp: extend_result_def Let_def ws_start_def small_region_def)
  then show "\<exists>v d. workspace_alloc demo_host 0 0 4096 demo_idle demo_device = Inr (v, 4096, demo_idle, d) \<and> v \<noteq> 0"
    using t(1) d(2,5,7) n unfolding e
    by (auto simp: workspace_alloc_def extend_workspace_def suballocator_of_def block_align_def dm_inv_def)
qed

lemma demo_room: "hm_room (300, 0) HandlesMap_new"
  by (simp add: hm_room_def bucket_for_size HandlesMap_new_def class_bits_def)

definition demo_id :: "64 word" where
  "demo_id = mh_id (decoded (fst demo_tensor))"

lemma demo_tensor_facts:
  "tensor_allocate demo_host True 300 0 demo_idle demo_device = Inr (fst demo_tensor, demo_idle, snd demo_tensor)"
  "dm_inv (snd demo_tensor)" "fst demo_tensor \<noteq> 0"
  "reinterpret_from_pointer (fst demo_tensor) = Inr \<lparr> mh_id = demo_id, mh_offset = 0 \<rparr>"
  "size_at (handle2pointer (snd demo_tensor)) demo_id = 300" "ptr_at (handle2pointer (snd demo_tensor)) demo_id = 0"
  "not_reset (snd demo_tensor) demo_id" "lockable (snd demo_tensor) (fst demo_tensor)" "room_for 300 (snd demo_tensor)"
  "\<not> update_on_defragment (snd demo_tensor)" "critical_section (snd demo_tensor) = 0"
proof -
  have room: "hm_room (of_nat 300, if hs_record_stream demo_host then 0 else 0) (handle2pointer demo_device)"
    using demo_room demo_device_facts(4) by simp
  from tensor_allocate_step [OF demo_device_facts(2) _ _ room, of demo_idle] obtain p i d where
    d: "tensor_allocate demo_host True 300 0 demo_idle demo_device = Inr (p, demo_idle, d)" "dm_inv d" "p \<noteq> 0"
      "reinterpret_from_pointer p = Inr \<lparr> mh_id = i, mh_offset = 0 \<rparr>" "size_at (handle2pointer d) i = 300"
      "ptr_at (handle2pointer d) i = 0" "not_reset d i" "lockable d p" "suballoc d = suballoc demo_device"
      "dm_alignment d = dm_alignment demo_device" "update_on_defragment d = update_on_defragment demo_device"
      "critical_section d = critical_section demo_device" by auto
  have e: "demo_tensor = (p, d)" using d(1) by (simp add: demo_tensor_def)
  have i: "demo_id = i" using d(4) by (simp add: demo_id_def decoded_def e)
  have r: "room_for 300 d" using demo_device_facts(7) d(9,10) by (simp add: room_for_def block_align_def)
  have u: "\<not> update_on_defragment d" using d(11) demo_device_facts(6) by simp
  show "tensor_allocate demo_host True 300 0 demo_idle demo_device = Inr (fst demo_tensor, demo_idle, snd demo_tensor)"
    "dm_inv (snd demo_tensor)" "fst demo_tensor \<noteq> 0"
    "reinterpret_from_pointer (fst demo_tensor) = Inr \<lparr> mh_id = demo_id, mh_offset = 0 \<rparr>"
    "size_at (handle2pointer (snd demo_tensor)) demo_id = 300" "ptr_at (handle2pointer (snd demo_tensor)) demo_id = 0"
    "not_reset (snd demo_tensor) demo_id" "lockable (snd demo_tensor) (fst demo_tensor)" "room_for 300 (snd demo_tensor)"
    "\<not> update_on_defragment (snd demo_tensor)" "critical_section (snd demo_tensor) = 0"
    using d(1-8,12) r u demo_device_facts(8) unfolding e i by simp_all
qed

lemma demo_tensor_id:
  "decoded (fst demo_tensor) = \<lparr> mh_id = demo_id, mh_offset = 0 \<rparr>" "sized (snd demo_tensor) demo_id" "is_valid demo_id"
proof -
  show "decoded (fst demo_tensor) = \<lparr> mh_id = demo_id, mh_offset = 0 \<rparr>" using demo_tensor_facts(4) by (simp add: decoded_def)
  show s: "sized (snd demo_tensor) demo_id" using demo_tensor_facts(5) by (simp add: sized_def)
  obtain r where "hm_lookup (handle2pointer (snd demo_tensor)) demo_id = Some r" by (rule sized_lookup [OF s])
  then show "is_valid demo_id" using lookup_valid demo_tensor_facts(2) by (auto simp: dm_inv_def table_ok_def)
qed

lemma demo_polite: "polite I demo_idle" "drains demo_idle" "get_count demo_idle = 0"
  by (simp_all add: polite_def demo_idle_def drains_def get_count_def)

text \<open>The tensor gets its memory when it is locked.\<close>

definition demo_loaded :: device_memory where
  "demo_loaded = (case lock_addresses demo_host [fst demo_tensor] demo_idle (snd demo_tensor) of
     Inr (out, w, d) \<Rightarrow> d | Inl _ \<Rightarrow> demo_blank)"

lemma demo_reach_device:
  "device_reach demo_host demo_device" "device_reach demo_host (snd demo_tensor)"
proof -
  show d: "device_reach demo_host demo_device"
    by (rule device_reach.New [OF _ demo_host_create _ _ demo_device_facts(1)]) (simp_all add: demo_host_def)
  have "hs_record_stream demo_host" by (simp add: demo_host_def)
  then have m: "dm_malloc_stream (hs_env demo_host) 300 0 demo_device = Inr (True, fst demo_tensor, snd demo_tensor)"
    using demo_tensor_facts(1,3) by (auto simp: tensor_allocate_def tensor_malloc_def waitTillRecipeExecution_def
        arc_is_zero_def demo_idle_def bindR_eq_Inr split: if_splits)
  have "hm_room (300, 0) (handle2pointer demo_device)" using demo_room demo_device_facts(4) by simp
  from device_step.Malloc [OF this m] show "device_reach demo_host (snd demo_tensor)" by (rule device_reach.Step [OF d])
qed

lemma demo_lock:
  "\<exists>q. lock_addresses demo_host [fst demo_tensor] demo_idle (snd demo_tensor) = Inr ([q], demo_idle, demo_loaded)"
  "device_reach demo_host demo_loaded" "size_at (handle2pointer demo_loaded) demo_id = 300"
  "ptr_at (handle2pointer demo_loaded) demo_id \<noteq> 0" "not_reset demo_loaded demo_id" "critical_section demo_loaded = 1"
proof -
  let ?d = "snd demo_tensor" and ?as = "[fst demo_tensor]"
  note t = demo_tensor_facts
  have l: "\<forall>a\<in>set ?as. lockable ?d a" using t(8) by simp
  obtain q e where e: "lock_addresses demo_host ?as demo_idle ?d = Inr ([q], demo_idle, e)"
    and f: "not_reset e demo_id" "critical_section e = 1"
    using lock_one_fits [OF t(2,4), of demo_idle demo_host] demo_tensor_id(2) demo_polite(3) t(5,6,7,9,10,11) by auto
  have d: "demo_loaded = e" using e by (simp add: demo_loaded_def)
  then show "\<exists>q. lock_addresses demo_host ?as demo_idle ?d = Inr ([q], demo_idle, demo_loaded)" using e by simp
  show "not_reset demo_loaded demo_id" "critical_section demo_loaded = 1" using f d by simp_all
  show "device_reach demo_host demo_loaded" unfolding d
    by (rule device_reach.Step [OF demo_reach_device(2) device_step.Lock [OF demo_polite(1) l e]])
  from lock_addresses_step [OF device_reach_inv [OF demo_reach_device(2)] demo_polite(1) l, of demo_host] e d
  show "size_at (handle2pointer demo_loaded) demo_id = 300" "ptr_at (handle2pointer demo_loaded) demo_id \<noteq> 0"
    using demo_tensor_id t(5) by (auto simp: ids_of_def resolved_def)
qed

text \<open>A map of the memory for the defragmenter, and a host for the cache of pinned buffers.\<close>

definition demo_map :: "memory_block list" where
  "demo_map = [free_mem 0 100, \<lparr> mb_state = IN_USE, mb_handle = 3, mb_ptr = 100, mb_size = 40, mb_actual_size = 50,
     mb_stream = 0 \<rparr>, free_mem 150 100]"

lemma demo_map_facts:
  "in_order demo_map" "candidate demo_map 150 0 250 0 3" "mtiles 0 demo_map 250"
proof -
  show t: "mtiles 0 demo_map 250" by (simp add: demo_map_def free_mem_def)
  then show "in_order demo_map" by (rule mtiles_in_order)
  show "candidate demo_map 150 0 250 0 3"
    by (auto simp: candidate_def movable_at_def free_sum_def free_at_def demo_map_def free_mem_def numeral_3_eq_3
        less_Suc_eq sum.atLeast_Suc_lessThan)
qed

definition demo_host_env :: host_env where
  "demo_host_env = \<lparr> he_map = (\<lambda>n b. True), he_unmap = (\<lambda>b. True) \<rparr>"

end
