(* ===== verification/Stream_Events.thy ===== *)
theory Stream_Events
  imports Event_Cache
begin

text \<open>
  Events and streams (\<open>event.h\<close>, \<open>event.cpp\<close>, \<open>stream_event_manager.h\<close>,
  \<open>stream_event_manager.cpp\<close>, \<open>stream.h\<close>, \<open>stream.cpp\<close> and the forwarding functions of
  \<open>device.cpp\<close>). An event says when the work that writes some device addresses is over. The
  manager keeps, for each address and for each name, the event of the last writer; a stream that
  reads the address is made to wait for it. Each stream has a thread that waits for its events in
  the order of registration and then takes them out of the tables, runs the callback and gives
  the handle back.

  An event is named by its index in the list of all events ever made (the \<open>shared_ptr\<close> of the
  code), a stream by its index in the list of streams, which also stands for its handle. A future
  is a number, 0 for one without a state.
\<close>

section \<open>State\<close>

record syn_env =
  se_dev :: dev_env
  se_stream_wait :: "nat \<Rightarrow> nat \<Rightarrow> bool"
  se_map_tensor :: "nat \<Rightarrow> nat \<Rightarrow> bool"
  se_ready :: "nat \<Rightarrow> bool"

datatype syn_call = EventRecord nat nat | StreamWaitEvent nat nat | EventMapTensor nat nat

record event =
  ev_handle :: nat
  ev_done :: bool
  ev_cb :: bool
  ev_ptrs :: "nat list"
  ev_ids :: "string list"
  ev_stream :: nat
  ev_partial :: bool

text \<open>
  The thread of a stream is \<open>Running\<close> while it works on the front of the queue, \<open>Waiting\<close> after
  it has popped it, and \<open>Ended\<close> once it has found the empty pointer that stops it.
\<close>

datatype gc_phase = Running | Waiting | Ended

record stream_state =
  pending_cleanups :: "nat option list"
  partial_events :: "nat list"
  gc_phase :: gc_phase

text \<open>
  The manager, with the streams, the cache of handles, the calls made to the Synapse library
  (newest first) and the events whose callback has run (newest first).
\<close>

record sem =
  sm_events :: "event list"
  events_by_addr :: "(nat \<times> nat) list"
  events_by_str :: "(string \<times> nat) list"
  future_by_addr :: "(nat \<times> nat) list"
  sm_streams :: "stream_state list"
  sm_cache :: event_cache
  sm_calls :: "syn_call list"
  sm_called :: "nat list"

definition sem_new :: "nat \<Rightarrow> sem" where
  "sem_new flag = \<lparr> sm_events = [], events_by_addr = [], events_by_str = [], future_by_addr = [],
     sm_streams = [], sm_cache = event_handle_cache_new flag, sm_calls = [], sm_called = [] \<rparr>"

abbreviation the_event :: "sem \<Rightarrow> nat \<Rightarrow> event" where
  "the_event s e \<equiv> sm_events s ! e"

definition upd_event :: "nat \<Rightarrow> (event \<Rightarrow> event) \<Rightarrow> sem \<Rightarrow> sem" where
  "upd_event e f s = s\<lparr> sm_events := (sm_events s)[e := f (the_event s e)] \<rparr>"

definition upd_stream :: "nat \<Rightarrow> (stream_state \<Rightarrow> stream_state) \<Rightarrow> sem \<Rightarrow> sem" where
  "upd_stream st f s = s\<lparr> sm_streams := (sm_streams s)[st := f (sm_streams s ! st)] \<rparr>"

definition emplace :: "'k \<Rightarrow> 'v \<Rightarrow> ('k \<times> 'v) list \<Rightarrow> ('k \<times> 'v) list" where
  "emplace k v m = (case map_of m k of None \<Rightarrow> (k, v) # m | Some _ \<Rightarrow> m)"

section \<open>Events\<close>

definition event_new :: "syn_env \<Rightarrow> nat \<Rightarrow> nat list \<Rightarrow> string \<Rightarrow> bool \<Rightarrow> sem \<Rightarrow> (nat \<times> sem) res" where
  "event_new env st ptrs event_id cb s =
     bindR (get_free_handle (se_dev env) (sm_cache s)) (\<lambda>(h, c).
       Inr (length (sm_events s),
            s\<lparr> sm_cache := c,
               sm_events := sm_events s @ [\<lparr> ev_handle = h, ev_done = False, ev_cb = cb, ev_ptrs = ptrs,
                 ev_ids = (if event_id \<noteq> [] then [event_id] else []), ev_stream = st,
                 ev_partial = False \<rparr>] \<rparr>))"

definition event_synchronize :: "syn_env \<Rightarrow> nat \<Rightarrow> sem \<Rightarrow> unit res" where
  "event_synchronize env e s =
     (if ev_done (the_event s e) then Inl Fatal
      else if \<not> ev_partial (the_event s e) \<and> \<not> de_event_sync (se_dev env) (ev_handle (the_event s e)) then Inl Fatal
      else Inr ())"

definition event_complete :: "nat \<Rightarrow> sem \<Rightarrow> sem res" where
  "event_complete e s =
     (let ev = the_event s e in
      if ev_done ev then Inl Fatal
      else
        (let s = s\<lparr> sm_called := (if ev_cb ev then e # sm_called s else sm_called s) \<rparr>;
             done = (\<lambda>ev. ev\<lparr> ev_done := True, ev_handle := 0, ev_cb := False \<rparr>) in
         if ev_handle ev \<noteq> 0 then
           bindR (release_handle (ev_handle ev) (sm_cache s)) (\<lambda>c.
             Inr (upd_event e done (s\<lparr> sm_cache := c \<rparr>)))
         else Inr (upd_event e done s)))"

definition stream_wait_event :: "syn_env \<Rightarrow> nat \<Rightarrow> nat \<Rightarrow> sem \<Rightarrow> sem res" where
  "stream_wait_event env st e s =
     (if ev_done (the_event s e) \<or> st = ev_stream (the_event s e) then Inr s
      else if se_stream_wait env st (ev_handle (the_event s e)) then
        Inr (s\<lparr> sm_calls := StreamWaitEvent st (ev_handle (the_event s e)) # sm_calls s \<rparr>)
      else Inl Fatal)"

text \<open>\<open>event::wait\<close>: another thread has to complete the event.\<close>

definition event_wait :: "nat \<Rightarrow> sem \<Rightarrow> unit res" where
  "event_wait e s = (if ev_done (the_event s e) then Inr () else Inl Would_block)"

text \<open>The destructor: fatal for an event that is not done, unless it is a partial one.\<close>

definition event_destroy :: "nat \<Rightarrow> sem \<Rightarrow> sem res" where
  "event_destroy e s =
     (if \<not> ev_done (the_event s e) \<and> \<not> ev_partial (the_event s e) then Inl Fatal
      else if ev_handle (the_event s e) \<noteq> 0 then
        bindR (release_handle (ev_handle (the_event s e)) (sm_cache s)) (\<lambda>c. Inr (s\<lparr> sm_cache := c \<rparr>))
      else Inr s)"

definition remove_device_ptr :: "nat \<Rightarrow> nat \<Rightarrow> sem \<Rightarrow> sem" where
  "remove_device_ptr e p s = upd_event e (\<lambda>ev. ev\<lparr> ev_ptrs := filter (\<lambda>q. q \<noteq> p) (ev_ptrs ev) \<rparr>) s"

definition push_id :: "nat \<Rightarrow> string \<Rightarrow> sem \<Rightarrow> sem" where
  "push_id e i s = upd_event e (\<lambda>ev. ev\<lparr> ev_ids := ev_ids ev @ [i] \<rparr>) s"

section \<open>Streams\<close>

text \<open>The constructor pushes an empty pointer, which the thread pops before it waits.\<close>

definition stream_new :: "sem \<Rightarrow> sem" where
  "stream_new s = s\<lparr> sm_streams := sm_streams s @
     [\<lparr> pending_cleanups = [None], partial_events = [], gc_phase = Running \<rparr>] \<rparr>"

definition push_pending :: "nat option \<Rightarrow> stream_state \<Rightarrow> stream_state" where
  "push_pending x st = st\<lparr> pending_cleanups := pending_cleanups st @ [x] \<rparr>"

definition register_pending_event :: "syn_env \<Rightarrow> nat \<Rightarrow> nat \<Rightarrow> bool \<Rightarrow> sem \<Rightarrow> sem res" where
  "register_pending_event env st e record_event s =
     (let h = ev_handle (the_event s e) in
      if record_event then
        (if de_event_record (se_dev env) h st then
           Inr (upd_stream st (push_pending (Some e)) (s\<lparr> sm_calls := EventRecord h st # sm_calls s \<rparr>))
         else Inl Fatal)
      else Inr (upd_stream st (push_pending (Some e)) s))"

text \<open>The destructor of a stream pushes the empty pointer and waits for the thread to end.\<close>

definition stream_stop :: "nat \<Rightarrow> sem \<Rightarrow> sem" where
  "stream_stop st s = upd_stream st (push_pending None) s"

definition stream_flushed :: "nat \<Rightarrow> sem \<Rightarrow> bool" where
  "stream_flushed st s = (pending_cleanups (sm_streams s ! st) = [])"

section \<open>The manager\<close>

text \<open>The last writer of an address gives way to the new one.\<close>

definition detach_address :: "nat \<Rightarrow> sem \<Rightarrow> sem" where
  "detach_address p s =
     (case map_of (events_by_addr s) p of
        None \<Rightarrow> s
      | Some e \<Rightarrow> (remove_device_ptr e p s)\<lparr> events_by_addr := AList.delete p (events_by_addr s) \<rparr>)"

fun bind_addresses :: "nat \<Rightarrow> nat list \<Rightarrow> sem \<Rightarrow> sem" where
  "bind_addresses e [] s = s"
| "bind_addresses e (p # ps) s =
     bind_addresses e ps
       ((detach_address p s)\<lparr> events_by_addr := emplace p e (events_by_addr (detach_address p s)) \<rparr>)"

text \<open>
  What \<open>add_producer\<close> does with the lock held, and then without it. The loop runs over the
  addresses of the event itself: when one of them is bound to this very event already, it is
  erased from the vector the loop runs over.
\<close>

definition publish_event :: "string \<Rightarrow> nat \<Rightarrow> sem \<Rightarrow> sem res" where
  "publish_event event_id e s =
     (if \<exists>p\<in>set (ev_ptrs (the_event s e)). map_of (events_by_addr s) p = Some e then Inl Undefined
      else
        (let s = bind_addresses e (ev_ptrs (the_event s e)) s in
         if map_of (events_by_str s) event_id \<noteq> None then Inl Fatal
         else Inr (s\<lparr> events_by_str := (if event_id \<noteq> [] then emplace event_id e (events_by_str s)
                                       else events_by_str s) \<rparr>)))"

definition add_producer_event :: "syn_env \<Rightarrow> string \<Rightarrow> nat \<Rightarrow> nat \<Rightarrow> sem \<Rightarrow> sem res" where
  "add_producer_event env event_id st e s =
     bindR (publish_event event_id e s) (\<lambda>s. register_pending_event env st e True s)"

definition add_producer :: "syn_env \<Rightarrow> nat list \<Rightarrow> string \<Rightarrow> nat \<Rightarrow> bool \<Rightarrow> sem \<Rightarrow> (nat \<times> sem) res" where
  "add_producer env device_addresses event_id st cb s =
     (let ps = remdups_adj (sort device_addresses) in
      bindR (event_new env st ps event_id cb s) (\<lambda>(e, s).
        bindR (add_producer_event env event_id st e s) (\<lambda>s. Inr (e, s))))"

text \<open>The overload for an event that is mapped already.\<close>

definition add_mapped_producer :: "syn_env \<Rightarrow> nat \<Rightarrow> nat \<Rightarrow> sem \<Rightarrow> sem res" where
  "add_mapped_producer env st e s =
     (if \<exists>p\<in>set (ev_ptrs (the_event s e)). map_of (events_by_addr s) p \<noteq> Some e then Inl Fatal
      else register_pending_event env st e False s)"

definition add_event_id :: "string \<Rightarrow> string \<Rightarrow> sem \<Rightarrow> sem" where
  "add_event_id event_id new_id s =
     (case map_of (events_by_str s) event_id of
        None \<Rightarrow> s
      | Some e \<Rightarrow> (push_id e new_id s)\<lparr> events_by_str := emplace new_id e (events_by_str s) \<rparr>)"

definition sem_map_event_to_tensor :: "syn_env \<Rightarrow> nat \<Rightarrow> nat \<Rightarrow> bool \<Rightarrow> sem \<Rightarrow> (nat \<times> sem) res" where
  "sem_map_event_to_tensor env st addr cb s =
     bindR (event_new env st [addr] [] cb (detach_address addr s)) (\<lambda>(e, s).
       if se_map_tensor env (ev_handle (the_event s e)) addr then
         (let s = upd_event e (\<lambda>ev. ev\<lparr> ev_partial := True \<rparr>)
                    (s\<lparr> sm_calls := EventMapTensor (ev_handle (the_event s e)) addr # sm_calls s \<rparr>) in
          Inr (e, s\<lparr> events_by_addr := emplace addr e (events_by_addr s) \<rparr>))
       else Inl Fatal)"

text \<open>The loops of \<open>synchronize_event\<close> over the addresses and over the names of the event.\<close>

fun unmap_keys :: "'k list \<Rightarrow> nat \<Rightarrow> ('k \<times> nat) list \<Rightarrow> ('k \<times> nat) list res" where
  "unmap_keys [] e m = Inr m"
| "unmap_keys (k # ks) e m =
     (if map_of m k = Some e then unmap_keys ks e (AList.delete k m) else Inl Fatal)"

definition synchronize_event :: "syn_env \<Rightarrow> nat \<Rightarrow> sem \<Rightarrow> sem res" where
  "synchronize_event env e s =
     bindR (event_synchronize env e s) (\<lambda>_.
     bindR (unmap_keys (ev_ptrs (the_event s e)) e (events_by_addr s)) (\<lambda>addrs.
     bindR (unmap_keys (ev_ids (the_event s e)) e (events_by_str s)) (\<lambda>ids.
       event_complete e (s\<lparr> events_by_addr := addrs, events_by_str := ids \<rparr>))))"

definition is_flushed :: "sem \<Rightarrow> bool" where
  "is_flushed s = (events_by_addr s = [] \<and> events_by_str s = [])"

definition get_event :: "nat \<Rightarrow> sem \<Rightarrow> nat option" where
  "get_event p s = map_of (events_by_addr s) p"

section \<open>Futures\<close>

definition add_future :: "syn_env \<Rightarrow> nat \<Rightarrow> nat \<Rightarrow> sem \<Rightarrow> sem res" where
  "add_future env addr fut s =
     bindR (case map_of (future_by_addr s) addr of
              None \<Rightarrow> Inr ()
            | Some f \<Rightarrow> assertR (f \<noteq> 0) (if se_ready env f then Inr () else Inl Would_block)) (\<lambda>_.
       Inr (s\<lparr> future_by_addr := AList.update addr fut (future_by_addr s) \<rparr>))"

text \<open>\<open>wait_for_future\<close> looks the future up, waits without the lock, and then erases the address.\<close>

definition future_lookup :: "syn_env \<Rightarrow> nat \<Rightarrow> sem \<Rightarrow> bool res" where
  "future_lookup env addr s =
     (case map_of (future_by_addr s) addr of
        None \<Rightarrow> Inr False
      | Some f \<Rightarrow> assertR (f \<noteq> 0) (if se_ready env f then Inr True else Inl Would_block))"

definition future_erase :: "nat \<Rightarrow> sem \<Rightarrow> sem" where
  "future_erase addr s = s\<lparr> future_by_addr := AList.delete addr (future_by_addr s) \<rparr>"

definition wait_for_future :: "syn_env \<Rightarrow> nat \<Rightarrow> sem \<Rightarrow> sem res" where
  "wait_for_future env addr s =
     bindR (future_lookup env addr s) (\<lambda>found. Inr (if found then future_erase addr s else s))"

fun wait_for_futures :: "syn_env \<Rightarrow> nat list \<Rightarrow> sem \<Rightarrow> sem res" where
  "wait_for_futures env [] s = Inr s"
| "wait_for_futures env (p # ps) s = bindR (wait_for_future env p s) (wait_for_futures env ps)"

definition wait_for_all_futures :: "syn_env \<Rightarrow> sem \<Rightarrow> sem res" where
  "wait_for_all_futures env s = wait_for_futures env (map fst (future_by_addr s)) s"

section \<open>Waiting for a producer\<close>

definition enqueue_wait_event :: "syn_env \<Rightarrow> nat \<Rightarrow> nat \<Rightarrow> sem \<Rightarrow> sem res" where
  "enqueue_wait_event env addr st s =
     bindR (wait_for_future env addr s) (\<lambda>s.
       case map_of (events_by_addr s) addr of
         None \<Rightarrow> Inr s
       | Some e \<Rightarrow> stream_wait_event env st e s)"

definition enqueue_wait_id :: "syn_env \<Rightarrow> string \<Rightarrow> nat \<Rightarrow> sem \<Rightarrow> sem res" where
  "enqueue_wait_id env event_id st s =
     (case map_of (events_by_str s) event_id of
        None \<Rightarrow> Inr s
      | Some e \<Rightarrow> stream_wait_event env st e s)"

definition get_wait_event :: "syn_env \<Rightarrow> nat \<Rightarrow> sem \<Rightarrow> (nat option \<times> sem) res" where
  "get_wait_event env addr s =
     bindR (wait_for_future env addr s) (\<lambda>s. Inr (map_of (events_by_addr s) addr, s))"

definition wait_until_address_ready :: "syn_env \<Rightarrow> nat \<Rightarrow> sem \<Rightarrow> sem res" where
  "wait_until_address_ready env addr s =
     bindR (wait_for_future env addr s) (\<lambda>s.
       case map_of (events_by_addr s) addr of
         None \<Rightarrow> Inr s
       | Some e \<Rightarrow> bindR (event_wait e s) (\<lambda>_. Inr s))"

definition wait_until_event_ready :: "string \<Rightarrow> sem \<Rightarrow> unit res" where
  "wait_until_event_ready event_id s =
     (case map_of (events_by_str s) event_id of
        None \<Rightarrow> Inr ()
      | Some e \<Rightarrow> event_wait e s)"

section \<open>The functions of the device\<close>

fun add_wait_events_on_stream :: "syn_env \<Rightarrow> nat list \<Rightarrow> nat \<Rightarrow> sem \<Rightarrow> sem res" where
  "add_wait_events_on_stream env [] st s = Inr s"
| "add_wait_events_on_stream env (p # ps) st s =
     bindR (enqueue_wait_event env p st s) (add_wait_events_on_stream env ps st)"

fun get_wait_events_on_stream :: "syn_env \<Rightarrow> nat list \<Rightarrow> sem \<Rightarrow> (nat list \<times> sem) res" where
  "get_wait_events_on_stream env [] s = Inr ([], s)"
| "get_wait_events_on_stream env (p # ps) s =
     bindR (get_wait_event env p s) (\<lambda>(x, s).
     bindR (get_wait_events_on_stream env ps s) (\<lambda>(es, s).
       Inr (case x of None \<Rightarrow> es | Some e \<Rightarrow> e # es, s)))"

definition register_mapped_producer :: "syn_env \<Rightarrow> nat \<Rightarrow> nat \<Rightarrow> sem \<Rightarrow> sem res" where
  "register_mapped_producer env st e s =
     (if \<not> ev_partial (the_event s e) then Inl Fatal else add_mapped_producer env st e s)"

definition record_and_wait_for_event :: "syn_env \<Rightarrow> nat \<Rightarrow> nat \<Rightarrow> bool \<Rightarrow> sem \<Rightarrow> (nat \<times> sem) res" where
  "record_and_wait_for_event env rec_stream other_stream cb s =
     bindR (event_new env rec_stream [] [] cb s) (\<lambda>(e, s).
     bindR (register_pending_event env rec_stream e True s) (\<lambda>s.
     bindR (stream_wait_event env other_stream e s) (\<lambda>s. Inr (e, s))))"

section \<open>The thread of a stream\<close>

definition gc_pop :: "nat \<Rightarrow> sem \<Rightarrow> sem res" where
  "gc_pop st s =
     (if pending_cleanups (sm_streams s ! st) = [] then Inl Undefined
      else Inr (upd_stream st (\<lambda>x. x\<lparr> pending_cleanups := tl (pending_cleanups x), gc_phase := Waiting \<rparr>) s))"

fun synchronize_events :: "syn_env \<Rightarrow> nat list \<Rightarrow> sem \<Rightarrow> sem res" where
  "synchronize_events env [] s = Inr s"
| "synchronize_events env (e # es) s = bindR (synchronize_event env e s) (synchronize_events env es)"

definition gc_take :: "syn_env \<Rightarrow> nat \<Rightarrow> sem \<Rightarrow> sem res" where
  "gc_take env st s =
     (case pending_cleanups (sm_streams s ! st) of
        [] \<Rightarrow> Inl Would_block
      | None # _ \<Rightarrow> Inr (upd_stream st (\<lambda>x. x\<lparr> gc_phase := Ended \<rparr>) s)
      | Some e # _ \<Rightarrow>
          (if ev_partial (the_event s e) then
             Inr (upd_stream st (\<lambda>x. x\<lparr> partial_events := partial_events x @ [e], gc_phase := Running \<rparr>) s)
           else
             bindR (synchronize_events env (e # partial_events (sm_streams s ! st)) s) (\<lambda>s.
               Inr (upd_stream st (\<lambda>x. x\<lparr> partial_events := [], gc_phase := Running \<rparr>) s))))"

text \<open>\<open>n\<close> rounds of the loop, from popping to popping, without other threads.\<close>

fun gc_rounds :: "syn_env \<Rightarrow> nat \<Rightarrow> nat \<Rightarrow> sem \<Rightarrow> sem res" where
  "gc_rounds env st 0 s = Inr s"
| "gc_rounds env st (Suc n) s =
     bindR (gc_pop st s) (\<lambda>s. bindR (gc_take env st s) (gc_rounds env st n))"

end
