(* ===== verification/Stream_Inv.thy ===== *)
theory Stream_Inv
  imports Stream_Events
begin

text \<open>
  The invariant of the manager of events: the two tables list exactly the addresses and names of
  the events that are not done, the queues of the threads hold every such event once, on its own
  stream, and the handles in use are different. Every operation keeps it.
\<close>

section \<open>The law of the library\<close>

text \<open>\<open>synEventCreate\<close> returns a handle that is not null and new.\<close>

definition creates_fresh :: "syn_env \<Rightarrow> bool" where
  "creates_fresh env \<longleftrightarrow> (\<forall>n h. de_event_create (se_dev env) n = Some h \<longrightarrow>
     h \<noteq> 0 \<and> (\<forall>m. de_event_create (se_dev env) m = Some h \<longrightarrow> m = n))"

section \<open>The invariant\<close>

definition pending :: "sem \<Rightarrow> nat \<Rightarrow> bool" where
  "pending s e \<longleftrightarrow> e < length (sm_events s) \<and> \<not> ev_done (the_event s e)"

text \<open>The last writer of an address and the event of a name.\<close>

definition producer :: "sem \<Rightarrow> nat \<Rightarrow> nat option" where
  "producer s = map_of (events_by_addr s)"

definition named :: "sem \<Rightarrow> string \<Rightarrow> nat option" where
  "named s = map_of (events_by_str s)"

definition tables_ok :: "sem \<Rightarrow> bool" where
  "tables_ok s \<longleftrightarrow> distinct (map fst (events_by_addr s)) \<and> distinct (map fst (events_by_str s)) \<and>
     (\<forall>p e. producer s p = Some e \<longleftrightarrow> pending s e \<and> p \<in> set (ev_ptrs (the_event s e))) \<and>
     (\<forall>i e. named s i = Some e \<longleftrightarrow> pending s e \<and> i \<in> set (ev_ids (the_event s e))) \<and>
     named s [] = None \<and>
     (\<forall>e. pending s e \<longrightarrow> distinct (ev_ptrs (the_event s e)) \<and> distinct (ev_ids (the_event s e)))"

definition gc_queue :: "stream_state \<Rightarrow> nat list" where
  "gc_queue st = partial_events st @ map the (filter (\<lambda>x. x \<noteq> None)
     (if gc_phase st = Running then tl (pending_cleanups st) else pending_cleanups st))"

text \<open>
  The queues are given as a function of the stream, so that the invariant can also be stated in
  the middle of a step. \<open>fresh\<close> is an event that is not registered yet.
\<close>

definition queues_ok :: "sem \<Rightarrow> (nat \<Rightarrow> nat list) \<Rightarrow> nat set \<Rightarrow> bool" where
  "queues_ok s Q fresh \<longleftrightarrow>
     (\<forall>st. distinct (Q st)) \<and>
     (\<forall>st e. e \<in> set (Q st) \<longrightarrow> pending s e \<and> ev_stream (the_event s e) = st \<and> e \<notin> fresh) \<and>
     (\<forall>e. pending s e \<and> \<not> ev_partial (the_event s e) \<and> e \<notin> fresh \<longrightarrow> e \<in> set (Q (ev_stream (the_event s e))))"

definition created :: "syn_env \<Rightarrow> event_cache \<Rightarrow> nat \<Rightarrow> bool" where
  "created env c h \<longleftrightarrow> (\<exists>n<ec_events_count c. de_event_create (se_dev env) n = Some h)"

definition handles_ok :: "syn_env \<Rightarrow> sem \<Rightarrow> bool" where
  "handles_ok env s \<longleftrightarrow> distinct (ec_free_handles (sm_cache s)) \<and>
     (\<forall>h\<in>set (ec_free_handles (sm_cache s)). created env (sm_cache s) h) \<and>
     (\<forall>e. pending s e \<longrightarrow> ev_handle (the_event s e) \<notin> set (ec_free_handles (sm_cache s)) \<and>
       created env (sm_cache s) (ev_handle (the_event s e))) \<and>
     (\<forall>e f. pending s e \<longrightarrow> pending s f \<longrightarrow> ev_handle (the_event s e) = ev_handle (the_event s f) \<longrightarrow> e = f)"

fun recorded_on :: "nat \<Rightarrow> syn_call list \<Rightarrow> nat option" where
  "recorded_on h [] = None"
| "recorded_on h (EventRecord g st # cs) = (if g = h then Some st else recorded_on h cs)"
| "recorded_on h (_ # cs) = recorded_on h cs"

definition calls_ok :: "sem \<Rightarrow> nat set \<Rightarrow> bool" where
  "calls_ok s fresh \<longleftrightarrow> distinct (sm_called s) \<and>
     (\<forall>e\<in>set (sm_called s). e < length (sm_events s) \<and> ev_done (the_event s e)) \<and>
     (\<forall>e. pending s e \<and> \<not> ev_partial (the_event s e) \<and> e \<notin> fresh \<longrightarrow>
       recorded_on (ev_handle (the_event s e)) (sm_calls s) = Some (ev_stream (the_event s e)))"

definition sem_core :: "syn_env \<Rightarrow> sem \<Rightarrow> (nat \<Rightarrow> nat list) \<Rightarrow> nat set \<Rightarrow> bool" where
  "sem_core env s Q fresh \<longleftrightarrow> creates_fresh env \<and> tables_ok s \<and> queues_ok s Q fresh \<and> handles_ok env s \<and> calls_ok s fresh"

text \<open>The queue of a stream; there is none for the index of no stream.\<close>

definition queue_of :: "sem \<Rightarrow> nat \<Rightarrow> nat list" where
  "queue_of s st = (if st < length (sm_streams s) then gc_queue (sm_streams s ! st) else [])"

definition streams_ok :: "sem \<Rightarrow> bool" where
  "streams_ok s \<longleftrightarrow> (\<forall>st\<in>set (sm_streams s).
     (gc_phase st \<noteq> Waiting \<longrightarrow> pending_cleanups st \<noteq> []) \<and>
     (\<forall>e\<in>set (partial_events st). ev_partial (the_event s e)))"

definition sem_inv :: "syn_env \<Rightarrow> sem \<Rightarrow> bool" where
  "sem_inv env s \<longleftrightarrow> sem_core env s (queue_of s) {} \<and> streams_ok s"

lemma sem_inv_new: "creates_fresh env \<Longrightarrow> sem_inv env (sem_new flag)"
  by (simp add: sem_inv_def sem_core_def sem_new_def tables_ok_def queues_ok_def handles_ok_def calls_ok_def
      streams_ok_def pending_def producer_def named_def queue_of_def event_handle_cache_new_def)

lemma tables_okD:
  assumes "tables_ok s"
  shows "producer s p = Some e \<longleftrightarrow> pending s e \<and> p \<in> set (ev_ptrs (the_event s e))"
    "named s i = Some e \<longleftrightarrow> pending s e \<and> i \<in> set (ev_ids (the_event s e))"
    "pending s e \<Longrightarrow> distinct (ev_ptrs (the_event s e)) \<and> distinct (ev_ids (the_event s e))"
  using assms unfolding tables_ok_def by blast+

lemma handles_okD:
  assumes "handles_ok env s"
  shows "distinct (ec_free_handles (sm_cache s))"
    "h \<in> set (ec_free_handles (sm_cache s)) \<Longrightarrow> created env (sm_cache s) h"
    "pending s e \<Longrightarrow> ev_handle (the_event s e) \<notin> set (ec_free_handles (sm_cache s))"
    "pending s e \<Longrightarrow> created env (sm_cache s) (ev_handle (the_event s e))"
    "pending s e \<Longrightarrow> pending s f \<Longrightarrow> ev_handle (the_event s e) = ev_handle (the_event s f) \<Longrightarrow> e = f"
  using assms unfolding handles_ok_def by blast+

lemma handles_okI:
  assumes "distinct (ec_free_handles (sm_cache s))"
    "\<And>h. h \<in> set (ec_free_handles (sm_cache s)) \<Longrightarrow> created env (sm_cache s) h"
    "\<And>e. pending s e \<Longrightarrow> ev_handle (the_event s e) \<notin> set (ec_free_handles (sm_cache s))"
    "\<And>e. pending s e \<Longrightarrow> created env (sm_cache s) (ev_handle (the_event s e))"
    "\<And>e f. pending s e \<Longrightarrow> pending s f \<Longrightarrow> ev_handle (the_event s e) = ev_handle (the_event s f) \<Longrightarrow> e = f"
  shows "handles_ok env s"
  using assms unfolding handles_ok_def by blast

lemma created_pos: "creates_fresh env \<Longrightarrow> created env c h \<Longrightarrow> h \<noteq> 0"
  by (auto simp: creates_fresh_def created_def)

section \<open>Updates\<close>

lemma upd_event_simps [simp]:
  "length (sm_events (upd_event e f s)) = length (sm_events s)"
  "events_by_addr (upd_event e f s) = events_by_addr s" "events_by_str (upd_event e f s) = events_by_str s"
  "sm_streams (upd_event e f s) = sm_streams s" "sm_cache (upd_event e f s) = sm_cache s"
  "sm_calls (upd_event e f s) = sm_calls s" "sm_called (upd_event e f s) = sm_called s"
  "future_by_addr (upd_event e f s) = future_by_addr s"
  by (simp_all add: upd_event_def)

lemma upd_event_nth:
  "e < length (sm_events s) \<Longrightarrow> the_event (upd_event e f s) k = (if k = e then f (the_event s e) else the_event s k)"
  by (simp add: upd_event_def nth_list_update)

lemma upd_stream_simps [simp]:
  "sm_events (upd_stream st f s) = sm_events s" "length (sm_streams (upd_stream st f s)) = length (sm_streams s)"
  "events_by_addr (upd_stream st f s) = events_by_addr s" "events_by_str (upd_stream st f s) = events_by_str s"
  "sm_cache (upd_stream st f s) = sm_cache s" "sm_calls (upd_stream st f s) = sm_calls s"
  "sm_called (upd_stream st f s) = sm_called s" "future_by_addr (upd_stream st f s) = future_by_addr s"
  by (simp_all add: upd_stream_def)

lemma upd_stream_nth:
  "st < length (sm_streams s) \<Longrightarrow> sm_streams (upd_stream st f s) ! k =
     (if k = st then f (sm_streams s ! st) else sm_streams s ! k)"
  by (simp add: upd_stream_def nth_list_update)

lemma queue_of_upd_stream:
  "st < length (sm_streams s) \<Longrightarrow>
     queue_of (upd_stream st f s) = (queue_of s)(st := gc_queue (f (sm_streams s ! st)))"
  by (rule ext) (simp add: queue_of_def upd_stream_nth)

lemma map_of_emplace: "map_of (emplace k v m) = (if k \<in> dom (map_of m) then map_of m else (map_of m)(k \<mapsto> v))"
  by (auto simp: emplace_def dom_def split: option.splits)

lemma distinct_emplace: "distinct (map fst m) \<Longrightarrow> distinct (map fst (emplace k v m))"
  by (auto simp: emplace_def map_of_eq_None_iff split: option.splits)

lemma map_of_delete: "map_of (AList.delete k m) = (map_of m)(k := None)"
  by (simp add: delete_conv')

section \<open>Taking an event out of the tables\<close>

lemma unmap_keys_spec:
  assumes "distinct ks" "\<forall>k\<in>set ks. map_of m k = Some e" "distinct (map fst m)"
  shows "\<exists>m'. unmap_keys ks e m = Inr m' \<and> distinct (map fst m') \<and>
    map_of m' = (\<lambda>k. if k \<in> set ks then None else map_of m k)"
  using assms
proof (induction ks arbitrary: m)
  case (Cons k ks)
  have "\<forall>j\<in>set ks. map_of (AList.delete k m) j = Some e" using Cons.prems(1,2) by (auto simp: map_of_delete)
  then obtain m' where "unmap_keys ks e (AList.delete k m) = Inr m'" "distinct (map fst m')"
    "map_of m' = (\<lambda>j. if j \<in> set ks then None else map_of (AList.delete k m) j)"
    using Cons.IH [of "AList.delete k m"] Cons.prems by (auto simp: distinct_delete)
  then show ?case using Cons.prems by (auto simp: map_of_delete fun_eq_iff)
qed simp

lemma synchronize_event_step:
  assumes core: "sem_core env s Q F" and e: "pending s e" "e \<notin> F"
    and sync: "ev_partial (the_event s e) \<or> de_event_sync (se_dev env) (ev_handle (the_event s e))"
  shows "\<exists>t. synchronize_event env e s = Inr t \<and>
    sem_core env t (\<lambda>st. filter (\<lambda>x. x \<noteq> e) (Q st)) F \<and>
    sm_streams t = sm_streams s \<and> sm_calls t = sm_calls s \<and> future_by_addr t = future_by_addr s \<and>
    length (sm_events t) = length (sm_events s) \<and>
    (\<forall>k. k \<noteq> e \<longrightarrow> the_event t k = the_event s k) \<and> ev_done (the_event t e) \<and>
    producer t = (\<lambda>p. if producer s p = Some e then None else producer s p) \<and>
    named t = (\<lambda>i. if named s i = Some e then None else named s i) \<and>
    sm_called t = (if ev_cb (the_event s e) then e # sm_called s else sm_called s)"
proof -
  let ?ev = "the_event s e"
  have tab: "tables_ok s" and que: "queues_ok s Q F" and han: "handles_ok env s" and cal: "calls_ok s F" and fr: "creates_fresh env"
    using core by (auto simp: sem_core_def)
  have el: "e < length (sm_events s)" "\<not> ev_done ?ev" using e by (auto simp: pending_def)
  from tab e have pk: "distinct (ev_ptrs ?ev)" "\<forall>p\<in>set (ev_ptrs ?ev). producer s p = Some e"
      "distinct (map fst (events_by_addr s))"
    and ik: "distinct (ev_ids ?ev)" "\<forall>i\<in>set (ev_ids ?ev). named s i = Some e"
      "distinct (map fst (events_by_str s))" by (auto simp: tables_ok_def)
  from unmap_keys_spec [OF pk(1) pk(2) [unfolded producer_def] pk(3)] obtain am where am: "unmap_keys (ev_ptrs ?ev) e (events_by_addr s) = Inr am"
    "distinct (map fst am)" "map_of am = (\<lambda>p. if p \<in> set (ev_ptrs ?ev) then None else producer s p)" unfolding producer_def by blast
  from unmap_keys_spec [OF ik(1) ik(2) [unfolded named_def] ik(3)] obtain im where im: "unmap_keys (ev_ids ?ev) e (events_by_str s) = Inr im"
    "distinct (map fst im)" "map_of im = (\<lambda>i. if i \<in> set (ev_ids ?ev) then None else named s i)" unfolding named_def by blast
  have am': "map_of am = (\<lambda>p. if producer s p = Some e then None else producer s p)"
    using am(3) pk(2) tab e by (auto simp: tables_ok_def fun_eq_iff)
  have im': "map_of im = (\<lambda>i. if named s i = Some e then None else named s i)"
    using im(3) ik(2) tab e by (auto simp: tables_ok_def fun_eq_iff)
  have h: "ev_handle ?ev \<noteq> 0" using created_pos [OF fr handles_okD(4) [OF han e(1)]] .
  let ?c = "sm_cache s\<lparr> ec_free_handles := ec_free_handles (sm_cache s) @ [ev_handle ?ev] \<rparr>"
  let ?t = "upd_event e (\<lambda>ev. ev\<lparr> ev_done := True, ev_handle := 0, ev_cb := False \<rparr>)
    (s\<lparr> events_by_addr := am, events_by_str := im,
       sm_called := (if ev_cb ?ev then e # sm_called s else sm_called s), sm_cache := ?c \<rparr>)"
  have r: "synchronize_event env e s = Inr ?t"
    using el sync am(1) im(1) h by (simp add: synchronize_event_def event_synchronize_def event_complete_def release_handle_def Let_def)
  have nth: "the_event ?t k = (if k = e then ?ev\<lparr> ev_done := True, ev_handle := 0, ev_cb := False \<rparr> else the_event s k)" for k
    using el(1) by (simp add: upd_event_nth)
  have pen: "pending ?t k \<longleftrightarrow> pending s k \<and> k \<noteq> e" for k unfolding pending_def nth by simp
  have pt: "producer ?t = (\<lambda>p. if producer s p = Some e then None else producer s p)"
      "named ?t = (\<lambda>i. if named s i = Some e then None else named s i)"
    using am' im' by (simp_all add: producer_def named_def)
  have "producer ?t p = Some k \<longleftrightarrow> pending ?t k \<and> p \<in> set (ev_ptrs (the_event ?t k))"
    "named ?t i = Some k \<longleftrightarrow> pending ?t k \<and> i \<in> set (ev_ids (the_event ?t k))" for p i k
    using tables_okD(1) [OF tab, of p k] tables_okD(2) [OF tab, of i k] by (auto simp: pt pen nth)
  moreover have "named ?t [] = None" using tab by (simp add: pt tables_ok_def)
  moreover have "distinct (ev_ptrs (the_event ?t k)) \<and> distinct (ev_ids (the_event ?t k))" if "pending ?t k" for k
    using that tables_okD(3) [OF tab, of k] by (auto simp: pen nth)
  ultimately have "tables_ok ?t" using am(2) im(2) by (simp add: tables_ok_def)
  moreover have "queues_ok ?t (\<lambda>st. filter (\<lambda>x. x \<noteq> e) (Q st)) F"
    unfolding queues_ok_def pen nth using que by (auto simp: queues_ok_def)
  moreover have "handles_ok env ?t"
  proof (rule handles_okI)
    show "distinct (ec_free_handles (sm_cache ?t))" using handles_okD(1,3) [OF han] e(1) by simp
    show "created env (sm_cache ?t) h" if "h \<in> set (ec_free_handles (sm_cache ?t))" for h
      using that handles_okD(2,4) [OF han] e(1) by (auto simp: created_def)
    show "ev_handle (the_event ?t k) \<notin> set (ec_free_handles (sm_cache ?t))"
      "created env (sm_cache ?t) (ev_handle (the_event ?t k))" if "pending ?t k" for k
      using that handles_okD(3,4) [OF han, of k] handles_okD(5) [OF han, of k e] e(1) by (auto simp: pen nth created_def)
    show "k = l" if "pending ?t k" "pending ?t l" "ev_handle (the_event ?t k) = ev_handle (the_event ?t l)" for k l
      using that handles_okD(5) [OF han, of k l] by (simp add: pen nth)
  qed
  moreover have "calls_ok ?t F"
    unfolding calls_ok_def pen nth using cal el by (auto simp: calls_ok_def)
  ultimately have "sem_core env ?t (\<lambda>st. filter (\<lambda>x. x \<noteq> e) (Q st)) F" using fr by (simp add: sem_core_def)
  then show ?thesis using r nth pt by simp
qed

section \<open>Making an event\<close>

lemma get_free_handle_fresh:
  assumes han: "handles_ok env s" and fr: "creates_fresh env"
    and g: "get_free_handle (se_dev env) (sm_cache s) = Inr (h, c)"
  shows "created env c h" "\<And>g. created env (sm_cache s) g \<Longrightarrow> created env c g"
    "h \<notin> set (ec_free_handles c)" "set (ec_free_handles c) \<subseteq> set (ec_free_handles (sm_cache s))"
    "distinct (ec_free_handles c)" "\<And>e. pending s e \<Longrightarrow> ev_handle (the_event s e) \<noteq> h"
proof -
  note H = handles_okD [OF han]
  have "created env c h \<and> (\<forall>g. created env (sm_cache s) g \<longrightarrow> created env c g) \<and>
      h \<notin> set (ec_free_handles c) \<and> set (ec_free_handles c) \<subseteq> set (ec_free_handles (sm_cache s)) \<and>
      distinct (ec_free_handles c) \<and> (\<forall>e. pending s e \<longrightarrow> ev_handle (the_event s e) \<noteq> h)"
  proof (cases "ec_free_handles (sm_cache s)" rule: rev_cases)
    case Nil
    with g have c: "de_event_create (se_dev env) (ec_events_count (sm_cache s)) = Some h"
      "c = sm_cache s\<lparr> ec_events_count := ec_events_count (sm_cache s) + 1 \<rparr>"
      by (auto simp: get_free_handle_def assertR_def split: if_splits option.splits)
    have "ev_handle (the_event s e) \<noteq> h" if "pending s e" for e
      using H(4) [OF that] c(1) fr by (fastforce simp: created_def creates_fresh_def)
    then show ?thesis using c Nil by (auto simp: created_def intro: less_SucI)
  next
    case (snoc hs x)
    with g have c: "c = sm_cache s\<lparr> ec_free_handles := hs \<rparr>" "h = x" by (auto simp: get_free_handle_def)
    then show ?thesis using snoc H(1) H(2) [of h] H(3) by (auto simp: created_def)
  qed
  then show "created env c h" "\<And>g. created env (sm_cache s) g \<Longrightarrow> created env c g"
    "h \<notin> set (ec_free_handles c)" "set (ec_free_handles c) \<subseteq> set (ec_free_handles (sm_cache s))"
    "distinct (ec_free_handles c)" "\<And>e. pending s e \<Longrightarrow> ev_handle (the_event s e) \<noteq> h" by auto
qed

text \<open>The parts of the invariant that say nothing of the tables.\<close>

definition rest_ok :: "syn_env \<Rightarrow> sem \<Rightarrow> (nat \<Rightarrow> nat list) \<Rightarrow> nat set \<Rightarrow> bool" where
  "rest_ok env s Q F \<longleftrightarrow> creates_fresh env \<and> queues_ok s Q F \<and> handles_ok env s \<and> calls_ok s F"

lemma sem_core_rest: "sem_core env s Q F \<longleftrightarrow> tables_ok s \<and> rest_ok env s Q F"
  by (auto simp: sem_core_def rest_ok_def)

lemma event_new_step:
  assumes rest: "rest_ok env s Q F" and n: "event_new env st ptrs i cb s = Inr (e, t)"
    and F: "\<forall>f\<in>F. f < length (sm_events s)"
  shows "rest_ok env t Q (insert e F)" "e = length (sm_events s)" "length (sm_events t) = Suc e"
    "\<And>k. k < e \<Longrightarrow> the_event t k = the_event s k" "\<not> ev_done (the_event t e)" "\<not> ev_partial (the_event t e)"
    "ev_ptrs (the_event t e) = ptrs" "ev_ids (the_event t e) = (if i \<noteq> [] then [i] else [])"
    "ev_stream (the_event t e) = st" "ev_cb (the_event t e) = cb"
    "events_by_addr t = events_by_addr s" "events_by_str t = events_by_str s" "sm_streams t = sm_streams s"
    "sm_called t = sm_called s" "future_by_addr t = future_by_addr s" "sm_calls t = sm_calls s"
    "\<And>k. pending t k \<longleftrightarrow> pending s k \<or> k = e"
proof -
  from n obtain h c where g: "get_free_handle (se_dev env) (sm_cache s) = Inr (h, c)"
    and t: "e = length (sm_events s)" "t = s\<lparr> sm_cache := c, sm_events := sm_events s @
      [\<lparr> ev_handle = h, ev_done = False, ev_cb = cb, ev_ptrs = ptrs, ev_ids = (if i \<noteq> [] then [i] else []),
         ev_stream = st, ev_partial = False \<rparr>] \<rparr>"
    by (auto simp: event_new_def res_elims)
  show "e = length (sm_events s)" "length (sm_events t) = Suc e"
    "\<And>k. k < e \<Longrightarrow> the_event t k = the_event s k" "\<not> ev_done (the_event t e)" "\<not> ev_partial (the_event t e)"
    "ev_ptrs (the_event t e) = ptrs" "ev_ids (the_event t e) = (if i \<noteq> [] then [i] else [])"
    "ev_stream (the_event t e) = st" "ev_cb (the_event t e) = cb"
    "events_by_addr t = events_by_addr s" "events_by_str t = events_by_str s" "sm_streams t = sm_streams s"
    "sm_called t = sm_called s" "future_by_addr t = future_by_addr s" "sm_calls t = sm_calls s"
    by (simp_all add: t nth_append)
  show pen: "pending t k \<longleftrightarrow> pending s k \<or> k = e" for k by (auto simp: pending_def t nth_append)
  have old: "the_event t k = the_event s k" if "pending s k" for k using that by (simp add: pending_def t nth_append)
  have ne: "\<not> pending s e" by (simp add: pending_def t)
  have han: "handles_ok env s" and fr: "creates_fresh env" and que: "queues_ok s Q F" and cal: "calls_ok s F"
    using rest by (auto simp: rest_ok_def)
  note G = get_free_handle_fresh [OF han fr g] and H = handles_okD [OF han]
  have he: "ev_handle (the_event t e) = h" "sm_cache t = c" by (simp_all add: t)
  have "handles_ok env t"
  proof (rule handles_okI)
    show "distinct (ec_free_handles (sm_cache t))" using G(5) he by simp
    show "created env (sm_cache t) x" if "x \<in> set (ec_free_handles (sm_cache t))" for x
      using that G(2,4) H(2) he by auto
    show "ev_handle (the_event t k) \<notin> set (ec_free_handles (sm_cache t))"
      "created env (sm_cache t) (ev_handle (the_event t k))" if "pending t k" for k
      using that G(1-4) H(3,4) [of k] he old by (auto simp: pen)
    show "k = l" if "pending t k" "pending t l" "ev_handle (the_event t k) = ev_handle (the_event t l)" for k l
      using that G(6) [of k] G(6) [of l] H(5) [of k l] he old [of k] old [of l] by (auto simp: pen)
  qed
  moreover have "queues_ok t Q (insert e F)"
    unfolding queues_ok_def
  proof (intro conjI allI impI)
    fix st' show "distinct (Q st')" using que by (simp add: queues_ok_def)
  next
    fix st' k assume "k \<in> set (Q st')"
    then have "pending s k \<and> ev_stream (the_event s k) = st' \<and> k \<notin> F" using que unfolding queues_ok_def by blast
    then show "pending t k" "ev_stream (the_event t k) = st'" "k \<notin> insert e F" using old ne pen by auto
  next
    fix k assume "pending t k \<and> \<not> ev_partial (the_event t k) \<and> k \<notin> insert e F"
    then have "pending s k \<and> \<not> ev_partial (the_event s k) \<and> k \<notin> F" using pen old by auto
    then show "k \<in> set (Q (ev_stream (the_event t k)))" using que old unfolding queues_ok_def by metis
  qed
  moreover have "calls_ok t (insert e F)"
    unfolding calls_ok_def pen
  proof (intro conjI allI impI ballI)
    show "distinct (sm_called t)" using cal by (simp add: calls_ok_def t)
    fix k assume "k \<in> set (sm_called t)"
    then have "k < length (sm_events s) \<and> ev_done (the_event s k)" using cal by (simp add: calls_ok_def t)
    then show "k < length (sm_events t)" "ev_done (the_event t k)" by (simp_all add: t nth_append)
  next
    fix k assume "(pending s k \<or> k = e) \<and> \<not> ev_partial (the_event t k) \<and> k \<notin> insert e F"
    then have "pending s k \<and> \<not> ev_partial (the_event s k) \<and> k \<notin> F" using old by auto
    then show "recorded_on (ev_handle (the_event t k)) (sm_calls t) = Some (ev_stream (the_event t k))"
      using cal old by (simp add: calls_ok_def t)
  qed
  ultimately show "rest_ok env t Q (insert e F)" using fr by (simp add: rest_ok_def)
qed

section \<open>Binding addresses\<close>

text \<open>The addresses and names of events play no part in the rest of the invariant.\<close>

definition same_rest :: "sem \<Rightarrow> sem \<Rightarrow> bool" where
  "same_rest s t \<longleftrightarrow> length (sm_events t) = length (sm_events s) \<and> sm_cache t = sm_cache s \<and>
     sm_calls t = sm_calls s \<and> sm_called t = sm_called s \<and> sm_streams t = sm_streams s \<and>
     future_by_addr t = future_by_addr s \<and>
     (\<forall>k. ev_handle (the_event t k) = ev_handle (the_event s k) \<and> ev_done (the_event t k) = ev_done (the_event s k) \<and>
        ev_partial (the_event t k) = ev_partial (the_event s k) \<and> ev_stream (the_event t k) = ev_stream (the_event s k) \<and>
        ev_cb (the_event t k) = ev_cb (the_event s k))"

lemma same_rest_refl: "same_rest s s"
  by (simp add: same_rest_def)

lemma same_rest_trans: "same_rest s t \<Longrightarrow> same_rest t u \<Longrightarrow> same_rest s u"
  by (simp add: same_rest_def)

lemma same_rest_pending: "same_rest s t \<Longrightarrow> pending t k \<longleftrightarrow> pending s k"
  by (simp add: same_rest_def pending_def)

lemma rest_ok_same:
  assumes "same_rest s t"
  shows "rest_ok env t Q F \<longleftrightarrow> rest_ok env s Q F"
proof -
  have "pending t = pending s" using same_rest_pending [OF assms] by (simp add: fun_eq_iff)
  then show ?thesis using assms
    by (simp add: rest_ok_def same_rest_def queues_ok_def handles_ok_def calls_ok_def)
qed

lemma same_rest_upd: "e < length (sm_events s) \<Longrightarrow> same_rest s (remove_device_ptr e p s)"
  "e < length (sm_events s) \<Longrightarrow> same_rest s (push_id e i s)"
  by (auto simp: same_rest_def remove_device_ptr_def push_id_def upd_event_nth)

lemma detach_address_step:
  assumes "\<And>k. producer s p = Some k \<Longrightarrow> k < length (sm_events s)" "distinct (map fst (events_by_addr s))"
  shows "same_rest s (detach_address p s)" "producer (detach_address p s) = (producer s)(p := None)"
    "distinct (map fst (events_by_addr (detach_address p s)))"
    "events_by_str (detach_address p s) = events_by_str s"
    "ev_ids (the_event (detach_address p s) k) = ev_ids (the_event s k)"
    "ev_ptrs (the_event (detach_address p s) k) =
       filter (\<lambda>q. \<not> (q = p \<and> producer s p = Some k)) (ev_ptrs (the_event s k))"
proof -
  have "same_rest s (detach_address p s) \<and> producer (detach_address p s) = (producer s)(p := None) \<and>
    distinct (map fst (events_by_addr (detach_address p s))) \<and> events_by_str (detach_address p s) = events_by_str s \<and>
    ev_ids (the_event (detach_address p s) k) = ev_ids (the_event s k) \<and>
    ev_ptrs (the_event (detach_address p s) k) =
       filter (\<lambda>q. \<not> (q = p \<and> producer s p = Some k)) (ev_ptrs (the_event s k))"
  proof (cases "producer s p")
    case None
    then have "detach_address p s = s" by (simp add: detach_address_def producer_def)
    then show ?thesis using None assms(2) by (auto simp: same_rest_refl fun_eq_iff)
  next
    case (Some e)
    then have e: "e < length (sm_events s)" and d: "detach_address p s =
        (remove_device_ptr e p s)\<lparr> events_by_addr := AList.delete p (events_by_addr s) \<rparr>"
      using assms(1) by (auto simp: detach_address_def producer_def)
    have "same_rest s (detach_address p s)" using same_rest_upd(1) [OF e, of p] by (simp add: d same_rest_def)
    moreover have "producer (detach_address p s) = (producer s)(p := None)" by (simp add: d producer_def map_of_delete)
    moreover have "ev_ptrs (the_event (detach_address p s) k) =
        filter (\<lambda>q. \<not> (q = p \<and> producer s p = Some k)) (ev_ptrs (the_event s k))"
      using e Some by (simp add: d remove_device_ptr_def upd_event_nth)
    ultimately show ?thesis using e assms(2) by (simp add: d remove_device_ptr_def upd_event_nth distinct_delete)
  qed
  then show "same_rest s (detach_address p s)" "producer (detach_address p s) = (producer s)(p := None)"
    "distinct (map fst (events_by_addr (detach_address p s)))"
    "events_by_str (detach_address p s) = events_by_str s"
    "ev_ids (the_event (detach_address p s) k) = ev_ids (the_event s k)"
    "ev_ptrs (the_event (detach_address p s) k) =
       filter (\<lambda>q. \<not> (q = p \<and> producer s p = Some k)) (ev_ptrs (the_event s k))" by simp_all
qed

lemma bind_addresses_step:
  assumes "\<And>p k. producer s p = Some k \<Longrightarrow> k < length (sm_events s)" "distinct (map fst (events_by_addr s))"
    "e < length (sm_events s)" "distinct ps"
  shows "same_rest s (bind_addresses e ps s) \<and>
    producer (bind_addresses e ps s) = (\<lambda>p. if p \<in> set ps then Some e else producer s p) \<and>
    distinct (map fst (events_by_addr (bind_addresses e ps s))) \<and>
    events_by_str (bind_addresses e ps s) = events_by_str s \<and>
    (\<forall>k. ev_ids (the_event (bind_addresses e ps s) k) = ev_ids (the_event s k) \<and>
      ev_ptrs (the_event (bind_addresses e ps s) k) =
        filter (\<lambda>p. \<not> (p \<in> set ps \<and> producer s p = Some k)) (ev_ptrs (the_event s k)))"
  using assms
proof (induction ps arbitrary: s)
  case Nil
  then show ?case by (simp add: same_rest_refl)
next
  case (Cons p ps)
  let ?d = "detach_address p s"
  let ?t = "?d\<lparr> events_by_addr := emplace p e (events_by_addr ?d) \<rparr>"
  have D: "same_rest s ?d" "producer ?d = (producer s)(p := None)" "distinct (map fst (events_by_addr ?d))"
    "events_by_str ?d = events_by_str s" "\<And>k. ev_ids (the_event ?d k) = ev_ids (the_event s k)"
    "\<And>k. ev_ptrs (the_event ?d k) = filter (\<lambda>q. \<not> (q = p \<and> producer s p = Some k)) (ev_ptrs (the_event s k))"
    using detach_address_step [of s p] Cons.prems(1,2) by auto
  have pt: "producer ?t = (producer s)(p \<mapsto> e)"
    using D(2) by (auto simp: producer_def map_of_emplace fun_eq_iff dom_def)
  have st: "same_rest s ?t" using D(1) by (simp add: same_rest_def)
  then have len: "length (sm_events ?t) = length (sm_events s)" by (simp add: same_rest_def)
  have "k < length (sm_events ?t)" if "producer ?t q = Some k" for q k
    using that Cons.prems(1) [of q k] Cons.prems(3) unfolding pt len by (auto split: if_splits)
  then have ih: "same_rest ?t (bind_addresses e ps ?t) \<and>
    producer (bind_addresses e ps ?t) = (\<lambda>p. if p \<in> set ps then Some e else producer ?t p) \<and>
    distinct (map fst (events_by_addr (bind_addresses e ps ?t))) \<and>
    events_by_str (bind_addresses e ps ?t) = events_by_str ?t \<and>
    (\<forall>k. ev_ids (the_event (bind_addresses e ps ?t) k) = ev_ids (the_event ?t k) \<and>
      ev_ptrs (the_event (bind_addresses e ps ?t) k) =
        filter (\<lambda>p. \<not> (p \<in> set ps \<and> producer ?t p = Some k)) (ev_ptrs (the_event ?t k)))"
    using Cons.IH [of ?t] Cons.prems(3,4) D(3) len by (simp add: distinct_emplace)
  have "filter (\<lambda>q. \<not> (q \<in> set ps \<and> ((producer s)(p \<mapsto> e)) q = Some k))
      (filter (\<lambda>q. \<not> (q = p \<and> producer s p = Some k)) xs) =
      filter (\<lambda>q. \<not> (q \<in> set (p # ps) \<and> producer s q = Some k)) xs" for k xs
    using Cons.prems(4) by (simp add: conj_commute) (rule filter_cong, auto)
  then show ?case using ih st D(4-6) pt same_rest_trans [OF st] by (auto simp: fun_eq_iff)
qed

section \<open>Publishing an event\<close>

lemma tables_okI:
  assumes "distinct (map fst (events_by_addr s))" "distinct (map fst (events_by_str s))"
    "\<And>p k. producer s p = Some k \<longleftrightarrow> pending s k \<and> p \<in> set (ev_ptrs (the_event s k))"
    "\<And>i k. named s i = Some k \<longleftrightarrow> pending s k \<and> i \<in> set (ev_ids (the_event s k))" "named s [] = None"
    "\<And>k. pending s k \<Longrightarrow> distinct (ev_ptrs (the_event s k)) \<and> distinct (ev_ids (the_event s k))"
  shows "tables_ok s"
  using assms by (simp add: tables_ok_def)

lemma publish_new_step:
  assumes core: "sem_core env s Q F" and F: "\<forall>f\<in>F. f < length (sm_events s)"
    and n: "event_new env st ps i cb s = Inr (e, t)" and ps: "distinct ps" and i: "named s i = None"
  shows "\<exists>u. publish_event i e t = Inr u \<and> sem_core env u Q (insert e F) \<and> same_rest t u \<and>
    producer u = (\<lambda>p. if p \<in> set ps then Some e else producer s p) \<and>
    named u = (if i = [] then named s else (named s)(i \<mapsto> e)) \<and> ev_ptrs (the_event u e) = ps"
proof -
  have tab: "tables_ok s" and rest: "rest_ok env s Q F" using core by (auto simp: sem_core_rest)
  note E = event_new_step [OF rest n F]
  have pt: "producer t = producer s" "named t = named s" using E(11,12) by (simp_all add: producer_def named_def)
  have lt: "k < e" if "producer t p = Some k" for p k
    using that tables_okD(1) [OF tab, of p k] by (simp add: pt pending_def E(2))
  have lt': "k < length (sm_events t)" if "producer t p = Some k" for p k using lt [OF that] E(3) by simp
  have d: "distinct (map fst (events_by_addr t))" using tab by (simp add: E(11) tables_ok_def)
  have el: "e < length (sm_events t)" by (simp add: E(3))
  let ?b = "bind_addresses e ps t"
  have B: "same_rest t ?b" "producer ?b = (\<lambda>p. if p \<in> set ps then Some e else producer s p)"
    "distinct (map fst (events_by_addr ?b))" "events_by_str ?b = events_by_str s"
    "\<And>k. ev_ids (the_event ?b k) = ev_ids (the_event t k)"
    "\<And>k. ev_ptrs (the_event ?b k) = filter (\<lambda>p. \<not> (p \<in> set ps \<and> producer s p = Some k)) (ev_ptrs (the_event t k))"
    using bind_addresses_step [OF lt' d el ps] E(12) pt by auto
  let ?u = "?b\<lparr> events_by_str := (if i \<noteq> [] then emplace i e (events_by_str ?b) else events_by_str ?b) \<rparr>"
  have none: "map_of (events_by_str ?b) i = None" using i B(4) by (simp add: named_def)
  have "\<not> (\<exists>p\<in>set (ev_ptrs (the_event t e)). map_of (events_by_addr t) p = Some e)"
    using lt unfolding producer_def by fastforce
  then have r: "publish_event i e t = Inr ?u" using none by (simp add: publish_event_def E(7) Let_def)
  have su: "same_rest t ?u" using B(1) by (simp add: same_rest_def)
  have nu: "named ?u = (if i = [] then named s else (named s)(i \<mapsto> e))"
    using none B(4) by (auto simp: named_def map_of_emplace fun_eq_iff dom_def)
  have pu: "producer ?u = (\<lambda>p. if p \<in> set ps then Some e else producer s p)" using B(2) by (simp add: producer_def)
  have pen: "pending ?u k \<longleftrightarrow> pending s k \<or> k = e" for k using same_rest_pending [OF su, of k] E(17) [of k] by simp
  have ne: "\<not> pending s e" by (simp add: pending_def E(2))
  have old: "the_event t k = the_event s k" if "pending s k" for k using that E(4) [of k] by (simp add: pending_def E(2))
  have "tables_ok ?u"
  proof (rule tables_okI)
    show "distinct (map fst (events_by_addr ?u))" using B(3) by simp
    show "distinct (map fst (events_by_str ?u))" using tab B(4) by (simp add: distinct_emplace tables_ok_def)
    show "named ?u [] = None" using tab by (simp add: nu tables_ok_def)
    show "producer ?u p = Some k \<longleftrightarrow> pending ?u k \<and> p \<in> set (ev_ptrs (the_event ?u k))" for p k
    proof (cases "k = e")
      case True
      then show ?thesis using tables_okD(1) [OF tab, of p e] ne B(6) [of e] by (simp add: pu pen E(7))
    next
      case False
      then show ?thesis
        using tables_okD(1) [OF tab, of p k] B(6) [of k] old [of k] by (auto simp: pu pen)
    qed
    show "named ?u j = Some k \<longleftrightarrow> pending ?u k \<and> j \<in> set (ev_ids (the_event ?u k))" for j k
    proof (cases "k = e")
      case True
      then show ?thesis using tables_okD(2) [OF tab, of j e] ne B(5) [of e] by (simp add: nu pen E(8))
    next
      case False
      then show ?thesis
        using tables_okD(2) [OF tab, of j k] B(5) [of k] old [of k] i by (auto simp: nu pen)
    qed
    show "distinct (ev_ptrs (the_event ?u k)) \<and> distinct (ev_ids (the_event ?u k))" if "pending ?u k" for k
      using that tables_okD(3) [OF tab, of k] B(5,6) [of k] old [of k] ps by (cases "k = e") (auto simp: pen E(7,8))
  qed
  moreover have "rest_ok env ?u Q (insert e F)" using rest_ok_same [OF su] E(1) by simp
  moreover have "ev_ptrs (the_event ?u e) = ps"
    using B(6) [of e] ne tables_okD(1) [OF tab, of _ e] by (simp add: E(7))
  ultimately show ?thesis using r su pu nu by (auto simp: sem_core_rest)
qed

section \<open>Registering an event on a stream\<close>

lemma gc_queue_push:
  "(gc_phase st \<noteq> Waiting \<Longrightarrow> pending_cleanups st \<noteq> []) \<Longrightarrow>
     gc_queue (push_pending (Some e) st) = gc_queue st @ [e]"
  by (cases "gc_phase st") (auto simp: gc_queue_def push_pending_def tl_append split: list.splits)

lemma streams_ok_push:
  "streams_ok s \<Longrightarrow> st < length (sm_streams s) \<Longrightarrow> streams_ok (upd_stream st (push_pending x) s)"
  by (auto simp: streams_ok_def all_set_conv_all_nth upd_stream_nth push_pending_def)

lemma register_step:
  assumes core: "sem_core env s (queue_of s) F" and so: "streams_ok s" and e: "pending s e"
    and st: "ev_stream (the_event s e) = st" "st < length (sm_streams s)"
    and b: "if b then e \<in> F else ev_partial (the_event s e) \<and> e \<notin> F \<and> e \<notin> set (queue_of s st)"
    and r: "register_pending_event env st e b s = Inr t"
  shows "sem_core env t (queue_of t) (F - {e})" "streams_ok t" "sm_events t = sm_events s"
    "events_by_addr t = events_by_addr s" "events_by_str t = events_by_str s"
    "queue_of t = (queue_of s)(st := queue_of s st @ [e])" "length (sm_streams t) = length (sm_streams s)"
    "sm_called t = sm_called s" "future_by_addr t = future_by_addr s"
    "sm_calls t = (if b then EventRecord (ev_handle (the_event s e)) st # sm_calls s else sm_calls s)"
proof -
  let ?c = "if b then EventRecord (ev_handle (the_event s e)) st # sm_calls s else sm_calls s"
  have t: "t = upd_stream st (push_pending (Some e)) (s\<lparr> sm_calls := ?c \<rparr>)"
    using r by (auto simp: register_pending_event_def Let_def split: if_splits)
  have so': "streams_ok (s\<lparr> sm_calls := ?c \<rparr>)" using so by (simp add: streams_ok_def)
  then show "streams_ok t" using streams_ok_push [OF so'] st(2) by (simp add: t)
  show ev: "sm_events t = sm_events s" and ad: "events_by_addr t = events_by_addr s" "events_by_str t = events_by_str s"
    "length (sm_streams t) = length (sm_streams s)"
    "sm_called t = sm_called s" "future_by_addr t = future_by_addr s" "sm_calls t = ?c" by (simp_all add: t)
  have "queue_of t = (queue_of (s\<lparr> sm_calls := ?c \<rparr>))(st := gc_queue (push_pending (Some e) (sm_streams s ! st)))"
    using queue_of_upd_stream [of st "s\<lparr> sm_calls := ?c \<rparr>"] st(2) by (simp add: t)
  moreover have "queue_of (s\<lparr> sm_calls := ?c \<rparr>) = queue_of s" by (simp add: queue_of_def fun_eq_iff)
  moreover have "gc_queue (push_pending (Some e) (sm_streams s ! st)) = queue_of s st @ [e]"
    using gc_queue_push [of "sm_streams s ! st"] so st(2) by (simp add: queue_of_def streams_ok_def)
  ultimately show q: "queue_of t = (queue_of s)(st := queue_of s st @ [e])" by simp
  have pen: "pending t = pending s" by (simp add: pending_def fun_eq_iff t)
  have ca: "sm_cache t = sm_cache s" by (simp add: t)
  have sub: "creates_fresh env" "tables_ok s" "queues_ok s (queue_of s) F" "handles_ok env s" "calls_ok s F"
    using core by (auto simp: sem_core_def)
  have ne: "e \<notin> set (queue_of s st)" using b sub(3) by (auto simp: queues_ok_def split: if_splits)
  have "tables_ok t" using sub(2) by (simp add: tables_ok_def pen ev ad producer_def named_def)
  moreover have "handles_ok env t" using sub(4) ca by (simp add: handles_ok_def pen ev)
  moreover have "queues_ok t (queue_of t) (F - {e})"
    unfolding queues_ok_def pen ev q
  proof (intro conjI allI impI)
    fix k show "distinct (((queue_of s)(st := queue_of s st @ [e])) k)"
      using sub(3) ne by (simp add: queues_ok_def)
  next
    fix k f assume "f \<in> set (((queue_of s)(st := queue_of s st @ [e])) k)"
    then have "f \<in> set (queue_of s k) \<or> f = e \<and> k = st" by (auto split: if_splits)
    then show "pending s f" "ev_stream (the_event s f) = k" "f \<notin> F - {e}"
      using sub(3) e st(1) unfolding queues_ok_def by blast+
  next
    fix f assume "pending s f \<and> \<not> ev_partial (the_event s f) \<and> f \<notin> F - {e}"
    then have "f = e \<or> f \<in> set (queue_of s (ev_stream (the_event s f)))"
      using sub(3) unfolding queues_ok_def by blast
    then show "f \<in> set (((queue_of s)(st := queue_of s st @ [e])) (ev_stream (the_event s f)))"
      using st(1) by auto
  qed
  moreover have "calls_ok t (F - {e})"
    unfolding calls_ok_def pen ev
  proof (intro conjI allI impI)
    show "distinct (sm_called t)" using sub(5) by (simp add: calls_ok_def t)
    show "\<forall>e\<in>set (sm_called t). e < length (sm_events s) \<and> ev_done (the_event s e)"
      using sub(5) by (simp add: calls_ok_def t)
    fix f assume f: "pending s f \<and> \<not> ev_partial (the_event s f) \<and> f \<notin> F - {e}"
    show "recorded_on (ev_handle (the_event s f)) (sm_calls t) = Some (ev_stream (the_event s f))"
    proof (cases "f = e")
      case True
      then show ?thesis using b f st(1) by (simp add: t split: if_splits)
    next
      case False
      then have "ev_handle (the_event s f) \<noteq> ev_handle (the_event s e)" using handles_okD(5) [OF sub(4)] f e by blast
      then show ?thesis using sub(5) f False by (auto simp: calls_ok_def t)
    qed
  qed
  ultimately show "sem_core env t (queue_of t) (F - {e})" using sub(1) by (simp add: sem_core_def)
qed

section \<open>The operations of the clients\<close>

lemma sem_core_cong:
  assumes "sm_events t = sm_events s" "events_by_addr t = events_by_addr s" "events_by_str t = events_by_str s"
    "sm_cache t = sm_cache s" "sm_called t = sm_called s" "\<And>h. recorded_on h (sm_calls t) = recorded_on h (sm_calls s)"
  shows "sem_core env t Q F \<longleftrightarrow> sem_core env s Q F"
proof -
  have "pending t = pending s" "producer t = producer s" "named t = named s"
    using assms by (simp_all add: pending_def producer_def named_def fun_eq_iff)
  then show ?thesis using assms by (simp add: sem_core_def tables_ok_def queues_ok_def handles_ok_def calls_ok_def)
qed

lemma sem_inv_cong:
  assumes "sm_events t = sm_events s" "events_by_addr t = events_by_addr s" "events_by_str t = events_by_str s"
    "sm_cache t = sm_cache s" "sm_called t = sm_called s" "\<And>h. recorded_on h (sm_calls t) = recorded_on h (sm_calls s)"
    "sm_streams t = sm_streams s"
  shows "sem_inv env t \<longleftrightarrow> sem_inv env s"
proof -
  have "queue_of t = queue_of s" using assms(7) by (simp add: queue_of_def fun_eq_iff)
  then show ?thesis using sem_core_cong [OF assms(1-6), of env "queue_of s" "{}"] assms(1,7)
    by (simp add: sem_inv_def streams_ok_def)
qed

lemma stream_wait_event_step:
  "stream_wait_event env st e s = Inr t \<Longrightarrow> sem_inv env t \<longleftrightarrow> sem_inv env s"
  by (rule sem_inv_cong) (auto simp: stream_wait_event_def split: if_splits)

lemma future_erase_step: "sem_inv env (future_erase p s) \<longleftrightarrow> sem_inv env s"
  by (rule sem_inv_cong) (simp_all add: future_erase_def)

lemma wait_for_future_step:
  assumes "wait_for_future env p s = Inr t"
  shows "t = s \<or> t = future_erase p s"
  using assms by (auto simp: wait_for_future_def res_elims split: if_splits)

lemma wait_for_future_inv: "wait_for_future env p s = Inr t \<Longrightarrow> sem_inv env t \<longleftrightarrow> sem_inv env s"
  using wait_for_future_step future_erase_step by metis

lemma add_future_inv: "add_future env p f s = Inr t \<Longrightarrow> sem_inv env t \<longleftrightarrow> sem_inv env s"
  by (rule sem_inv_cong) (auto simp: add_future_def res_elims)

lemma distinct_addresses: "distinct (remdups_adj (sort (xs :: nat list)))"
proof -
  have "sorted ys \<Longrightarrow> distinct (remdups_adj ys)" for ys :: "nat list"
    by (induction ys rule: remdups_adj.induct) (auto simp: le_less)
  then show ?thesis by simp
qed

lemma streams_ok_same:
  assumes "streams_ok s" "sm_streams t = sm_streams s"
    "\<And>e. ev_partial (the_event s e) \<Longrightarrow> e < length (sm_events s) \<Longrightarrow> ev_partial (the_event t e)"
    "\<And>st e. st \<in> set (sm_streams s) \<Longrightarrow> e \<in> set (partial_events st) \<Longrightarrow> e < length (sm_events s)"
  shows "streams_ok t"
  using assms by (auto simp: streams_ok_def)

lemma partial_events_pending:
  assumes "sem_core env s (queue_of s) F" "st \<in> set (sm_streams s)" "e \<in> set (partial_events st)"
  shows "e < length (sm_events s)"
proof -
  from assms(2) obtain k where k: "k < length (sm_streams s)" "st = sm_streams s ! k" by (auto simp: in_set_conv_nth)
  then have "e \<in> set (queue_of s k)" using assms(3) by (simp add: queue_of_def gc_queue_def)
  then show ?thesis using assms(1) by (auto simp: sem_core_def queues_ok_def pending_def)
qed

lemma queue_of_same: "sm_streams t = sm_streams s \<Longrightarrow> queue_of t = queue_of s"
  by (simp add: queue_of_def fun_eq_iff)

lemma add_producer_step:
  assumes inv: "sem_inv env s" and st: "st < length (sm_streams s)" and i: "named s i = None"
    and a: "add_producer env addrs i st cb s = Inr (e, t)"
  shows "sem_inv env t" "e = length (sm_events s)" "length (sm_events t) = Suc e"
    "producer t = (\<lambda>p. if p \<in> set addrs then Some e else producer s p)"
    "named t = (if i = [] then named s else (named s)(i \<mapsto> e))"
    "queue_of t = (queue_of s)(st := queue_of s st @ [e])"
    "ev_stream (the_event t e) = st" "\<not> ev_partial (the_event t e)" "pending t e" "ev_cb (the_event t e) = cb"
    "sm_called t = sm_called s" "\<And>k. pending s k \<Longrightarrow> pending t k"
proof -
  let ?ps = "remdups_adj (sort addrs)"
  from a obtain s1 s2 where n: "event_new env st ?ps i cb s = Inr (e, s1)"
    and p: "publish_event i e s1 = Inr s2" and r: "register_pending_event env st e True s2 = Inr t"
    by (auto simp: add_producer_def add_producer_event_def Let_def res_elims)
  have core: "sem_core env s (queue_of s) {}" and so: "streams_ok s" using inv by (auto simp: sem_inv_def)
  have rest: "rest_ok env s (queue_of s) {}" using core by (simp add: sem_core_rest)
  have F: "\<forall>f\<in>{}. f < length (sm_events s)" by simp
  note E = event_new_step [OF rest n F]
  from publish_new_step [OF core F n distinct_addresses i] p
  have P: "sem_core env s2 (queue_of s) {e}" "same_rest s1 s2"
    "producer s2 = (\<lambda>p. if p \<in> set addrs then Some e else producer s p)"
    "named s2 = (if i = [] then named s else (named s)(i \<mapsto> e))" by auto
  have str: "sm_streams s2 = sm_streams s" using P(2) E(13) by (simp add: same_rest_def)
  have q2: "queue_of s2 = queue_of s" using queue_of_same [OF str] .
  have so2: "streams_ok s2"
  proof (rule streams_ok_same [OF so str])
    show "ev_partial (the_event s2 k)" if "ev_partial (the_event s k)" "k < length (sm_events s)" for k
      using that P(2) E(4) [of k] E(2) by (simp add: same_rest_def)
  qed (rule partial_events_pending [OF core])
  have pe: "pending s2 e" using same_rest_pending [OF P(2)] E(17) by simp
  have ev: "ev_stream (the_event s2 e) = st" "\<not> ev_partial (the_event s2 e)" "ev_cb (the_event s2 e) = cb"
    using P(2) E(6,9,10) by (simp_all add: same_rest_def)
  note R = register_step [OF _ so2 pe ev(1) _ _ r, where F = "{e}", unfolded q2 str, OF P(1) st]
  show "sem_inv env t" using R(1,2) by (simp add: sem_inv_def)
  show "e = length (sm_events s)" by (rule E(2))
  have len: "length (sm_events s2) = Suc e" using P(2) E(3) by (simp add: same_rest_def)
  then show "length (sm_events t) = Suc e" using R(3) by simp
  show "producer t = (\<lambda>p. if p \<in> set addrs then Some e else producer s p)"
    using P(3) R(4) by (simp add: producer_def)
  show "named t = (if i = [] then named s else (named s)(i \<mapsto> e))" using P(4) R(5) by (simp add: named_def)
  show "queue_of t = (queue_of s)(st := queue_of s st @ [e])" using R(6) by simp
  show "ev_stream (the_event t e) = st" "\<not> ev_partial (the_event t e)" "ev_cb (the_event t e) = cb"
    using ev R(3) by simp_all
  have pt: "pending t k \<longleftrightarrow> pending s2 k" for k using R(3) by (simp add: pending_def)
  then show "pending t e" using pe by simp
  show "sm_called t = sm_called s" using R(8) P(2) E(14) by (simp add: same_rest_def)
  show "pending t k" if "pending s k" for k using that pt same_rest_pending [OF P(2), of k] E(17) [of k] by simp
qed

lemma add_producer_returns:
  assumes inv: "sem_inv env s" and i: "named s i = None"
    and g: "get_free_handle (se_dev env) (sm_cache s) = Inr (h, c)" and r: "de_event_record (se_dev env) h st"
  shows "\<exists>e t. add_producer env addrs i st cb s = Inr (e, t) \<and>
    sm_calls t = EventRecord (ev_handle (the_event t e)) st # sm_calls s"
proof -
  let ?ps = "remdups_adj (sort addrs)"
  have core: "sem_core env s (queue_of s) {}" using inv by (simp add: sem_inv_def)
  have F: "\<forall>f\<in>{}. f < length (sm_events s)" by simp
  obtain e u where n: "event_new env st ?ps i cb s = Inr (e, u)" "ev_handle (the_event u e) = h"
    using g by (simp add: event_new_def nth_append)
  from publish_new_step [OF core F n(1) distinct_addresses i] obtain v where
    v: "publish_event i e u = Inr v" "same_rest u v" by blast
  have rest: "rest_ok env s (queue_of s) {}" using core by (simp add: sem_core_rest)
  have c: "sm_calls v = sm_calls s" using v(2) event_new_step(16) [OF rest n(1) F] by (simp add: same_rest_def)
  have h: "ev_handle (the_event v e) = h" using v(2) n(2) by (simp add: same_rest_def)
  show ?thesis using n v(1) r h c
    by (simp add: add_producer_def add_producer_event_def register_pending_event_def Let_def)
qed

end
