(* ===== verification/Stream_Steps.thy ===== *)
theory Stream_Steps
  imports Stream_Inv
begin

text \<open>
  The other operations keep the invariant: events for tensors that a running recipe signals,
  further names, events without addresses, and the two halves of a round of the thread of a
  stream, which never fails as long as the library can wait for its events.
\<close>

section \<open>Names and mapped events\<close>

lemma add_event_id_step:
  assumes inv: "sem_inv env s" and i: "i \<noteq> []" "named s i = None"
  shows "sem_inv env (add_event_id old i s)"
    "named (add_event_id old i s) = (case named s old of None \<Rightarrow> named s | Some e \<Rightarrow> (named s)(i \<mapsto> e))"
    "producer (add_event_id old i s) = producer s"
proof -
  let ?t = "add_event_id old i s"
  have core: "sem_core env s (queue_of s) {}" and so: "streams_ok s" using inv by (auto simp: sem_inv_def)
  then have tab: "tables_ok s" and rest: "rest_ok env s (queue_of s) {}" by (auto simp: sem_core_rest)
  have "sem_inv env ?t \<and> named ?t = (case named s old of None \<Rightarrow> named s | Some e \<Rightarrow> (named s)(i \<mapsto> e)) \<and>
    producer ?t = producer s"
  proof (cases "named s old")
    case None
    then have "?t = s" by (simp add: add_event_id_def named_def)
    then show ?thesis using inv None by simp
  next
    case (Some e)
    then have e: "pending s e" using tables_okD(2) [OF tab, of old e] by simp
    then have el: "e < length (sm_events s)" by (simp add: pending_def)
    have t: "?t = (push_id e i s)\<lparr> events_by_str := emplace i e (events_by_str s) \<rparr>"
      using Some by (simp add: add_event_id_def named_def)
    have same: "same_rest s ?t" using same_rest_upd(2) [OF el, of i] by (simp add: t same_rest_def)
    have pen: "pending ?t k \<longleftrightarrow> pending s k" for k using same_rest_pending [OF same] .
    have nth: "ev_ptrs (the_event ?t k) = ev_ptrs (the_event s k)"
      "ev_ids (the_event ?t k) = (if k = e then ev_ids (the_event s e) @ [i] else ev_ids (the_event s k))" for k
      using el by (simp_all add: t push_id_def upd_event_nth)
    have pr: "producer ?t = producer s" by (simp add: t producer_def push_id_def)
    have na: "named ?t = (named s)(i \<mapsto> e)"
      using i(2) by (auto simp: t named_def map_of_emplace fun_eq_iff dom_def)
    have "tables_ok ?t"
    proof (rule tables_okI)
      show "distinct (map fst (events_by_addr ?t))" "distinct (map fst (events_by_str ?t))" "named ?t [] = None"
        using tab i(1) na by (simp_all add: t push_id_def distinct_emplace tables_ok_def)
      show "producer ?t p = Some k \<longleftrightarrow> pending ?t k \<and> p \<in> set (ev_ptrs (the_event ?t k))" for p k
        using tables_okD(1) [OF tab] by (simp add: pr pen nth)
      show "named ?t j = Some k \<longleftrightarrow> pending ?t k \<and> j \<in> set (ev_ids (the_event ?t k))" for j k
        using tables_okD(2) [OF tab, of j k] i(2) e by (auto simp: na pen nth)
      show "distinct (ev_ptrs (the_event ?t k)) \<and> distinct (ev_ids (the_event ?t k))" if "pending ?t k" for k
        using that tables_okD(3) [OF tab, of k] tables_okD(2) [OF tab, of i e] i(2) e by (auto simp: pen nth)
    qed
    moreover have st: "sm_streams ?t = sm_streams s" using same by (simp add: same_rest_def)
    moreover have "streams_ok ?t"
      by (rule streams_ok_same [OF so st])
        (use same partial_events_pending [OF core] in \<open>auto simp: same_rest_def\<close>)
    ultimately have "sem_inv env ?t"
      using rest_ok_same [OF same] rest by (simp add: sem_inv_def sem_core_rest queue_of_same [OF st])
    then show ?thesis using Some pr na by simp
  qed
  then show "sem_inv env ?t" "named ?t = (case named s old of None \<Rightarrow> named s | Some e \<Rightarrow> (named s)(i \<mapsto> e))"
    "producer ?t = producer s" by simp_all
qed

lemma detach_address_inv:
  assumes core: "sem_core env s Q F"
  shows "sem_core env (detach_address p s) Q F"
proof -
  have tab: "tables_ok s" and rest: "rest_ok env s Q F" using core by (auto simp: sem_core_rest)
  have lt: "\<And>k. producer s p = Some k \<Longrightarrow> k < length (sm_events s)"
    using tables_okD(1) [OF tab] by (auto simp: pending_def)
  have d: "distinct (map fst (events_by_addr s))" using tab by (simp add: tables_ok_def)
  note D = detach_address_step [OF lt d]
  have na: "named (detach_address p s) = named s" using D(4) by (simp add: named_def)
  have pen: "pending (detach_address p s) k \<longleftrightarrow> pending s k" for k using same_rest_pending [OF D(1)] by simp
  have "tables_ok (detach_address p s)"
  proof (rule tables_okI)
    show "distinct (map fst (events_by_addr (detach_address p s)))" by (rule D(3))
    show "distinct (map fst (events_by_str (detach_address p s)))" "named (detach_address p s) [] = None"
      using tab D(4) na by (simp_all add: tables_ok_def)
    show "producer (detach_address p s) q = Some k \<longleftrightarrow>
        pending (detach_address p s) k \<and> q \<in> set (ev_ptrs (the_event (detach_address p s) k))" for q k
      using tables_okD(1) [OF tab, of q k] by (auto simp: D(2,6) pen)
    show "named (detach_address p s) j = Some k \<longleftrightarrow>
        pending (detach_address p s) k \<and> j \<in> set (ev_ids (the_event (detach_address p s) k))" for j k
      using tables_okD(2) [OF tab, of j k] by (simp add: na D(5) pen)
    show "distinct (ev_ptrs (the_event (detach_address p s) k)) \<and> distinct (ev_ids (the_event (detach_address p s) k))"
      if "pending (detach_address p s) k" for k
      using that tables_okD(3) [OF tab, of k] by (simp add: D(5,6) pen)
  qed
  then show ?thesis using rest_ok_same [OF D(1)] rest by (simp add: sem_core_rest)
qed

lemma map_event_step:
  assumes inv: "sem_inv env s" and m: "sem_map_event_to_tensor env st addr cb s = Inr (e, t)"
  shows "sem_inv env t" "e = length (sm_events s)" "producer t = (producer s)(addr \<mapsto> e)" "named t = named s"
    "queue_of t = queue_of s" "pending t e" "ev_partial (the_event t e)" "ev_stream (the_event t e) = st"
    "sm_streams t = sm_streams s"
proof -
  let ?d = "detach_address addr s"
  have core: "sem_core env s (queue_of s) {}" and so: "streams_ok s" using inv by (auto simp: sem_inv_def)
  have tab: "tables_ok s" using core by (simp add: sem_core_rest)
  have lt: "\<And>k. producer s addr = Some k \<Longrightarrow> k < length (sm_events s)"
    using tables_okD(1) [OF tab] by (auto simp: pending_def)
  have dis: "distinct (map fst (events_by_addr s))" using tab by (simp add: tables_ok_def)
  note D = detach_address_step [OF lt dis]
  have dcore: "sem_core env ?d (queue_of s) {}" using detach_address_inv [OF core] .
  then have dtab: "tables_ok ?d" and drest: "rest_ok env ?d (queue_of s) {}" by (auto simp: sem_core_rest)
  from m obtain n where n: "event_new env st [addr] [] cb ?d = Inr (e, n)"
    and t: "t = (upd_event e (\<lambda>ev. ev\<lparr> ev_partial := True \<rparr>)
        (n\<lparr> sm_calls := EventMapTensor (ev_handle (the_event n e)) addr # sm_calls n \<rparr>))
      \<lparr> events_by_addr := emplace addr e (events_by_addr n) \<rparr>"
    by (auto simp: sem_map_event_to_tensor_def res_elims Let_def split: if_splits)
  have F: "\<forall>f\<in>{}. f < length (sm_events ?d)" by simp
  note E = event_new_step [OF drest n F]
  have el: "e < length (sm_events n)" by (simp add: E(3))
  have nth: "the_event t k = (if k = e then (the_event n e)\<lparr> ev_partial := True \<rparr> else the_event n k)" for k
    using el by (simp add: t upd_event_nth)
  have pen: "pending t k \<longleftrightarrow> pending ?d k \<or> k = e" for k
  proof -
    have "length (sm_events t) = length (sm_events n)" by (simp add: t)
    then have "pending t k \<longleftrightarrow> pending n k" by (simp add: pending_def nth)
    then show ?thesis using E(17) [of k] by simp
  qed
  have old: "the_event t k = the_event ?d k" if "pending ?d k" for k
    using that E(4) [of k] by (simp add: nth pending_def E(2))
  have ne: "\<not> pending ?d e" by (simp add: pending_def E(2))
  show e: "e = length (sm_events s)" using E(2) D(1) by (simp add: same_rest_def)
  show pe: "pending t e" using pen by simp
  show "ev_partial (the_event t e)" "ev_stream (the_event t e) = st" by (simp_all add: nth E(9))
  show na: "named t = named s" using E(12) D(4) by (simp add: t named_def)
  have "map_of (events_by_addr n) = (producer s)(addr := None)" using E(11) D(2) by (simp add: producer_def)
  then show pr: "producer t = (producer s)(addr \<mapsto> e)" by (auto simp: t producer_def map_of_emplace fun_eq_iff dom_def)
  show st: "sm_streams t = sm_streams s" using E(13) D(1) by (simp add: t same_rest_def)
  show q: "queue_of t = queue_of s" using queue_of_same [OF st] .
  have "tables_ok t"
  proof (rule tables_okI)
    show "distinct (map fst (events_by_addr t))" "distinct (map fst (events_by_str t))"
      using D(3) E(11,12) D(4) tab by (simp_all add: t distinct_emplace tables_ok_def)
    show "named t [] = None" using tab by (simp add: na tables_ok_def)
    show "producer t p = Some k \<longleftrightarrow> pending t k \<and> p \<in> set (ev_ptrs (the_event t k))" for p k
      using tables_okD(1) [OF dtab, of p k] D(2) ne old [of k] by (cases "k = e") (auto simp: pr pen nth E(7))
    show "named t j = Some k \<longleftrightarrow> pending t k \<and> j \<in> set (ev_ids (the_event t k))" for j k
    proof (cases "k = e")
      case True
      have "named s j \<noteq> Some e" using tables_okD(2) [OF tab, of j e] e by (simp add: pending_def)
      then show ?thesis using True by (simp add: na pen nth E(8))
    next
      case False
      have "named ?d = named s" using D(4) by (simp add: named_def)
      then show ?thesis using tables_okD(2) [OF dtab, of j k] old [of k] False by (auto simp: na pen)
    qed
    show "distinct (ev_ptrs (the_event t k)) \<and> distinct (ev_ids (the_event t k))" if "pending t k" for k
      using that tables_okD(3) [OF dtab, of k] old [of k] by (cases "k = e") (auto simp: pen nth E(7,8))
  qed
  moreover have "rest_ok env t (queue_of s) {}"
  proof -
    have pn: "pending t = pending n" using pen E(17) by (simp add: fun_eq_iff)
    have f: "ev_handle (the_event t k) = ev_handle (the_event n k)" "ev_stream (the_event t k) = ev_stream (the_event n k)"
      "ev_done (the_event t k) = ev_done (the_event n k)"
      "\<not> ev_partial (the_event t k) \<longleftrightarrow> \<not> ev_partial (the_event n k) \<and> k \<noteq> e" for k by (simp_all add: nth)
    have c: "sm_cache t = sm_cache n" "sm_called t = sm_called n" "length (sm_events t) = length (sm_events n)"
      "recorded_on h (sm_calls t) = recorded_on h (sm_calls n)" for h by (simp_all add: t)
    have R: "creates_fresh env" "queues_ok n (queue_of s) {e}" "handles_ok env n" "calls_ok n {e}"
      using E(1) by (auto simp: rest_ok_def)
    have "queues_ok t (queue_of s) {}" using R(2) unfolding queues_ok_def pn f by auto
    moreover have "handles_ok env t" using R(3) unfolding handles_ok_def pn f c .
    moreover have "calls_ok t {}" using R(4) unfolding calls_ok_def pn f c by auto
    ultimately show ?thesis using R(1) by (simp add: rest_ok_def)
  qed
  moreover have "streams_ok t"
    by (rule streams_ok_same [OF so st])
      (use E(4) D(1) partial_events_pending [OF core] e in \<open>auto simp: same_rest_def nth\<close>)
  ultimately show "sem_inv env t" by (simp add: sem_inv_def sem_core_rest q)
qed

lemma add_mapped_producer_step:
  assumes inv: "sem_inv env s" and e: "pending s e" "ev_partial (the_event s e)" "ev_stream (the_event s e) = st"
    and st: "st < length (sm_streams s)" "e \<notin> set (queue_of s st)"
  shows "\<exists>t. add_mapped_producer env st e s = Inr t \<and> sem_inv env t \<and> queue_of t = (queue_of s)(st := queue_of s st @ [e])"
proof -
  have core: "sem_core env s (queue_of s) {}" and so: "streams_ok s" using inv by (auto simp: sem_inv_def)
  have tab: "tables_ok s" using core by (simp add: sem_core_rest)
  have "\<forall>p\<in>set (ev_ptrs (the_event s e)). map_of (events_by_addr s) p = Some e"
    using tables_okD(1) [OF tab, of _ e] e(1) by (simp add: producer_def)
  then obtain t where r: "add_mapped_producer env st e s = Inr t" "register_pending_event env st e False s = Inr t"
    by (auto simp: add_mapped_producer_def register_pending_event_def Let_def)
  have b: "if False then e \<in> {} else ev_partial (the_event s e) \<and> e \<notin> {} \<and> e \<notin> set (queue_of s st)" using e(2) st(2) by simp
  note R = register_step [OF core so e(1,3) st(1) b r(2)]
  show ?thesis using r(1) R(1,2,6) by (simp add: sem_inv_def)
qed

lemma record_and_wait_step:
  assumes inv: "sem_inv env s" and st: "st < length (sm_streams s)"
    and r: "record_and_wait_for_event env st other cb s = Inr (e, t)"
  shows "sem_inv env t"
proof -
  from r obtain s1 s2 where n: "event_new env st [] [] cb s = Inr (e, s1)"
    and g: "register_pending_event env st e True s1 = Inr s2" and w: "stream_wait_event env other e s2 = Inr t"
    by (auto simp: record_and_wait_for_event_def res_elims)
  have core: "sem_core env s (queue_of s) {}" and so: "streams_ok s" using inv by (auto simp: sem_inv_def)
  have rest: "rest_ok env s (queue_of s) {}" and tab: "tables_ok s" using core by (auto simp: sem_core_rest)
  have F: "\<forall>f\<in>{}. f < length (sm_events s)" by simp
  note E = event_new_step [OF rest n F]
  have na: "named s [] = None" using tab by (simp add: tables_ok_def)
  then have "map_of (events_by_str s1) [] = None" using E(12) by (simp add: named_def)
  then have "publish_event [] e s1 = Inr s1" by (simp add: publish_event_def E(7))
  then have core1: "sem_core env s1 (queue_of s1) {e}"
    using publish_new_step [OF core F n _ na] queue_of_same [OF E(13)] by simp
  have so1: "streams_ok s1"
    by (rule streams_ok_same [OF so E(13)]) (use E(2,4) partial_events_pending [OF core] in auto)
  have b: "if True then e \<in> {e} else ev_partial (the_event s1 e) \<and> e \<notin> {e} \<and> e \<notin> set (queue_of s1 st)" by simp
  have pe: "pending s1 e" using E(17) by simp
  have st1: "st < length (sm_streams s1)" using st E(13) by simp
  note R = register_step [OF core1 so1 pe E(9) st1 b g]
  show ?thesis using R(1,2) stream_wait_event_step [OF w] by (simp add: sem_inv_def)
qed

section \<open>Streams\<close>

lemma stream_new_step:
  assumes "sem_inv env s"
  shows "sem_inv env (stream_new s)"
proof -
  have "queue_of (stream_new s) = queue_of s"
    by (auto simp: queue_of_def stream_new_def nth_append gc_queue_def fun_eq_iff)
  then show ?thesis using assms sem_core_cong [where t = "stream_new s" and s = s and env = env and Q = "queue_of s" and F = "{}"]
    by (auto simp: sem_inv_def streams_ok_def stream_new_def)
qed

lemma upd_stream_inv:
  assumes inv: "sem_inv env s" and st: "st < length (sm_streams s)"
    and q: "gc_queue (f (sm_streams s ! st)) = gc_queue (sm_streams s ! st)"
    and ph: "gc_phase (f (sm_streams s ! st)) \<noteq> Waiting \<Longrightarrow> pending_cleanups (f (sm_streams s ! st)) \<noteq> []"
    and pa: "\<And>e. e \<in> set (partial_events (f (sm_streams s ! st))) \<Longrightarrow> ev_partial (the_event s e)"
  shows "sem_inv env (upd_stream st f s)" "queue_of (upd_stream st f s) = queue_of s"
proof -
  have "queue_of (upd_stream st f s) = (queue_of s)(st := gc_queue (f (sm_streams s ! st)))"
    by (rule queue_of_upd_stream [OF st])
  then show qq: "queue_of (upd_stream st f s) = queue_of s" using q st by (auto simp: queue_of_def fun_eq_iff)
  have "streams_ok (upd_stream st f s)"
    using inv st ph pa by (auto simp: sem_inv_def streams_ok_def all_set_conv_all_nth upd_stream_nth)
  then show "sem_inv env (upd_stream st f s)"
    using inv sem_core_cong [where t = "upd_stream st f s" and s = s and env = env and Q = "queue_of s" and F = "{}"] by (simp add: sem_inv_def qq)
qed

lemma stream_stop_step:
  assumes "sem_inv env s" "st < length (sm_streams s)"
  shows "sem_inv env (stream_stop st s)"
  unfolding stream_stop_def
proof (rule upd_stream_inv(1) [OF assms])
  have "gc_phase (sm_streams s ! st) = Running \<Longrightarrow> pending_cleanups (sm_streams s ! st) \<noteq> []"
    using assms by (auto simp: sem_inv_def streams_ok_def)
  then show "gc_queue (push_pending None (sm_streams s ! st)) = gc_queue (sm_streams s ! st)"
    by (simp add: gc_queue_def push_pending_def tl_append split: list.splits)
qed (use assms in \<open>auto simp: push_pending_def sem_inv_def streams_ok_def\<close>)

lemma gc_pop_step:
  assumes inv: "sem_inv env s" and st: "st < length (sm_streams s)" "gc_phase (sm_streams s ! st) = Running"
  shows "\<exists>t. gc_pop st s = Inr t \<and> sem_inv env t \<and> queue_of t = queue_of s \<and>
    t = upd_stream st (\<lambda>x. x\<lparr> pending_cleanups := tl (pending_cleanups x), gc_phase := Waiting \<rparr>) s"
proof -
  let ?f = "\<lambda>x. x\<lparr> pending_cleanups := tl (pending_cleanups x), gc_phase := Waiting \<rparr>"
  have "pending_cleanups (sm_streams s ! st) \<noteq> []" using inv st by (auto simp: sem_inv_def streams_ok_def)
  then have "gc_pop st s = Inr (upd_stream st ?f s)" by (simp add: gc_pop_def)
  moreover have "gc_queue (?f (sm_streams s ! st)) = gc_queue (sm_streams s ! st)" using st(2) by (simp add: gc_queue_def)
  moreover have "ev_partial (the_event s e)" if "e \<in> set (partial_events (?f (sm_streams s ! st)))" for e
    using that inv st(1) by (auto simp: sem_inv_def streams_ok_def)
  ultimately show ?thesis using upd_stream_inv [OF inv st(1), of ?f] by simp
qed

text \<open>What a library that works promises: waiting for an event succeeds.\<close>

definition syncs :: "syn_env \<Rightarrow> bool" where
  "syncs env \<longleftrightarrow> (\<forall>h. de_event_sync (se_dev env) h)"

lemma synchronize_events_step:
  assumes "sem_core env s Q F" "distinct es" "\<forall>e\<in>set es. pending s e \<and> e \<notin> F" "syncs env"
  shows "\<exists>t. synchronize_events env es s = Inr t \<and> sem_core env t (\<lambda>st. filter (\<lambda>x. x \<notin> set es) (Q st)) F \<and>
    sm_streams t = sm_streams s \<and> sm_calls t = sm_calls s \<and> length (sm_events t) = length (sm_events s) \<and>
    (\<forall>k. k \<notin> set es \<longrightarrow> the_event t k = the_event s k) \<and> (\<forall>k\<in>set es. ev_done (the_event t k)) \<and>
    producer t = (\<lambda>p. if \<exists>e\<in>set es. producer s p = Some e then None else producer s p) \<and>
    sm_called t = rev (filter (\<lambda>e. ev_cb (the_event s e)) es) @ sm_called s"
  using assms
proof (induction es arbitrary: s Q)
  case (Cons e es)
  from synchronize_event_step [OF Cons.prems(1), of e] Cons.prems(3,4) obtain t where
    t: "synchronize_event env e s = Inr t" "sem_core env t (\<lambda>st. filter (\<lambda>x. x \<noteq> e) (Q st)) F"
      "sm_streams t = sm_streams s" "sm_calls t = sm_calls s" "length (sm_events t) = length (sm_events s)"
      "\<And>k. k \<noteq> e \<Longrightarrow> the_event t k = the_event s k" "ev_done (the_event t e)"
      "producer t = (\<lambda>p. if producer s p = Some e then None else producer s p)"
      "sm_called t = (if ev_cb (the_event s e) then e # sm_called s else sm_called s)"
    by (auto simp: syncs_def)
  have "pending t k \<and> k \<notin> F" if "k \<in> set es" for k
  proof -
    have "k \<noteq> e" using that Cons.prems(2) by auto
    then show ?thesis using that Cons.prems(3) t(5) t(6) [of k] by (simp add: pending_def)
  qed
  with Cons.IH [OF t(2)] Cons.prems(2,4) obtain u where
    u: "synchronize_events env es t = Inr u" "sem_core env u (\<lambda>st. filter (\<lambda>x. x \<notin> set es) (filter (\<lambda>x. x \<noteq> e) (Q st))) F"
      "sm_streams u = sm_streams t" "sm_calls u = sm_calls t" "length (sm_events u) = length (sm_events t)"
      "\<And>k. k \<notin> set es \<Longrightarrow> the_event u k = the_event t k" "\<And>k. k \<in> set es \<Longrightarrow> ev_done (the_event u k)"
      "producer u = (\<lambda>p. if \<exists>e\<in>set es. producer t p = Some e then None else producer t p)"
      "sm_called u = rev (filter (\<lambda>e. ev_cb (the_event t e)) es) @ sm_called t" by auto
  have q: "filter (\<lambda>x. x \<notin> set es) (filter (\<lambda>x. x \<noteq> e) xs) = filter (\<lambda>x. x \<notin> set (e # es)) xs" for xs
    by (simp add: conj_commute)
  have cb: "filter (\<lambda>k. ev_cb (the_event t k)) es = filter (\<lambda>k. ev_cb (the_event s k)) es"
  proof (rule filter_cong)
    fix k assume "k \<in> set es"
    then have "k \<noteq> e" using Cons.prems(2) by auto
    then show "ev_cb (the_event t k) = ev_cb (the_event s k)" using t(6) [of k] by simp
  qed simp
  have "the_event u k = the_event s k" if "k \<notin> set (e # es)" for k using that t(6) u(6) by simp
  moreover have "ev_done (the_event u k)" if "k \<in> set (e # es)" for k
    using that u(6,7) t(7) by (cases "k \<in> set es") auto
  moreover have "producer u = (\<lambda>p. if \<exists>k\<in>set (e # es). producer s p = Some k then None else producer s p)"
    using u(8) t(8) by (auto simp: fun_eq_iff)
  moreover have "sem_core env u (\<lambda>st. filter (\<lambda>x. x \<notin> set (e # es)) (Q st)) F" using u(2) by (simp only: q)
  ultimately show ?case using t u cb by simp
qed simp

section \<open>The rounds of the thread\<close>

lemma gc_take_step:
  assumes inv: "sem_inv env s" and sy: "syncs env" and st: "st < length (sm_streams s)"
    and ph: "gc_phase (sm_streams s ! st) = Waiting"
    and p: "pending_cleanups (sm_streams s ! st) = Some e # rest"
  shows "\<exists>t. gc_take env st s = Inr t \<and> sem_inv env t \<and> length (sm_streams t) = length (sm_streams s) \<and>
    length (sm_events t) = length (sm_events s) \<and>
    gc_phase (sm_streams t ! st) = Running \<and> pending_cleanups (sm_streams t ! st) = Some e # rest \<and>
    (\<forall>k. k \<noteq> st \<longrightarrow> sm_streams t ! k = sm_streams s ! k) \<and>
    (if ev_partial (the_event s e) then
       sm_events t = sm_events s \<and> producer t = producer s \<and> sm_called t = sm_called s \<and>
       partial_events (sm_streams t ! st) = partial_events (sm_streams s ! st) @ [e]
     else
       let ds = e # partial_events (sm_streams s ! st) in
       partial_events (sm_streams t ! st) = [] \<and> (\<forall>k\<in>set ds. ev_done (the_event t k)) \<and>
       (\<forall>k. k \<notin> set ds \<longrightarrow> the_event t k = the_event s k) \<and>
       producer t = (\<lambda>a. if \<exists>k\<in>set ds. producer s a = Some k then None else producer s a) \<and>
       sm_called t = rev (filter (\<lambda>k. ev_cb (the_event s k)) ds) @ sm_called s)"
proof (cases "ev_partial (the_event s e)")
  case True
  let ?f = "\<lambda>x. x\<lparr> partial_events := partial_events x @ [e], gc_phase := Running \<rparr>"
  have "gc_queue (?f (sm_streams s ! st)) = gc_queue (sm_streams s ! st)" using ph p by (simp add: gc_queue_def)
  moreover have "ev_partial (the_event s k)" if "k \<in> set (partial_events (?f (sm_streams s ! st)))" for k
    using that inv st True by (auto simp: sem_inv_def streams_ok_def)
  ultimately have "sem_inv env (upd_stream st ?f s)" using upd_stream_inv(1) [OF inv st, of ?f] p by simp
  then show ?thesis using True p st by (simp add: gc_take_def upd_stream_nth producer_def)
next
  case False
  let ?ds = "e # partial_events (sm_streams s ! st)"
  let ?f = "\<lambda>x. x\<lparr> partial_events := [], gc_phase := Running \<rparr>"
  let ?q = "map the (filter (\<lambda>x. x \<noteq> None) rest)"
  have core: "sem_core env s (queue_of s) {}" and so: "streams_ok s" using inv by (auto simp: sem_inv_def)
  have que: "queues_ok s (queue_of s) {}" using core by (simp add: sem_core_def)
  have q: "queue_of s st = partial_events (sm_streams s ! st) @ e # ?q"
    using st ph p by (simp add: queue_of_def gc_queue_def)
  have d: "distinct (partial_events (sm_streams s ! st) @ e # ?q)" using que q by (metis queues_ok_def)
  then have dd: "distinct ?ds" by simp
  have mem: "pending s k \<and> ev_stream (the_event s k) = st" if "k \<in> set ?ds" for k
  proof -
    have "k \<in> set (queue_of s st)" using that q by auto
    then show ?thesis using que unfolding queues_ok_def by blast
  qed
  then have "\<forall>k\<in>set ?ds. pending s k \<and> k \<notin> {}" by blast
  from synchronize_events_step [OF core dd this sy] obtain u where
    u: "synchronize_events env ?ds s = Inr u" "sem_core env u (\<lambda>k. filter (\<lambda>x. x \<notin> set ?ds) (queue_of s k)) {}"
      "sm_streams u = sm_streams s" "length (sm_events u) = length (sm_events s)"
      "\<And>k. k \<notin> set ?ds \<Longrightarrow> the_event u k = the_event s k" "\<And>k. k \<in> set ?ds \<Longrightarrow> ev_done (the_event u k)"
      "producer u = (\<lambda>a. if \<exists>k\<in>set ?ds. producer s a = Some k then None else producer s a)"
      "sm_called u = rev (filter (\<lambda>k. ev_cb (the_event s k)) ?ds) @ sm_called s" by blast
  let ?t = "upd_stream st ?f u"
  have r: "gc_take env st s = Inr ?t" using p False u(1) by (simp add: gc_take_def)
  have stu: "st < length (sm_streams u)" using st u(3) by simp
  have "queue_of ?t k = filter (\<lambda>x. x \<notin> set ?ds) (queue_of s k)" for k
  proof (cases "k = st")
    case True
    have "queue_of ?t st = ?q" using queue_of_upd_stream [OF stu, of ?f] u(3) p by (simp add: gc_queue_def)
    moreover have "filter (\<lambda>x. x \<notin> set ?ds) (queue_of s st) = ?q"
      unfolding q using d by (auto simp: filter_empty_conv intro!: filter_True)
    ultimately show ?thesis using True by simp
  next
    case False
    have "x \<notin> set ?ds" if "x \<in> set (queue_of s k)" for x
      using that mem [of x] que False unfolding queues_ok_def by blast
    then have "filter (\<lambda>x. x \<notin> set ?ds) (queue_of s k) = queue_of s k" by (simp add: filter_True)
    moreover have "queue_of ?t k = queue_of s k"
      using queue_of_upd_stream [OF stu, of ?f] queue_of_same [OF u(3)] False by simp
    ultimately show ?thesis by simp
  qed
  then have qt: "queue_of ?t = (\<lambda>k. filter (\<lambda>x. x \<notin> set ?ds) (queue_of s k))" by (rule ext)
  have "sem_core env ?t (queue_of ?t) {}" unfolding qt by (rule sem_core_cong [THEN iffD2, OF _ _ _ _ _ _ u(2)]) simp_all
  moreover have "streams_ok ?t"
    unfolding streams_ok_def
  proof (intro ballI conjI impI)
    fix x assume "x \<in> set (sm_streams ?t)"
    then obtain k where k: "k < length (sm_streams s)" "x = sm_streams ?t ! k" using u(3) by (auto simp: in_set_conv_nth)
    have so': "(gc_phase (sm_streams s ! k) \<noteq> Waiting \<longrightarrow> pending_cleanups (sm_streams s ! k) \<noteq> []) \<and>
        (\<forall>e\<in>set (partial_events (sm_streams s ! k)). ev_partial (the_event s e))"
      using so k(1) by (auto simp: streams_ok_def)
    then show "pending_cleanups x \<noteq> []" if "gc_phase x \<noteq> Waiting"
      using that k stu u(3) p by (auto simp: upd_stream_nth split: if_splits)
    fix y assume y: "y \<in> set (partial_events x)"
    then have "k \<noteq> st" "y \<in> set (partial_events (sm_streams s ! k))" using k stu u(3) by (auto simp: upd_stream_nth split: if_splits)
    moreover from this have "y \<in> set (queue_of s k)" using k(1) by (simp add: queue_of_def gc_queue_def)
    ultimately have "y \<notin> set ?ds" using mem [of y] que unfolding queues_ok_def by blast
    then show "ev_partial (the_event ?t y)"
      using u(5) [of y] so' \<open>y \<in> set (partial_events (sm_streams s ! k))\<close> by simp
  qed
  ultimately have "sem_inv env ?t" by (simp add: sem_inv_def)
  moreover have "producer ?t = producer u" by (simp add: producer_def)
  ultimately show ?thesis using False r u stu p by (simp add: upd_stream_nth Let_def)
qed

end
