(* ===== verification/Stream_Run.thy ===== *)
theory Stream_Run
  imports Stream_Steps
begin

text \<open>
  Runs of the manager: what the thread of a stream has completed after working off its queue, and
  the states that clients and threads reach together.
\<close>

section \<open>The order of completion\<close>

text \<open>
  The events are completed in the order of registration, except that a partial one waits for the
  next event that is not partial. The result is the list of completed events, in order, and the
  partial ones that are left.
\<close>

fun gc_spec :: "(nat \<Rightarrow> bool) \<Rightarrow> nat list \<Rightarrow> nat list \<Rightarrow> nat list \<times> nat list" where
  "gc_spec partial ps [] = ([], ps)"
| "gc_spec partial ps (e # es) =
     (if partial e then gc_spec partial (ps @ [e]) es
      else (let (ds, qs) = gc_spec partial [] es in (e # ps @ ds, qs)))"

lemma gc_spec_cong: "(\<And>e. e \<in> set es \<Longrightarrow> p e = q e) \<Longrightarrow> gc_spec p ps es = gc_spec q ps es"
  by (induction es arbitrary: ps) auto

lemma gc_spec_set: "gc_spec p ps es = (ds, qs) \<Longrightarrow> set ds \<union> set qs = set ps \<union> set es"
  by (induction es arbitrary: ps ds) (fastforce split: if_splits prod.splits)+

lemma gc_spec_real: "gc_spec p ps es = (ds, qs) \<Longrightarrow> e \<in> set es \<Longrightarrow> \<not> p e \<Longrightarrow> e \<in> set ds"
  by (induction es arbitrary: ps ds) (fastforce split: if_splits prod.splits)+

lemma gc_spec_all: "gc_spec p ps (es @ [e]) = (ds, qs) \<Longrightarrow> \<not> p e \<Longrightarrow> qs = []"
  by (induction es arbitrary: ps ds) (auto split: if_splits prod.splits)

lemma gc_spec_partial: "\<forall>e\<in>set es. p e \<Longrightarrow> gc_spec p ps es = ([], ps @ es)"
  by (induction es arbitrary: ps) auto

section \<open>Working off the queue\<close>

lemma gc_rounds_step:
  assumes "sem_inv env s" "syncs env" "st < length (sm_streams s)" "gc_phase (sm_streams s ! st) = Running"
    "tl (pending_cleanups (sm_streams s ! st)) = map Some es @ rest"
    "gc_spec (\<lambda>e. ev_partial (the_event s e)) (partial_events (sm_streams s ! st)) es = (ds, ps)"
  shows "\<exists>t. gc_rounds env st (length es) s = Inr t \<and> sem_inv env t \<and>
    length (sm_streams t) = length (sm_streams s) \<and> length (sm_events t) = length (sm_events s) \<and>
    gc_phase (sm_streams t ! st) = Running \<and> tl (pending_cleanups (sm_streams t ! st)) = rest \<and>
    partial_events (sm_streams t ! st) = ps \<and>
    (\<forall>k\<in>set ds. ev_done (the_event t k)) \<and> (\<forall>k. k \<notin> set ds \<longrightarrow> the_event t k = the_event s k) \<and>
    producer t = (\<lambda>a. if \<exists>k\<in>set ds. producer s a = Some k then None else producer s a) \<and>
    sm_called t = rev (filter (\<lambda>k. ev_cb (the_event s k)) ds) @ sm_called s"
  using assms
proof (induction es arbitrary: s ds)
  case (Cons e es)
  note st = Cons.prems(3)
  let ?part = "\<lambda>k. ev_partial (the_event s k)"
  from gc_pop_step [OF Cons.prems(1,3,4)] obtain u where u: "gc_pop st s = Inr u" "sem_inv env u" "queue_of u = queue_of s"
    and ud: "u = upd_stream st (\<lambda>x. x\<lparr> pending_cleanups := tl (pending_cleanups x), gc_phase := Waiting \<rparr>) s" by blast
  have us: "sm_events u = sm_events s" "length (sm_streams u) = length (sm_streams s)" "producer u = producer s"
    "sm_called u = sm_called s" "gc_phase (sm_streams u ! st) = Waiting"
    "pending_cleanups (sm_streams u ! st) = Some e # map Some es @ rest"
    "partial_events (sm_streams u ! st) = partial_events (sm_streams s ! st)"
    using st Cons.prems(5) by (simp_all add: ud upd_stream_nth producer_def)
  have stu: "st < length (sm_streams u)" using st us(2) by simp
  from gc_take_step [OF u(2) Cons.prems(2) stu us(5,6)] obtain v where
    w: "gc_take env st u = Inr v" "sem_inv env v" "length (sm_streams v) = length (sm_streams u)"
      "length (sm_events v) = length (sm_events u)" "gc_phase (sm_streams v ! st) = Running"
      "pending_cleanups (sm_streams v ! st) = Some e # map Some es @ rest"
      "if ev_partial (the_event u e) then sm_events v = sm_events u \<and> producer v = producer u \<and> sm_called v = sm_called u \<and>
         partial_events (sm_streams v ! st) = partial_events (sm_streams u ! st) @ [e]
       else let fs = e # partial_events (sm_streams u ! st) in
         partial_events (sm_streams v ! st) = [] \<and> (\<forall>k\<in>set fs. ev_done (the_event v k)) \<and>
         (\<forall>k. k \<notin> set fs \<longrightarrow> the_event v k = the_event u k) \<and>
         producer v = (\<lambda>a. if \<exists>k\<in>set fs. producer u a = Some k then None else producer u a) \<and>
         sm_called v = rev (filter (\<lambda>k. ev_cb (the_event u k)) fs) @ sm_called u" by blast
  have v: "gc_take env st u = Inr v" "sem_inv env v" "length (sm_streams v) = length (sm_streams s)"
      "length (sm_events v) = length (sm_events s)" "gc_phase (sm_streams v ! st) = Running"
      "pending_cleanups (sm_streams v ! st) = Some e # map Some es @ rest"
    using w us(1,2) by simp_all
  have part: "sm_events v = sm_events s \<and> producer v = producer s \<and> sm_called v = sm_called s \<and>
       partial_events (sm_streams v ! st) = partial_events (sm_streams s ! st) @ [e]" if "?part e"
    using w(7) that unfolding us Let_def by simp
  have real: "partial_events (sm_streams v ! st) = [] \<and>
       (\<forall>k\<in>set (e # partial_events (sm_streams s ! st)). ev_done (the_event v k)) \<and>
       (\<forall>k. k \<notin> set (e # partial_events (sm_streams s ! st)) \<longrightarrow> the_event v k = the_event s k) \<and>
       producer v = (\<lambda>a. if \<exists>k\<in>set (e # partial_events (sm_streams s ! st)). producer s a = Some k then None else producer s a) \<and>
       sm_called v = rev (filter (\<lambda>k. ev_cb (the_event s k)) (e # partial_events (sm_streams s ! st))) @ sm_called s" if "\<not> ?part e"
    using w(7) unfolding us Let_def if_not_P [OF that] .
  have stv: "st < length (sm_streams v)" using st v(3) by simp
  have tlv: "tl (pending_cleanups (sm_streams v ! st)) = map Some es @ rest" using v(6) by simp
  show ?case
  proof (cases "?part e")
    case True
    then have "gc_spec (\<lambda>k. ev_partial (the_event v k)) (partial_events (sm_streams v ! st)) es = (ds, ps)"
      using Cons.prems(6) part by simp
    note ih = Cons.IH [OF v(2) Cons.prems(2) stv v(5) tlv this]
    have pv: "sm_events v = sm_events s" "producer v = producer s" "sm_called v = sm_called s"
      using part [OF True] by simp_all
    show ?thesis using ih u(1) v(1) unfolding pv v(3) by simp
  next
    case False
    let ?ps = "partial_events (sm_streams s ! st)"
    note re = real [OF False]
    obtain d q where dq: "gc_spec ?part [] es = (d, q)" by (cases "gc_spec ?part [] es")
    then have ds: "ds = e # ?ps @ d" "ps = q" using Cons.prems(6) False by auto
    have "queue_of s st = ?ps @ e # es @ map the (filter (\<lambda>x. x \<noteq> None) rest)"
      using st Cons.prems(4,5) by (simp add: queue_of_def gc_queue_def comp_def)
    moreover have "distinct (queue_of s st)" using Cons.prems(1) by (auto simp: sem_inv_def sem_core_def queues_ok_def)
    ultimately have dis: "set es \<inter> set (e # ?ps) = {}" by auto
    then have old: "the_event v k = the_event s k" if "k \<in> set es" for k using re that by blast
    then have "gc_spec (\<lambda>k. ev_partial (the_event v k)) (partial_events (sm_streams v ! st)) es = (d, ps)"
      using dq re ds(2) gc_spec_cong [of es "\<lambda>k. ev_partial (the_event v k)" ?part "[]"] by simp
    from Cons.IH [OF v(2) Cons.prems(2) stv v(5) tlv this] obtain t where
      t: "gc_rounds env st (length es) v = Inr t" "sem_inv env t" "length (sm_streams t) = length (sm_streams v)"
        "length (sm_events t) = length (sm_events v)"
        "gc_phase (sm_streams t ! st) = Running" "tl (pending_cleanups (sm_streams t ! st)) = rest"
        "partial_events (sm_streams t ! st) = ps"
        "\<And>k. k \<in> set d \<Longrightarrow> ev_done (the_event t k)" "\<And>k. k \<notin> set d \<Longrightarrow> the_event t k = the_event v k"
        "producer t = (\<lambda>a. if \<exists>k\<in>set d. producer v a = Some k then None else producer v a)"
        "sm_called t = rev (filter (\<lambda>k. ev_cb (the_event v k)) d) @ sm_called v" by blast
    have sub: "set d \<subseteq> set es" using gc_spec_set [OF dq] by auto
    have "filter (\<lambda>k. ev_cb (the_event v k)) d = filter (\<lambda>k. ev_cb (the_event s k)) d"
      using sub old by (intro filter_cong) auto
    then have "sm_called t = rev (filter (\<lambda>k. ev_cb (the_event s k)) ds) @ sm_called s"
      using t(11) re ds by simp
    moreover have "ev_done (the_event t k)" if "k \<in> set ds" for k
      using that t(8,9) re ds(1) by (cases "k \<in> set d") auto
    moreover have "the_event t k = the_event s k" if "k \<notin> set ds" for k
      using that t(9) [of k] re ds(1) by auto
    moreover have "producer t = (\<lambda>a. if \<exists>k\<in>set ds. producer s a = Some k then None else producer s a)"
      using t(10) re ds(1) by (auto simp: fun_eq_iff)
    ultimately show ?thesis using u(1) v t ds by simp
  qed
qed simp

section \<open>Reachable states\<close>

text \<open>
  The steps of clients and of the threads. Clients give a new name to each event they name, do
  not register an event twice and on no other stream than its own.
\<close>

inductive sem_step :: "syn_env \<Rightarrow> sem \<Rightarrow> sem \<Rightarrow> bool" for env where
  stream: "sem_step env s (stream_new s)"
| stop: "st < length (sm_streams s) \<Longrightarrow> sem_step env s (stream_stop st s)"
| add_producer: "st < length (sm_streams s) \<Longrightarrow> named s i = None \<Longrightarrow>
    add_producer env addrs i st cb s = Inr (e, t) \<Longrightarrow> sem_step env s t"
| map_event: "sem_map_event_to_tensor env st addr cb s = Inr (e, t) \<Longrightarrow> sem_step env s t"
| add_mapped: "pending s e \<Longrightarrow> ev_stream (the_event s e) = st \<Longrightarrow> st < length (sm_streams s) \<Longrightarrow>
    e \<notin> set (queue_of s st) \<Longrightarrow> register_mapped_producer env st e s = Inr t \<Longrightarrow> sem_step env s t"
| record_and_wait: "st < length (sm_streams s) \<Longrightarrow>
    record_and_wait_for_event env st other cb s = Inr (e, t) \<Longrightarrow> sem_step env s t"
| add_id: "i \<noteq> [] \<Longrightarrow> named s i = None \<Longrightarrow> sem_step env s (add_event_id old i s)"
| wait_id: "enqueue_wait_id env i st s = Inr t \<Longrightarrow> sem_step env s t"
| wait_addrs: "add_wait_events_on_stream env ps st s = Inr t \<Longrightarrow> sem_step env s t"
| get_waits: "get_wait_events_on_stream env ps s = Inr (es, t) \<Longrightarrow> sem_step env s t"
| wait_ready: "wait_until_address_ready env p s = Inr t \<Longrightarrow> sem_step env s t"
| add_future: "add_future env p f s = Inr t \<Longrightarrow> sem_step env s t"
| wait_futures: "wait_for_all_futures env s = Inr t \<Longrightarrow> sem_step env s t"
| pop: "st < length (sm_streams s) \<Longrightarrow> gc_phase (sm_streams s ! st) = Running \<Longrightarrow> gc_pop st s = Inr t \<Longrightarrow> sem_step env s t"
| take: "st < length (sm_streams s) \<Longrightarrow> gc_phase (sm_streams s ! st) = Waiting \<Longrightarrow> gc_take env st s = Inr t \<Longrightarrow> sem_step env s t"

inductive sem_reach :: "syn_env \<Rightarrow> sem \<Rightarrow> bool" for env where
  new: "sem_reach env (sem_new flag)"
| step: "sem_reach env s \<Longrightarrow> sem_step env s t \<Longrightarrow> sem_reach env t"

lemma wait_for_futures_inv: "wait_for_futures env ps s = Inr t \<Longrightarrow> sem_inv env t \<longleftrightarrow> sem_inv env s"
proof (induction ps arbitrary: s)
  case (Cons p ps)
  then obtain u where "wait_for_future env p s = Inr u" "wait_for_futures env ps u = Inr t" by (auto simp: res_elims)
  then show ?case using Cons.IH wait_for_future_inv by blast
qed simp

lemma enqueue_wait_event_inv:
  assumes "enqueue_wait_event env p st s = Inr t"
  shows "sem_inv env t \<longleftrightarrow> sem_inv env s"
proof -
  from assms obtain u where u: "wait_for_future env p s = Inr u"
    "(case map_of (events_by_addr u) p of None \<Rightarrow> Inr u | Some e \<Rightarrow> stream_wait_event env st e u) = Inr t"
    by (auto simp: enqueue_wait_event_def res_elims)
  then show ?thesis using wait_for_future_inv [OF u(1)] stream_wait_event_step [of env st _ u t]
    by (auto split: option.splits)
qed

lemma add_wait_events_inv: "add_wait_events_on_stream env ps st s = Inr t \<Longrightarrow> sem_inv env t \<longleftrightarrow> sem_inv env s"
proof (induction ps arbitrary: s)
  case (Cons p ps)
  then obtain u where "enqueue_wait_event env p st s = Inr u" "add_wait_events_on_stream env ps st u = Inr t"
    by (auto simp: res_elims)
  then show ?case using Cons.IH enqueue_wait_event_inv by blast
qed simp

lemma get_wait_events_inv: "get_wait_events_on_stream env ps s = Inr (es, t) \<Longrightarrow> sem_inv env t \<longleftrightarrow> sem_inv env s"
proof (induction ps arbitrary: s es)
  case (Cons p ps)
  then obtain u fs where "wait_for_future env p s = Inr u" "get_wait_events_on_stream env ps u = Inr (fs, t)"
    by (auto simp: res_elims get_wait_event_def)
  then show ?case using Cons.IH wait_for_future_inv by blast
qed simp

lemma gc_take_inv:
  assumes inv: "sem_inv env s" and sy: "syncs env" and st: "st < length (sm_streams s)"
    and ph: "gc_phase (sm_streams s ! st) = Waiting" and t: "gc_take env st s = Inr t"
  shows "sem_inv env t"
proof (cases "pending_cleanups (sm_streams s ! st)")
  case Nil
  then show ?thesis using t by (simp add: gc_take_def)
next
  case (Cons x xs)
  show ?thesis
  proof (cases x)
    case None
    let ?f = "\<lambda>x. x\<lparr> gc_phase := Ended \<rparr>"
    have "gc_queue (?f (sm_streams s ! st)) = gc_queue (sm_streams s ! st)" using ph by (simp add: gc_queue_def)
    moreover have "ev_partial (the_event s k)" if "k \<in> set (partial_events (?f (sm_streams s ! st)))" for k
      using that inv st by (auto simp: sem_inv_def streams_ok_def)
    ultimately show ?thesis using upd_stream_inv(1) [OF inv st, of ?f] t Cons None by (simp add: gc_take_def)
  next
    case (Some e)
    then show ?thesis using gc_take_step [OF inv sy st ph] Cons t by auto
  qed
qed

lemma sem_step_inv:
  assumes "sem_step env s t" "sem_inv env s" "syncs env"
  shows "sem_inv env t"
  using assms
proof cases
  case (add_mapped e st)
  then have "ev_partial (the_event s e)" "add_mapped_producer env st e s = Inr t"
    by (auto simp: register_mapped_producer_def split: if_splits)
  then show ?thesis using add_mapped_producer_step [OF assms(2), of e st] add_mapped by auto
next
  case (wait_id i st)
  then show ?thesis using stream_wait_event_step [of env st _ s t] assms(2)
    by (auto simp: enqueue_wait_id_def split: option.splits)
next
  case (wait_ready p)
  then have "wait_for_future env p s = Inr t"
    by (auto simp: wait_until_address_ready_def res_elims split: option.splits)
  then show ?thesis using wait_for_future_inv assms(2) by blast
next
  case (pop st)
  then show ?thesis using gc_pop_step [OF assms(2)] by auto
next
  case (wait_futures)
  then show ?thesis using wait_for_futures_inv assms(2) by (auto simp: wait_for_all_futures_def)
qed (use assms(2,3) in \<open>auto intro: stream_new_step stream_stop_step add_producer_step(1) map_event_step(1) record_and_wait_step
  add_event_id_step(1) gc_take_inv simp: add_wait_events_inv get_wait_events_inv add_future_inv\<close>)

lemma sem_reach_inv: "sem_reach env s \<Longrightarrow> creates_fresh env \<Longrightarrow> syncs env \<Longrightarrow> sem_inv env s"
  by (induction rule: sem_reach.induct) (auto simp: sem_inv_new intro: sem_step_inv)

section \<open>Names and futures that go wrong\<close>

lemma unmap_keys_fails:
  assumes "distinct ks" "\<forall>k\<in>set ks. map_of m k = Some e" "distinct (map fst m)" "i \<in> set ks \<or> map_of m i \<noteq> Some e"
  shows "unmap_keys (ks @ [i]) e m = Inl Fatal"
  using assms
proof (induction ks arbitrary: m)
  case (Cons k ks)
  have "unmap_keys (ks @ [i]) e (AList.delete k m) = Inl Fatal"
    using Cons.prems by (intro Cons.IH) (auto simp: map_of_delete distinct_delete)
  then show ?case using Cons.prems(2) by simp
qed simp

lemma duplicate_name_step:
  assumes inv: "sem_inv env s" and n: "named s old = Some e" "named s i = Some f"
  shows "synchronize_event env e (add_event_id old i s) = Inl Fatal"
proof (cases "event_synchronize env e (add_event_id old i s)")
  case (Inl x)
  then show ?thesis by (auto simp: synchronize_event_def event_synchronize_def split: if_splits)
next
  case (Inr x)
  have tab: "tables_ok s" using inv by (simp add: sem_inv_def sem_core_def)
  have e: "pending s e" using tables_okD(2) [OF tab] n(1) by blast
  then have el: "e < length (sm_events s)" by (simp add: pending_def)
  have d: "distinct (map fst (events_by_addr s))" "distinct (map fst (events_by_str s))" using tab by (auto simp: tables_ok_def)
  have "emplace i e (events_by_str s) = events_by_str s" using n(2) by (simp add: emplace_def named_def)
  then have t: "add_event_id old i s = push_id e i s" using n(1) by (simp add: add_event_id_def named_def push_id_def upd_event_def)
  have ids: "ev_ids (the_event (push_id e i s) e) = ev_ids (the_event s e) @ [i]"
    "ev_ptrs (the_event (push_id e i s) e) = ev_ptrs (the_event s e)"
    using el by (simp_all add: push_id_def upd_event_nth)
  have str: "events_by_str (push_id e i s) = events_by_str s" "events_by_addr (push_id e i s) = events_by_addr s"
    by (simp_all add: push_id_def)
  note D = tables_okD(3) [OF tab e]
  have k: "\<forall>p\<in>set (ev_ptrs (the_event s e)). map_of (events_by_addr s) p = Some e"
    "\<forall>j\<in>set (ev_ids (the_event s e)). map_of (events_by_str s) j = Some e"
    using tables_okD(1,2) [OF tab, of _ e] e by (auto simp: producer_def named_def)
  obtain m where m: "unmap_keys (ev_ptrs (the_event s e)) e (events_by_addr s) = Inr m"
    using unmap_keys_spec [OF conjunct1 [OF D] k(1) d(1)] by blast
  have "i \<in> set (ev_ids (the_event s e)) \<or> map_of (events_by_str s) i \<noteq> Some e"
    using tables_okD(2) [OF tab, of i f] n(2) by (auto simp: named_def)
  note unmap_keys_fails [OF conjunct2 [OF D] k(2) d(2) this]
  then show ?thesis using Inr m by (simp add: synchronize_event_def t ids str)
qed

end
