(* ===== verification/Stream_Example.thy ===== *)
theory Stream_Example
  imports Stream_Run Pool_Example
begin

text \<open>
  A manager with two streams; an event on the first for the addresses 4096 and 8192 under the name
  \<open>a\<close>; then a partial one and one without a name. The states at which the properties are applied.
\<close>

definition demo_syn :: syn_env where
  "demo_syn = \<lparr> se_dev = demo_env, se_stream_wait = (\<lambda>_ _. True), se_map_tensor = (\<lambda>_ _. True),
     se_ready = (\<lambda>f. f < 10) \<rparr>"

definition sem_of :: "(nat \<times> sem) res \<Rightarrow> sem" where
  "sem_of r = (case r of Inr (_, s) \<Rightarrow> s | Inl _ \<Rightarrow> sem_new 0)"

definition demo_streams :: sem where
  "demo_streams = stream_new (stream_new (sem_new 0))"

definition demo_event :: sem where
  "demo_event = sem_of (add_producer demo_syn [8192, 4096, 8192] ''a'' 0 True demo_streams)"

definition demo_events :: sem where
  "demo_events = sem_of (add_producer demo_syn [4096, 100] ''b'' 0 False
     (sem_of (sem_map_event_to_tensor demo_syn 0 300 True demo_event)))"

lemma demo_syn_ok: "creates_fresh demo_syn" "syncs demo_syn"
  by (auto simp: creates_fresh_def syncs_def demo_syn_def demo_env_def)

lemma demo_streams_facts:
  "sem_reach demo_syn demo_streams" "length (sm_streams demo_streams) = 2" "named demo_streams i = None"
  unfolding demo_streams_def
  by (intro sem_reach.step [OF sem_reach.step [OF sem_reach.new [of _ 0] sem_step.stream] sem_step.stream])
    (simp_all add: stream_new_def sem_new_def named_def)

lemmas demo_defs = demo_streams_def stream_new_def sem_new_def event_handle_cache_new_def demo_syn_def demo_env_def
  add_producer_def add_producer_event_def event_new_def get_free_handle_def publish_event_def detach_address_def
  emplace_def register_pending_event_def upd_stream_def push_pending_def upd_event_def remove_device_ptr_def
  NUM_EVENTS_MAX_def sem_of_def nth_append

lemma demo_event_run: "add_producer demo_syn [8192, 4096, 8192] ''a'' 0 True demo_streams = Inr (0, demo_event)"
  by (simp add: demo_event_def) (simp add: demo_defs Let_def)

lemma demo_event_facts:
  "sem_reach demo_syn demo_event" "producer demo_event 4096 = Some 0" "named demo_event ''a'' = Some 0"
  "pending demo_event 0" "ev_stream (the_event demo_event 0) = 0" "\<not> ev_partial (the_event demo_event 0)"
  "length (sm_streams demo_event) = 2" "gc_phase (sm_streams demo_event ! 0) = Running"
  "tl (pending_cleanups (sm_streams demo_event ! 0)) = [Some 0]" "partial_events (sm_streams demo_event ! 0) = []"
  "future_by_addr demo_event = []" "sm_calls demo_event = [EventRecord 1 0]" "ev_handle (the_event demo_event 0) = 1"
  "ev_cb (the_event demo_event 0)" "sm_called demo_event = []" "named demo_event ''b'' = None"
proof -
  have "sem_step demo_syn demo_streams demo_event"
    by (rule sem_step.add_producer [OF _ demo_streams_facts(3) demo_event_run]) (simp add: demo_streams_facts)
  then show "sem_reach demo_syn demo_event" by (rule sem_reach.step [OF demo_streams_facts(1)])
qed (simp_all add: demo_event_def demo_defs Let_def producer_def named_def pending_def)

end
