(* ===== verification/Host_Memory.thy ===== *)
theory Host_Memory
  imports Pool_Client
begin

text \<open>
  The cache of host buffers (\<open>host_memory.h\<close>, \<open>host_memory.cpp\<close>). Buffers come from
  \<open>synHostMalloc\<close>; one that is freed stays in a set ordered by size, from which the next request
  takes the smallest that is large enough. When the library is out of memory the cache is dropped
  and the request repeated.
\<close>

section \<open>The library\<close>

text \<open>
  What \<open>synHostMalloc\<close> returns, given the buffers it has handed out and not got back, and whether
  \<open>synHostFree\<close> succeeds. The list of these buffers is part of the state below.
\<close>

datatype host_status = Host_ok nat | Host_oom | Host_error

record host_lib =
  hl_malloc :: "nat \<Rightarrow> (nat \<times> nat) list \<Rightarrow> host_status"
  hl_free :: "nat \<Rightarrow> bool"
  hl_cache_enabled :: bool

text \<open>The library hands out memory that it has not handed out already.\<close>

definition lib_ok :: "host_lib \<Rightarrow> bool" where
  "lib_ok env \<longleftrightarrow> (\<forall>n bs p. hl_malloc env n bs = Host_ok p \<longrightarrow>
     0 < p \<and> (\<forall>(q, b)\<in>set bs. p + n \<le> q \<or> q + b \<le> p))"

section \<open>State and operations\<close>

text \<open>A \<open>BlockSize\<close> is the pair of size and address, in the order of \<open>BlockComparator\<close>.\<close>

record host_block =
  hb_size :: nat
  hb_allocated :: bool

record host_memory =
  available :: "(nat \<times> nat) list"
  blocks :: "(nat \<times> host_block) list"
  hl_buffers :: "(nat \<times> nat) list"

definition host_memory_new :: host_memory where
  "host_memory_new = \<lparr> available = [], blocks = [], hl_buffers = [] \<rparr>"

definition BlockComparator :: "nat \<times> nat \<Rightarrow> nat \<times> nat \<Rightarrow> bool" where
  "BlockComparator a b \<longleftrightarrow> (if fst a \<noteq> fst b then fst a < fst b else snd a < snd b)"

fun available_insert :: "nat \<times> nat \<Rightarrow> (nat \<times> nat) list \<Rightarrow> (nat \<times> nat) list" where
  "available_insert a [] = [a]"
| "available_insert a (b # bs) =
     (if BlockComparator a b then a # b # bs
      else if BlockComparator b a then b # available_insert a bs
      else b # bs)"

definition host_lower_bound :: "nat \<Rightarrow> (nat \<times> nat) list \<Rightarrow> (nat \<times> nat) option" where
  "host_lower_bound n bs = find (\<lambda>b. \<not> BlockComparator b (n, 0)) bs"

definition host_free_memory :: "host_lib \<Rightarrow> nat \<Rightarrow> (nat \<times> nat) list \<Rightarrow> (nat \<times> nat) list" where
  "host_free_memory env p bs = (if hl_free env p then filter (\<lambda>b. fst b \<noteq> p) bs else bs)"

definition host_dropCache :: "host_lib \<Rightarrow> host_memory \<Rightarrow> host_memory" where
  "host_dropCache env m =
     m\<lparr> available := [],
        hl_buffers := fold (host_free_memory env)
          (map fst (filter (\<lambda>(p, b). \<not> hb_allocated b) (blocks m))) (hl_buffers m),
        blocks := filter (\<lambda>(p, b). hb_allocated b) (blocks m) \<rparr>"

text \<open>\<open>synHostMalloc\<close>, and once more without the cache; the result is the status and \<open>*ptr\<close>.\<close>

definition host_new_block :: "host_lib \<Rightarrow> nat \<Rightarrow> nat \<Rightarrow> host_memory \<Rightarrow> bool \<times> nat \<times> host_memory" where
  "host_new_block env n p m =
     (True, p, m\<lparr> hl_buffers := (p, n) # hl_buffers m,
                 blocks := (case map_of (blocks m) p of
                   None \<Rightarrow> (p, \<lparr> hb_size = n, hb_allocated = True \<rparr>) # blocks m
                 | Some b \<Rightarrow> blocks m) \<rparr>)"

definition host_uncached_malloc :: "host_lib \<Rightarrow> nat \<Rightarrow> host_memory \<Rightarrow> bool \<times> nat \<times> host_memory" where
  "host_uncached_malloc env n m =
     (case hl_malloc env n (hl_buffers m) of
        Host_ok p \<Rightarrow> host_new_block env n p m
      | Host_error \<Rightarrow> (False, 0, m)
      | Host_oom \<Rightarrow>
          (let m = host_dropCache env m in
           case hl_malloc env n (hl_buffers m) of
             Host_ok p \<Rightarrow> host_new_block env n p m
           | _ \<Rightarrow> (False, 0, m)))"

definition host_malloc :: "host_lib \<Rightarrow> nat \<Rightarrow> host_memory \<Rightarrow> (bool \<times> nat \<times> host_memory) res" where
  "host_malloc env n m =
     (case (if hl_cache_enabled env then host_lower_bound n (available m) else None) of
        Some (sz, p) \<Rightarrow>
          (case map_of (blocks m) p of
             None \<Rightarrow> Inl Out_of_range
           | Some b \<Rightarrow>
               Inr (True, p, m\<lparr> blocks := AList.update p (b\<lparr> hb_allocated := True \<rparr>) (blocks m),
                               available := remove1 (sz, p) (available m) \<rparr>))
      | None \<Rightarrow> Inr (host_uncached_malloc env n m))"

definition host_release :: "host_lib \<Rightarrow> bool \<Rightarrow> nat \<Rightarrow> host_memory \<Rightarrow> host_memory res" where
  "host_release env cached p m =
     (if p = 0 then Inr m
      else
        (case map_of (blocks m) p of
           None \<Rightarrow> Inl Assert_failed
         | Some b \<Rightarrow>
             assertR (hb_allocated b)
               (if cached then
                  Inr (m\<lparr> blocks := AList.update p (b\<lparr> hb_allocated := False \<rparr>) (blocks m),
                         available := available_insert (hb_size b, p) (available m) \<rparr>)
                else
                  Inr (m\<lparr> hl_buffers := host_free_memory env p (hl_buffers m),
                         blocks := AList.delete p (blocks m) \<rparr>))))"

definition host_free :: "host_lib \<Rightarrow> nat \<Rightarrow> host_memory \<Rightarrow> host_memory res" where
  "host_free env p m = host_release env (hl_cache_enabled env) p m"

definition host_uncached_free :: "host_lib \<Rightarrow> nat \<Rightarrow> host_memory \<Rightarrow> host_memory res" where
  "host_uncached_free env p m = host_release env False p m"

definition is_host_memory :: "nat \<Rightarrow> host_memory \<Rightarrow> bool" where
  "is_host_memory p m =
     (if p = 0 then False
      else (case map_of (blocks m) p of None \<Rightarrow> False | Some b \<Rightarrow> hb_allocated b))"

section \<open>The contract of an allocator\<close>

definition block_at :: "host_memory \<Rightarrow> nat \<Rightarrow> host_block option" where
  "block_at m = map_of (blocks m)"

definition host_live :: "host_memory \<Rightarrow> (nat \<times> nat) set" where
  "host_live m = {(p, n). \<exists>b. block_at m p = Some b \<and> hb_allocated b \<and> hb_size b = n}"

definition separate :: "(nat \<times> nat) set \<Rightarrow> bool" where
  "separate B \<longleftrightarrow> (\<forall>p a. (p, a) \<in> B \<longrightarrow> 0 < p \<and> 0 < a) \<and>
     (\<forall>p a q b. (p, a) \<in> B \<and> (q, b) \<in> B \<longrightarrow> (p, a) = (q, b) \<or> p + a \<le> q \<or> q + b \<le> p)"

definition host_inv :: "host_lib \<Rightarrow> host_memory \<Rightarrow> bool" where
  "host_inv env m \<longleftrightarrow> lib_ok env \<and> distinct (map fst (blocks m)) \<and> sorted_wrt BlockComparator (available m) \<and>
     separate (set (hl_buffers m)) \<and>
     (\<forall>p b. block_at m p = Some b \<longrightarrow> (p, hb_size b) \<in> set (hl_buffers m)) \<and>
     (\<forall>n p. (n, p) \<in> set (available m) \<longleftrightarrow> (\<exists>b. block_at m p = Some b \<and> \<not> hb_allocated b \<and> hb_size b = n))"

lemma host_inv_new: "lib_ok env \<Longrightarrow> host_inv env host_memory_new"
  by (simp add: host_inv_def host_memory_new_def separate_def block_at_def)

lemma BlockComparator_order:
  "\<not> BlockComparator a a" "BlockComparator a b \<Longrightarrow> BlockComparator b c \<Longrightarrow> BlockComparator a c"
  "\<not> BlockComparator a b \<Longrightarrow> \<not> BlockComparator b a \<Longrightarrow> a = b"
  by (auto simp: BlockComparator_def prod_eq_iff split: if_splits)

lemma available_insert_set: "set (available_insert a bs) = insert a (set bs)"
  by (induction bs) (use BlockComparator_order(3) in auto)

lemma available_insert_sorted:
  "sorted_wrt BlockComparator bs \<Longrightarrow> sorted_wrt BlockComparator (available_insert a bs)"
proof (induction bs)
  case (Cons b bs)
  then show ?case using BlockComparator_order(2) [of a b] by (auto simp: available_insert_set)
qed simp

lemma sorted_available_distinct: "sorted_wrt BlockComparator bs \<Longrightarrow> distinct bs"
  by (induction bs) (use BlockComparator_order(1) in auto)

lemma sorted_available_remove: "sorted_wrt BlockComparator bs \<Longrightarrow> sorted_wrt BlockComparator (remove1 a bs)"
  by (induction bs) (use notin_set_remove1 in fastforce)+

lemma map_of_filter_distinct:
  "distinct (map fst xs) \<Longrightarrow> map_of (filter (\<lambda>(k, v). P v) xs) k =
     (case map_of xs k of None \<Rightarrow> None | Some v \<Rightarrow> if P v then Some v else None)"
  by (induction xs) (auto simp: map_of_eq_None_iff split: option.splits)

lemma fold_free_set: "set (fold (host_free_memory env) ps bs) \<subseteq> set bs \<and>
    (\<forall>b\<in>set bs. fst b \<notin> set ps \<longrightarrow> b \<in> set (fold (host_free_memory env) ps bs))"
proof (induction ps arbitrary: bs)
  case (Cons p ps)
  show ?case using Cons [of "host_free_memory env p bs"] by (auto simp: host_free_memory_def split: if_splits)
qed simp

lemma separate_sub: "separate B \<Longrightarrow> A \<subseteq> B \<Longrightarrow> separate A"
  unfolding separate_def by blast

lemma separate_insert:
  assumes "separate B" "0 < p" "0 < a" "\<forall>(q, b)\<in>B. p + a \<le> q \<or> q + b \<le> p"
  shows "separate (insert (p, a) B)"
  unfolding separate_def
proof (intro conjI allI impI)
  fix q b assume "(q, b) \<in> insert (p, a) B"
  then show "0 < q" "0 < b" using assms by (auto simp: separate_def)
next
  fix q b r c assume i: "(q, b) \<in> insert (p, a) B \<and> (r, c) \<in> insert (p, a) B"
  have old: "(q, b) = (r, c) \<or> q + b \<le> r \<or> r + c \<le> q" if "(q, b) \<in> B" "(r, c) \<in> B"
    using assms(1) that unfolding separate_def by blast
  show "(q, b) = (r, c) \<or> q + b \<le> r \<or> r + c \<le> q" using i old assms(4) by blast
qed

lemma dropCache_inv:
  assumes "host_inv env m"
  shows "host_inv env (host_dropCache env m) \<and> host_live (host_dropCache env m) = host_live m"
proof -
  let ?t = "host_dropCache env m"
  let ?ps = "map fst (filter (\<lambda>(p, b). \<not> hb_allocated b) (blocks m))"
  have d: "distinct (map fst (blocks m))" using assms by (simp add: host_inv_def)
  have mo: "block_at ?t p = (case block_at m p of None \<Rightarrow> None | Some b \<Rightarrow> if hb_allocated b then Some b else None)" for p
    unfolding host_dropCache_def block_at_def using map_of_filter_distinct [OF d] by simp
  have bu: "hl_buffers ?t = fold (host_free_memory env) ?ps (hl_buffers m)" by (simp add: host_dropCache_def)
  have ps: "p \<notin> set ?ps" if "block_at m p = Some b" "hb_allocated b" for p b
  proof
    assume "p \<in> set ?ps"
    then obtain c where c: "(p, c) \<in> set (blocks m)" "\<not> hb_allocated c" by auto
    then have "map_of (blocks m) p = Some c" using d by simp
    then show False using that c(2) by (simp add: block_at_def)
  qed
  have in_buf: "(p, hb_size b) \<in> set (hl_buffers ?t)" if "block_at ?t p = Some b" for p b
  proof -
    have b: "block_at m p = Some b" "hb_allocated b" using that mo [of p] by (auto split: option.splits if_splits)
    then have "(p, hb_size b) \<in> set (hl_buffers m)" using assms by (simp add: host_inv_def)
    then show ?thesis using fold_free_set [of env ?ps "hl_buffers m"] ps [OF b] unfolding bu by (metis fst_conv)
  qed
  have "set (hl_buffers ?t) \<subseteq> set (hl_buffers m)" unfolding bu using fold_free_set by blast
  then have "separate (set (hl_buffers ?t))" using assms separate_sub by (auto simp: host_inv_def)
  moreover have "distinct (map fst (blocks ?t))" using d by (simp add: host_dropCache_def distinct_map_filter)
  moreover have "available ?t = []" by (simp add: host_dropCache_def)
  moreover have "hb_allocated b" if "block_at ?t p = Some b" for p b
    using that mo [of p] by (auto split: option.splits if_splits)
  ultimately have "host_inv env ?t" using assms in_buf unfolding host_inv_def by auto
  moreover have "host_live ?t = host_live m"
    unfolding host_live_def mo by (auto split: option.splits if_splits)
  ultimately show ?thesis by simp
qed

lemma new_block_inv:
  assumes inv: "host_inv env m" and n: "0 < n" and p: "hl_malloc env n (hl_buffers m) = Host_ok p"
  shows "\<exists>t. host_new_block env n p m = (True, p, t) \<and> host_inv env t \<and> p \<noteq> 0 \<and>
    (p, n) \<notin> host_live m \<and> host_live t = insert (p, n) (host_live m)"
proof -
  have fresh: "0 < p" "\<forall>(q, b)\<in>set (hl_buffers m). p + n \<le> q \<or> q + b \<le> p"
    using inv p by (auto simp: host_inv_def lib_ok_def)
  have pos: "0 < q \<and> 0 < b" if "(q, b) \<in> set (hl_buffers m)" for q b
    using inv that by (auto simp: host_inv_def separate_def)
  have none: "block_at m p = None"
  proof (cases "block_at m p")
    case (Some b)
    then have "(p, hb_size b) \<in> set (hl_buffers m)" using inv by (simp add: host_inv_def)
    then show ?thesis using fresh(2) pos n by fastforce
  qed
  let ?t = "m\<lparr> hl_buffers := (p, n) # hl_buffers m, blocks := (p, \<lparr> hb_size = n, hb_allocated = True \<rparr>) # blocks m \<rparr>"
  have mo: "block_at ?t = (block_at m)(p \<mapsto> \<lparr> hb_size = n, hb_allocated = True \<rparr>)" by (simp add: block_at_def)
  have "separate (insert (p, n) (set (hl_buffers m)))"
    by (rule separate_insert) (use inv fresh n in \<open>auto simp: host_inv_def\<close>)
  then have "separate (set (hl_buffers ?t))" by simp
  moreover have "distinct (map fst (blocks ?t))"
    using inv none by (simp add: host_inv_def block_at_def map_of_eq_None_iff)
  ultimately have "host_inv env ?t" using inv none unfolding host_inv_def mo by auto
  moreover have "host_live ?t = insert (p, n) (host_live m)" unfolding host_live_def mo using none by (auto split: if_splits)
  moreover have "(p, n) \<notin> host_live m" using none by (auto simp: host_live_def)
  moreover have "host_new_block env n p m = (True, p, ?t)"
    using none by (simp add: host_new_block_def block_at_def)
  ultimately show ?thesis using fresh(1) by blast
qed

lemma uncached_malloc_step:
  assumes inv: "host_inv env m" and n: "0 < n"
  shows "\<exists>ok p t. host_uncached_malloc env n m = (ok, p, t) \<and> host_inv env t \<and> ok = (p \<noteq> 0) \<and>
    (if p = 0 then host_live t = host_live m
     else (p, n) \<notin> host_live m \<and> host_live t = insert (p, n) (host_live m))"
proof (cases "hl_malloc env n (hl_buffers m)")
  case (Host_ok p)
  from new_block_inv [OF inv n Host_ok] obtain t where
    t: "host_new_block env n p m = (True, p, t)" "host_inv env t" "p \<noteq> 0" "(p, n) \<notin> host_live m"
      "host_live t = insert (p, n) (host_live m)" by blast
  then show ?thesis using Host_ok by (auto simp: host_uncached_malloc_def)
next
  case Host_error
  then show ?thesis using inv by (auto simp: host_uncached_malloc_def)
next
  case Host_oom
  note d = dropCache_inv [OF inv]
  let ?m = "host_dropCache env m"
  show ?thesis
  proof (cases "hl_malloc env n (hl_buffers ?m)")
    case (Host_ok p)
    from new_block_inv [OF conjunct1 [OF d] n Host_ok] obtain t where
      "host_new_block env n p ?m = (True, p, t)" "host_inv env t" "p \<noteq> 0" "(p, n) \<notin> host_live ?m"
      "host_live t = insert (p, n) (host_live ?m)" by blast
    then show ?thesis using Host_ok Host_oom d by (auto simp: host_uncached_malloc_def)
  qed (use d Host_oom in \<open>auto simp: host_uncached_malloc_def\<close>)
qed

lemma host_malloc_step:
  assumes inv: "host_inv env m" and n: "0 < n"
  shows "\<exists>ok p t. host_malloc env n m = Inr (ok, p, t) \<and> host_inv env t \<and> ok = (p \<noteq> 0) \<and>
    (if p = 0 then host_live t = host_live m
     else \<exists>a\<ge>n. (p, a) \<notin> host_live m \<and> host_live t = insert (p, a) (host_live m))"
proof (cases "if hl_cache_enabled env then host_lower_bound n (available m) else None")
  case None
  then show ?thesis using uncached_malloc_step [OF inv n] unfolding host_malloc_def None by fastforce
next
  case (Some x)
  obtain sz p where x: "x = (sz, p)" by (cases x)
  from Some x have lb: "host_lower_bound n (available m) = Some (sz, p)" by (auto split: if_splits)
  then have f: "(sz, p) \<in> set (available m)" "\<not> BlockComparator (sz, p) (n, 0)"
    by (auto simp: host_lower_bound_def find_Some_iff)
  then have fit: "n \<le> sz" by (auto simp: BlockComparator_def split: if_splits)
  have "(sz, p) \<in> set (available m) \<longleftrightarrow> (\<exists>b. block_at m p = Some b \<and> \<not> hb_allocated b \<and> hb_size b = sz)"
    using inv by (simp add: host_inv_def)
  with f(1) obtain b where b: "block_at m p = Some b" "\<not> hb_allocated b" "sz = hb_size b" by blast
  let ?t = "m\<lparr> blocks := AList.update p (b\<lparr> hb_allocated := True \<rparr>) (blocks m), available := remove1 (sz, p) (available m) \<rparr>"
  have buf: "(p, sz) \<in> set (hl_buffers m)" using inv b by (simp add: host_inv_def)
  have d: "distinct (available m)" "sorted_wrt BlockComparator (available m)"
    using inv sorted_available_distinct by (auto simp: host_inv_def)
  have mo: "block_at ?t = (block_at m)(p \<mapsto> b\<lparr> hb_allocated := True \<rparr>)" by (simp add: block_at_def update_conv')
  have "(n', q) \<in> set (available ?t) \<longleftrightarrow> (\<exists>c. block_at ?t q = Some c \<and> \<not> hb_allocated c \<and> hb_size c = n')" for n' q
  proof (cases "q = p")
    case True
    then have "(n', q) \<in> set (available m) \<longleftrightarrow> n' = sz" using inv b unfolding host_inv_def by auto
    then show ?thesis unfolding mo using True d(1) by simp
  next
    case False
    then show ?thesis unfolding mo using inv d(1) by (simp add: host_inv_def)
  qed
  moreover have "\<forall>q c. block_at ?t q = Some c \<longrightarrow> (q, hb_size c) \<in> set (hl_buffers ?t)"
    unfolding mo using inv b by (auto simp: host_inv_def)
  ultimately have "host_inv env ?t" using inv d by (simp add: host_inv_def distinct_update sorted_available_remove)
  moreover have "host_live ?t = insert (p, sz) (host_live m)"
    unfolding host_live_def mo using b by (auto split: if_splits)
  moreover have "(p, sz) \<notin> host_live m" using b by (auto simp: host_live_def)
  moreover have "p \<noteq> 0" using inv buf by (auto simp: host_inv_def separate_def)
  ultimately show ?thesis using Some x b fit by (auto simp: host_malloc_def block_at_def)
qed

lemma host_release_step:
  assumes inv: "host_inv env m" and l: "(p, a) \<in> host_live m"
  shows "\<exists>t. host_release env c p m = Inr t \<and> host_inv env t \<and> host_live t = host_live m - {(p, a)}"
proof -
  from l obtain b where b: "block_at m p = Some b" "hb_allocated b" "a = hb_size b" by (auto simp: host_live_def)
  have buf: "(p, a) \<in> set (hl_buffers m)" using inv b by (simp add: host_inv_def)
  then have p0: "p \<noteq> 0" using inv by (auto simp: host_inv_def separate_def)
  have av: "(n, p) \<notin> set (available m)" for n using inv b by (auto simp: host_inv_def)
  show ?thesis
  proof (cases c)
    case True
    let ?t = "m\<lparr> blocks := AList.update p (b\<lparr> hb_allocated := False \<rparr>) (blocks m),
        available := available_insert (hb_size b, p) (available m) \<rparr>"
    have mo: "block_at ?t = (block_at m)(p \<mapsto> b\<lparr> hb_allocated := False \<rparr>)" by (simp add: block_at_def update_conv')
    have "(n, q) \<in> set (available ?t) \<longleftrightarrow> (\<exists>d. block_at ?t q = Some d \<and> \<not> hb_allocated d \<and> hb_size d = n)" for n q
      unfolding mo using inv av by (cases "q = p") (auto simp: available_insert_set host_inv_def)
    moreover have "\<forall>q d. block_at ?t q = Some d \<longrightarrow> (q, hb_size d) \<in> set (hl_buffers ?t)"
      unfolding mo using inv b by (auto simp: host_inv_def)
    ultimately have "host_inv env ?t" using inv by (simp add: host_inv_def distinct_update available_insert_sorted)
    moreover have "host_live ?t = host_live m - {(p, a)}"
      unfolding host_live_def mo using b by (auto split: if_splits)
    ultimately show ?thesis using True b p0 by (simp add: host_release_def block_at_def)
  next
    case False
    let ?t = "m\<lparr> hl_buffers := host_free_memory env p (hl_buffers m), blocks := AList.delete p (blocks m) \<rparr>"
    have mo: "block_at ?t = (block_at m)(p := None)" by (simp add: block_at_def delete_conv')
    have sub: "set (hl_buffers ?t) \<subseteq> set (hl_buffers m)" by (auto simp: host_free_memory_def)
    have "(n, q) \<in> set (available ?t) \<longleftrightarrow> (\<exists>d. block_at ?t q = Some d \<and> \<not> hb_allocated d \<and> hb_size d = n)" for n q
      unfolding mo using inv av by (cases "q = p") (auto simp: host_inv_def)
    moreover have "\<forall>q d. block_at ?t q = Some d \<longrightarrow> (q, hb_size d) \<in> set (hl_buffers ?t)"
      unfolding mo using inv by (auto simp: host_inv_def host_free_memory_def)
    moreover have "separate (set (hl_buffers ?t))" using separate_sub [OF _ sub] inv by (simp add: host_inv_def)
    ultimately have "host_inv env ?t" using inv by (simp add: host_inv_def distinct_delete)
    moreover have "host_live ?t = host_live m - {(p, a)}"
      unfolding host_live_def mo using b by (auto split: if_splits)
    ultimately show ?thesis using False b p0 by (simp add: host_release_def block_at_def)
  qed
qed

text \<open>The cache of host buffers is an allocator, whatever the library does within its law.\<close>

definition host_alloc :: "host_lib \<Rightarrow> nat \<Rightarrow> host_memory \<Rightarrow> (nat \<times> host_memory) res" where
  "host_alloc env n m = bindR (host_malloc env n m) (\<lambda>(ok, p, m). Inr (p, m))"

interpretation host_cache: suballocator "host_inv env" host_live "\<lambda>_ _. True" "\<lambda>n _. 0 < n" "\<lambda>n. n"
  "host_alloc env" "host_free env" for env
proof
  fix s p a assume "host_inv env s" "(p, a) \<in> host_live s"
  then have "(p, a) \<in> set (hl_buffers s)" "separate (set (hl_buffers s))" by (auto simp: host_inv_def host_live_def)
  then show "0 < p \<and> 0 < a" unfolding separate_def by blast
next
  fix s p a q b assume i: "host_inv env s" and "(p, a) \<in> host_live s" "(q, b) \<in> host_live s"
  then have "(p, a) \<in> set (hl_buffers s)" "(q, b) \<in> set (hl_buffers s)" by (auto simp: host_inv_def host_live_def)
  then show "(p, a) = (q, b) \<or> p + a \<le> q \<or> q + b \<le> p" using i unfolding host_inv_def separate_def by blast
next
  fix s :: host_memory and n :: nat
  assume i: "host_inv env s" and n: "0 < n"
  from host_malloc_step [OF i n] show "\<exists>p t. host_alloc env n s = Inr (p, t) \<and> host_inv env t \<and>
      (if p = 0 then host_live t = host_live s
       else \<exists>a\<ge>n. (p, a) \<notin> host_live s \<and> host_live t = insert (p, a) (host_live s) \<and> True)"
    by (fastforce simp: host_alloc_def)
next
  fix s p a assume "host_inv env s" "(p, a) \<in> host_live s"
  from host_release_step [OF this] show "\<exists>t. host_free env p s = Inr t \<and> host_inv env t \<and> host_live t = host_live s - {(p, a)}"
    by (simp add: host_free_def)
qed

text \<open>What is freed with the cache on is what the next request of that size gets, without the library.\<close>

lemma host_reuse:
  assumes inv: "host_inv env m" and l: "(p, a) \<in> host_live m" and c: "hl_cache_enabled env"
    and only: "\<forall>(n, q)\<in>set (available m). n < a"
  shows "\<exists>t u. host_free env p m = Inr t \<and> host_malloc env a t = Inr (True, p, u) \<and>
    hl_buffers u = hl_buffers m \<and> host_live u = host_live m"
proof -
  from l obtain b where b: "block_at m p = Some b" "hb_allocated b" "a = hb_size b" by (auto simp: host_live_def)
  then have b': "map_of (blocks m) p = Some b" by (simp add: block_at_def)
  have p0: "p \<noteq> 0" using host_cache.live_pos [OF inv l] by simp
  let ?t = "m\<lparr> blocks := AList.update p (b\<lparr> hb_allocated := False \<rparr>) (blocks m),
      available := available_insert (hb_size b, p) (available m) \<rparr>"
  have f: "host_free env p m = Inr ?t" using b' b(2) p0 c by (simp add: host_free_def host_release_def)
  from host_release_step [OF inv l, of True] have it: "host_inv env ?t" "host_live ?t = host_live m - {(p, a)}"
    using b' b(2) p0 by (auto simp: host_release_def)
  have "available_insert (a, p) bs = bs @ [(a, p)]" if "\<forall>(n, q)\<in>set bs. n < a" for bs
    using that by (induction bs) (auto simp: BlockComparator_def)
  then have av: "available ?t = available m @ [(a, p)]" using only b by simp
  have "find (\<lambda>b. \<not> BlockComparator b (a, 0)) (available m) = None"
    using only by (auto simp: find_None_iff BlockComparator_def)
  moreover have "find P (xs @ ys) = (case find P xs of None \<Rightarrow> find P ys | Some x \<Rightarrow> Some x)" for P :: "nat \<times> nat \<Rightarrow> bool" and xs ys
    by (induction xs) auto
  ultimately have lb: "host_lower_bound a (available ?t) = Some (a, p)"
    unfolding av host_lower_bound_def by (simp add: BlockComparator_def)
  let ?u = "?t\<lparr> blocks := AList.update p (b\<lparr> hb_allocated := True \<rparr>) (blocks ?t),
      available := remove1 (a, p) (available ?t) \<rparr>"
  have m: "host_malloc env a ?t = Inr (True, p, ?u)"
    using lb c unfolding host_malloc_def by (simp add: update_conv')
  have "b\<lparr> hb_allocated := True \<rparr> = b" using b(2) by (cases b) simp
  then have "block_at ?u = (block_at m)(p \<mapsto> b)" by (simp add: block_at_def update_conv')
  then have "block_at ?u = block_at m" using b(1) by auto
  then have "host_live ?u = host_live m" by (simp add: host_live_def)
  then show ?thesis using f m by auto
qed

section \<open>Reachable states\<close>

text \<open>Any sequence of requests of a positive size, frees of live buffers and drops of the cache.\<close>

inductive host_step :: "host_lib \<Rightarrow> host_memory \<Rightarrow> host_memory \<Rightarrow> bool" for env where
  malloc: "0 < n \<Longrightarrow> host_malloc env n m = Inr (ok, p, t) \<Longrightarrow> host_step env m t"
| uncached_malloc: "0 < n \<Longrightarrow> host_uncached_malloc env n m = (ok, p, t) \<Longrightarrow> host_step env m t"
| free: "is_host_memory p m \<Longrightarrow> host_free env p m = Inr t \<Longrightarrow> host_step env m t"
| uncached_free: "is_host_memory p m \<Longrightarrow> host_uncached_free env p m = Inr t \<Longrightarrow> host_step env m t"
| drop: "host_step env m (host_dropCache env m)"

inductive host_reach :: "host_lib \<Rightarrow> host_memory \<Rightarrow> bool" for env where
  new: "host_reach env host_memory_new"
| step: "host_reach env m \<Longrightarrow> host_step env m t \<Longrightarrow> host_reach env t"

lemma is_host_memory_live: "host_inv env m \<Longrightarrow> is_host_memory p m \<longleftrightarrow> (\<exists>a. (p, a) \<in> host_live m)"
  using host_cache.live_pos [of env m p]
  by (auto simp: is_host_memory_def host_live_def block_at_def split: option.splits)

lemma host_step_inv:
  assumes "host_step env m t" "host_inv env m"
  shows "host_inv env t"
  using assms
proof cases
  case (malloc n ok p)
  then show ?thesis using host_malloc_step [OF assms(2), of n] by auto
next
  case (uncached_malloc n ok p)
  then show ?thesis using uncached_malloc_step [OF assms(2), of n] by auto
next
  case (free p)
  then obtain a where "(p, a) \<in> host_live m" using is_host_memory_live [OF assms(2)] by auto
  from host_release_step [OF assms(2) this, where c = "hl_cache_enabled env"] free
  show ?thesis by (auto simp: host_free_def)
next
  case (uncached_free p)
  then obtain a where "(p, a) \<in> host_live m" using is_host_memory_live [OF assms(2)] by auto
  from host_release_step [OF assms(2) this, where c = False] uncached_free
  show ?thesis by (auto simp: host_uncached_free_def)
next
  case drop
  then show ?thesis using dropCache_inv [OF assms(2)] by simp
qed

lemma host_reach_inv: "host_reach env m \<Longrightarrow> lib_ok env \<Longrightarrow> host_inv env m"
  by (induction rule: host_reach.induct) (auto simp: host_inv_new intro: host_step_inv)

text \<open>A request takes the smallest cached buffer that is large enough.\<close>

definition host_cached :: "host_memory \<Rightarrow> (nat \<times> nat) set" where
  "host_cached m = {(p, n). \<exists>b. block_at m p = Some b \<and> \<not> hb_allocated b \<and> hb_size b = n}"

lemma host_lower_bound_least:
  assumes "sorted_wrt BlockComparator bs" "host_lower_bound n bs = Some (sz, p)"
  shows "(sz, p) \<in> set bs" "n \<le> sz" "\<And>k q. (k, q) \<in> set bs \<Longrightarrow> n \<le> k \<Longrightarrow> sz \<le> k"
proof -
  from assms(2) obtain i where i: "i < length bs" "bs ! i = (sz, p)" "\<not> BlockComparator (sz, p) (n, 0)"
    "\<forall>j<i. BlockComparator (bs ! j) (n, 0)" by (auto simp: host_lower_bound_def find_Some_iff)
  show "(sz, p) \<in> set bs" using i(1,2) nth_mem by force
  show "n \<le> sz" using i(3) by (auto simp: BlockComparator_def split: if_splits)
  fix k q assume "(k, q) \<in> set bs" and k: "n \<le> k"
  then obtain j where j: "j < length bs" "bs ! j = (k, q)" by (auto simp: in_set_conv_nth)
  have "\<not> j < i" using i(4) j k by (auto simp: BlockComparator_def split: if_splits)
  then have "i = j \<or> BlockComparator (bs ! i) (bs ! j)"
    using assms(1) j(1) sorted_wrt_nth_less [of BlockComparator bs i j] by (cases "i = j") auto
  then show "sz \<le> k" using i(2) j(2) by (auto simp: BlockComparator_def split: if_splits)
qed

lemma host_lower_bound_none:
  "host_lower_bound n bs = None \<Longrightarrow> (k, q) \<in> set bs \<Longrightarrow> k < n"
  by (fastforce simp: host_lower_bound_def find_None_iff BlockComparator_def split: if_splits)

lemma host_malloc_best_fit:
  assumes inv: "host_inv env m" and n: "0 < n" and m: "host_malloc env n m = Inr (ok, p, t)"
    and c: "hl_cache_enabled env" and q: "(q, k) \<in> host_cached m" "n \<le> k"
  shows "ok \<and> (\<exists>a. (p, a) \<in> host_cached m \<and> n \<le> a \<and> a \<le> k \<and> host_live t = insert (p, a) (host_live m)) \<and>
    hl_buffers t = hl_buffers m"
proof -
  have av: "(k, q) \<in> set (available m) \<longleftrightarrow> (q, k) \<in> host_cached m" for k q
    using inv by (auto simp: host_inv_def host_cached_def)
  with q obtain sz r where lb: "host_lower_bound n (available m) = Some (sz, r)"
    using host_lower_bound_none [of n "available m" k q] by (cases "host_lower_bound n (available m)") auto
  have so: "sorted_wrt BlockComparator (available m)" using inv by (simp add: host_inv_def)
  note l = host_lower_bound_least [OF so lb]
  have "(r, sz) \<in> host_cached m" using l(1) av by simp
  then obtain b where b: "map_of (blocks m) r = Some b" "\<not> hb_allocated b" "hb_size b = sz"
    by (auto simp: host_cached_def block_at_def)
  then have t: "p = r" "ok" "hl_buffers t = hl_buffers m" "block_at t = (block_at m)(r \<mapsto> b\<lparr> hb_allocated := True \<rparr>)"
    using m lb c by (auto simp: host_malloc_def block_at_def update_conv')
  have "host_live t = insert (r, sz) (host_live m)"
    unfolding host_live_def t(4) using b by (auto simp: block_at_def split: if_splits)
  then show ?thesis using t l(2) l(3) [of k q] q av \<open>(r, sz) \<in> host_cached m\<close> by auto
qed

section \<open>A concrete library\<close>

text \<open>A library whose buffers start after all that it has handed out.\<close>

definition demo_host_lib :: host_lib where
  "demo_host_lib = \<lparr> hl_malloc = (\<lambda>n bs. Host_ok (Suc (fold (\<lambda>(p, b). max (p + b)) bs 0))),
     hl_free = (\<lambda>_. True), hl_cache_enabled = True \<rparr>"

lemma demo_host_lib_ok: "lib_ok demo_host_lib"
proof -
  have up: "y \<le> fold (\<lambda>(p, b). max (p + b)) bs y" for y :: nat and bs
  proof (induction bs arbitrary: y)
    case (Cons b bs)
    obtain p a where b: "b = (p, a)" by (cases b)
    show ?case using Cons [of "max (p + a) y"] by (simp add: b)
  qed simp
  have "q + b \<le> fold (\<lambda>(p, b). max (p + b)) bs x" if "(q, b) \<in> set bs" for q b x :: nat and bs
    using that
  proof (induction bs arbitrary: x)
    case (Cons c bs)
    show ?case
    proof (cases "c = (q, b)")
      case True
      then show ?thesis using up [of "max (q + b) x" bs] by simp
    next
      case False
      then show ?thesis using Cons by (auto split: prod.splits)
    qed
  qed simp
  then have "q + b \<le> Suc (fold (\<lambda>(p, b). max (p + b)) bs 0)" if "(q, b) \<in> set bs" for q b :: nat and bs
    using that le_SucI by blast
  then show ?thesis by (auto simp: lib_ok_def demo_host_lib_def)
qed

lemma demo_host_malloc:
  obtains m where "host_malloc demo_host_lib 64 host_memory_new = Inr (True, 1, m)" "(1, 64) \<in> host_live m"
  by (simp add: host_malloc_def host_memory_new_def host_lower_bound_def host_uncached_malloc_def demo_host_lib_def
      host_new_block_def host_live_def block_at_def)

end
