(* ===== verification/Recipe_Cache.thy ===== *)
theory Recipe_Cache
  imports Mem_Prelude
begin

text \<open>
  The cache of compiled recipes (\<open>recipe_handle_cache.h\<close>, \<open>recipe_handle_cache.cpp\<close>): a table from
  keys to recipes and the list of the keys by the time of their last use, the latest first. When
  there are more than \<open>MAX_CACHE_SIZE\<close> entries the least recently used ones are dropped.

  The iterator that the table holds for each key is the position of the key in the list; keys occur
  once, so the key itself stands for it. The mutex is a flag of the state: to lock it again while it
  is held is a wait that never ends, since it is not recursive.
\<close>

section \<open>State\<close>

definition MAX_CACHE_SIZE :: nat where
  "MAX_CACHE_SIZE = 9000"

record number_limit =
  nl_limit :: nat
  nl_used :: nat

definition IsEvictNeeded :: "number_limit \<Rightarrow> bool" where
  "IsEvictNeeded l \<longleftrightarrow> nl_used l > nl_limit l"

definition nl_Added :: "number_limit \<Rightarrow> number_limit" where
  "nl_Added l = l\<lparr> nl_used := add64 (nl_used l) 1 \<rparr>"

definition nl_Removed :: "number_limit \<Rightarrow> number_limit" where
  "nl_Removed l = l\<lparr> nl_used := sub64 (nl_used l) 1 \<rparr>"

definition nl_Reset :: "number_limit \<Rightarrow> number_limit" where
  "nl_Reset l = l\<lparr> nl_used := 0 \<rparr>"

record recipe_cache =
  rh_locked :: bool
  evict_strategy :: number_limit
  enable_hit_count :: bool
  hit_counter :: "(nat \<times> int) list"
  keys_access_list :: "nat list"
  cache_map :: "(nat \<times> nat) list"

definition recipe_cache_new :: "nat \<Rightarrow> recipe_cache" where
  "recipe_cache_new max_hit_count_flag =
     \<lparr> rh_locked = False, evict_strategy = \<lparr> nl_limit = MAX_CACHE_SIZE, nl_used = 0 \<rparr>,
       enable_hit_count = (max_hit_count_flag \<noteq> 0), hit_counter = [], keys_access_list = [], cache_map = [] \<rparr>"

section \<open>Operations\<close>

text \<open>The lock is taken for the rest of the function.\<close>

definition with_lock :: "(recipe_cache \<Rightarrow> ('a \<times> recipe_cache) res) \<Rightarrow> recipe_cache \<Rightarrow> ('a \<times> recipe_cache) res" where
  "with_lock f c =
     (if rh_locked c then Inl Would_block
      else bindR (f (c\<lparr> rh_locked := True \<rparr>)) (\<lambda>(x, c). Inr (x, c\<lparr> rh_locked := False \<rparr>)))"

definition getHitCount :: "nat \<Rightarrow> recipe_cache \<Rightarrow> (int \<times> recipe_cache) res" where
  "getHitCount key c =
     (if \<not> enable_hit_count c then Inr (-1, c)
      else with_lock (\<lambda>c. Inr (case map_of (hit_counter c) key of None \<Rightarrow> 0 | Some n \<Rightarrow> n, c)) c)"

definition increaseHitCount_nolock :: "nat \<Rightarrow> recipe_cache \<Rightarrow> recipe_cache res" where
  "increaseHitCount_nolock key c =
     (if \<not> enable_hit_count c then Inr c
      else
        bindR (getHitCount key c) (\<lambda>(n, c).
          let h = (if n = 0 then AList.update key 0 (hit_counter c) else hit_counter c) in
          Inr (c\<lparr> hit_counter := AList.update key ((case map_of h key of None \<Rightarrow> 0 | Some n \<Rightarrow> n) + 1) h \<rparr>)))"

definition increaseHitCount :: "nat \<Rightarrow> recipe_cache \<Rightarrow> recipe_cache res" where
  "increaseHitCount key c =
     (if \<not> enable_hit_count c then Inr c
      else bindR (with_lock (\<lambda>c. bindR (increaseHitCount_nolock key c) (\<lambda>c. Inr ((), c))) c) (\<lambda>(_, c). Inr c))"

definition rh_evict :: "recipe_cache \<Rightarrow> recipe_cache res" where
  "rh_evict c =
     (if keys_access_list c = [] then Inl Undefined
      else if map_of (cache_map c) (last (keys_access_list c)) = None then Inr c
      else Inr (c\<lparr> evict_strategy := nl_Removed (evict_strategy c),
                   cache_map := AList.delete (last (keys_access_list c)) (cache_map c),
                   keys_access_list := butlast (keys_access_list c) \<rparr>))"

fun evict_loop :: "nat \<Rightarrow> recipe_cache \<Rightarrow> recipe_cache res" where
  "evict_loop 0 c = Inl No_return"
| "evict_loop (Suc fuel) c =
     (if IsEvictNeeded (evict_strategy c) \<and> cache_map c \<noteq> [] then bindR (rh_evict c) (evict_loop fuel)
      else Inr c)"

definition rh_insert :: "nat \<Rightarrow> nat \<Rightarrow> recipe_cache \<Rightarrow> recipe_cache res" where
  "rh_insert r key c =
     evict_loop (Suc (length (cache_map c) + 1))
       (c\<lparr> keys_access_list := key # keys_access_list c,
           cache_map := (case map_of (cache_map c) key of None \<Rightarrow> (key, r) # cache_map c | Some _ \<Rightarrow> cache_map c),
           evict_strategy := nl_Added (evict_strategy c) \<rparr>)"

definition rh_drop :: "recipe_cache \<Rightarrow> recipe_cache" where
  "rh_drop c = c\<lparr> cache_map := [], keys_access_list := [], evict_strategy := nl_Reset (evict_strategy c) \<rparr>"

definition use_key :: "nat \<Rightarrow> recipe_cache \<Rightarrow> recipe_cache" where
  "use_key key c = c\<lparr> keys_access_list := key # remove1 key (keys_access_list c) \<rparr>"

text \<open>\<open>created\<close> is the recipe that compiling the graph gives, if it gives one.\<close>

definition get_recipe_or_create :: "nat \<Rightarrow> nat option \<Rightarrow> recipe_cache \<Rightarrow> (nat option \<times> recipe_cache) res" where
  "get_recipe_or_create key created = with_lock (\<lambda>c.
     case map_of (cache_map c) key of
       Some r \<Rightarrow> bindR (increaseHitCount_nolock key (use_key key c)) (\<lambda>c. Inr (Some r, c))
     | None \<Rightarrow>
         (case created of
            None \<Rightarrow> Inr (None, c)
          | Some r \<Rightarrow>
              bindR (rh_insert r key c) (\<lambda>c.
              bindR (increaseHitCount_nolock key c) (\<lambda>c. Inr (Some r, c)))))"

definition get_recipe :: "nat \<Rightarrow> recipe_cache \<Rightarrow> (nat option \<times> recipe_cache) res" where
  "get_recipe key = with_lock (\<lambda>c.
     case map_of (cache_map c) key of
       Some r \<Rightarrow> bindR (increaseHitCount_nolock key (use_key key c)) (\<lambda>c. Inr (Some r, c))
     | None \<Rightarrow> Inr (None, c))"

definition isCached :: "nat \<Rightarrow> recipe_cache \<Rightarrow> (bool \<times> recipe_cache) res" where
  "isCached key = with_lock (\<lambda>c. Inr (cache_map c \<noteq> [] \<and> map_of (cache_map c) key \<noteq> None, c))"

definition getCount :: "recipe_cache \<Rightarrow> (nat \<times> recipe_cache) res" where
  "getCount = with_lock (\<lambda>c. Inr (length (cache_map c), c))"

definition getActiveRecipeCount :: "recipe_cache \<Rightarrow> (int \<times> recipe_cache) res" where
  "getActiveRecipeCount c =
     (if \<not> enable_hit_count c then Inr (-1, c)
      else with_lock (\<lambda>c. Inr (int (length (hit_counter c)), c)) c)"

definition clearHitCount :: "recipe_cache \<Rightarrow> recipe_cache res" where
  "clearHitCount c =
     (if \<not> enable_hit_count c then Inr c
      else bindR (with_lock (\<lambda>c. Inr ((), c\<lparr> hit_counter := [] \<rparr>)) c) (\<lambda>(_, c). Inr c))"

definition recipe_cache_destroy :: "recipe_cache \<Rightarrow> recipe_cache res" where
  "recipe_cache_destroy c = clearHitCount (rh_drop c)"

section \<open>The specification\<close>

text \<open>A cache of the least recently used kind: the entries, the latest first, and at most \<open>n\<close> of them.\<close>

definition lru_get :: "'k \<Rightarrow> ('k \<times> 'v) list \<Rightarrow> 'v option \<times> ('k \<times> 'v) list" where
  "lru_get k l = (case map_of l k of None \<Rightarrow> (None, l) | Some v \<Rightarrow> (Some v, (k, v) # AList.delete k l))"

definition lru_put :: "nat \<Rightarrow> 'k \<Rightarrow> 'v \<Rightarrow> ('k \<times> 'v) list \<Rightarrow> ('k \<times> 'v) list" where
  "lru_put n k v l = take n ((k, v) # AList.delete k l)"

locale lru_cache =
  fixes inv :: "'c \<Rightarrow> bool"
    and entries :: "'c \<Rightarrow> ('k \<times> 'v) list"
    and size_limit :: nat
    and get :: "'k \<Rightarrow> 'c \<Rightarrow> ('v option \<times> 'c) res"
    and put :: "'k \<Rightarrow> 'v \<Rightarrow> 'c \<Rightarrow> ('v option \<times> 'c) res"
  assumes entries_ok: "inv c \<Longrightarrow> distinct (map fst (entries c)) \<and> length (entries c) \<le> size_limit"
    and limit_pos: "0 < size_limit"
    and get_law: "inv c \<Longrightarrow> \<exists>d. get k c = Inr (fst (lru_get k (entries c)), d) \<and> inv d \<and>
      entries d = snd (lru_get k (entries c))"
    and put_law: "inv c \<Longrightarrow> map_of (entries c) k = None \<Longrightarrow>
      \<exists>d. put k v c = Inr (Some v, d) \<and> inv d \<and> entries d = lru_put size_limit k v (entries c)"
begin

lemma put_get:
  assumes "inv c" "map_of (entries c) k = None"
  shows "\<exists>d e. put k v c = Inr (Some v, d) \<and> get k d = Inr (Some v, e)"
proof -
  from put_law [OF assms, of v] obtain d where d: "put k v c = Inr (Some v, d)" "inv d"
    "entries d = lru_put size_limit k v (entries c)" by blast
  have "map_of (entries d) k = Some v" using limit_pos d(3) by (cases size_limit) (simp_all add: lru_put_def)
  then show ?thesis using d(1) get_law [OF d(2), of k] by (auto simp: lru_get_def)
qed

text \<open>An entry survives as long as fewer than \<open>size_limit\<close> other keys have been used since.\<close>

lemma put_keeps:
  assumes "inv c" "map_of (entries c) k = None" "i < length (entries c)" "Suc i < size_limit"
    "put k v c = Inr (x, d)"
  shows "Suc i < length (entries d) \<and> entries d ! Suc i = entries c ! i"
proof -
  from put_law [OF assms(1,2), of v] assms(5) have "entries d = lru_put size_limit k v (entries c)" by auto
  moreover have "AList.delete k (entries c) = entries c"
    using assms(2) by (simp add: map_of_eq_None_iff delete_id)
  ultimately show ?thesis using assms(3,4) by (cases size_limit) (simp_all add: lru_put_def)
qed

end

section \<open>The code refines it\<close>

definition recipe_entries :: "recipe_cache \<Rightarrow> (nat \<times> nat) list" where
  "recipe_entries c = map (\<lambda>k. (k, the (map_of (cache_map c) k))) (keys_access_list c)"

definition recipe_inv :: "recipe_cache \<Rightarrow> bool" where
  "recipe_inv c \<longleftrightarrow> \<not> rh_locked c \<and> \<not> enable_hit_count c \<and> nl_limit (evict_strategy c) = MAX_CACHE_SIZE \<and>
     nl_used (evict_strategy c) = length (keys_access_list c) \<and> length (keys_access_list c) \<le> MAX_CACHE_SIZE \<and>
     distinct (keys_access_list c) \<and> distinct (map fst (cache_map c)) \<and> set (keys_access_list c) = fst ` set (cache_map c)"

lemma recipe_inv_new: "recipe_inv (recipe_cache_new 0)"
  by (simp add: recipe_inv_def recipe_cache_new_def)

lemma map_of_entries:
  assumes "recipe_inv c"
  shows "map_of (recipe_entries c) k = map_of (cache_map c) k"
proof (cases "map_of (cache_map c) k")
  case None
  then have "k \<notin> set (keys_access_list c)" using assms by (auto simp: recipe_inv_def map_of_eq_None_iff)
  then have "k \<notin> fst ` set (recipe_entries c)" by (auto simp: recipe_entries_def)
  then have "map_of (recipe_entries c) k = None" by (simp only: map_of_eq_None_iff not_False_eq_True)
  then show ?thesis using None by simp
next
  case (Some v)
  then have "k \<in> set (keys_access_list c)" using assms by (force simp: recipe_inv_def dest: map_of_SomeD)
  then have "(k, v) \<in> set (recipe_entries c)" using Some by (force simp: recipe_entries_def)
  moreover have "distinct (map fst (recipe_entries c))" using assms by (simp add: recipe_entries_def recipe_inv_def comp_def)
  ultimately show ?thesis using Some by simp
qed

lemma recipe_cache_length: "recipe_inv c \<Longrightarrow> length (cache_map c) = length (keys_access_list c)"
  by (metis recipe_inv_def distinct_card length_map set_map)

lemma use_key_step:
  assumes inv: "recipe_inv c" and k: "map_of (cache_map c) key = Some r"
  shows "recipe_inv (use_key key c)" "recipe_entries (use_key key c) = snd (lru_get key (recipe_entries c))"
proof -
  have m: "key \<in> set (keys_access_list c)" using inv k by (force simp: recipe_inv_def dest: map_of_SomeD)
  then have "length (key # remove1 key (keys_access_list c)) = length (keys_access_list c)"
    using length_pos_if_in_set [OF m] by (simp add: length_remove1)
  then show "recipe_inv (use_key key c)"
    using inv m unfolding recipe_inv_def use_key_def by (auto simp: set_remove1_eq)
  have "remove1 key (keys_access_list c) = filter (\<lambda>x. key \<noteq> x) (keys_access_list c)"
    using inv by (simp add: recipe_inv_def distinct_remove1_removeAll removeAll_filter_not_eq)
  then have "AList.delete key (recipe_entries c) = map (\<lambda>k. (k, the (map_of (cache_map c) k))) (remove1 key (keys_access_list c))"
    by (simp add: AList.delete_eq recipe_entries_def filter_map comp_def)
  then show "recipe_entries (use_key key c) = snd (lru_get key (recipe_entries c))"
    using k map_of_entries [OF inv, of key] by (simp add: lru_get_def recipe_entries_def use_key_def)
qed

lemma evict_last:
  assumes "xs \<noteq> []" "distinct xs" "set xs = fst ` set m"
  shows "map_of m (last xs) \<noteq> None" "set (butlast xs) = fst ` set (AList.delete (last xs) m)"
proof -
  show "map_of m (last xs) \<noteq> None" using assms(1,3) by (simp add: map_of_eq_None_iff flip: assms(3))
  have "set (butlast xs) = set xs - {last xs}" using assms(1,2)
    by (cases xs rule: rev_cases) auto
  then show "set (butlast xs) = fst ` set (AList.delete (last xs) m)"
    using assms(3) by (simp add: delete_keys flip: set_map)
qed

lemma rh_insert_step:
  assumes inv: "recipe_inv (c\<lparr> rh_locked := False \<rparr>)" and l: "rh_locked c" and k: "map_of (cache_map c) key = None"
  shows "\<exists>d. rh_insert r key c = Inr d \<and> rh_locked d \<and> recipe_inv (d\<lparr> rh_locked := False \<rparr>) \<and>
    recipe_entries d = lru_put MAX_CACHE_SIZE key r (recipe_entries c)"
proof -
  let ?ks = "keys_access_list c"
  let ?m = "(key, r) # cache_map c"
  let ?c1 = "c\<lparr> keys_access_list := key # ?ks, cache_map := ?m, evict_strategy := nl_Added (evict_strategy c) \<rparr>"
  have I: "\<not> enable_hit_count c" "nl_limit (evict_strategy c) = MAX_CACHE_SIZE" "nl_used (evict_strategy c) = length ?ks"
    "length ?ks \<le> MAX_CACHE_SIZE" "distinct ?ks" "distinct (map fst (cache_map c))" "set ?ks = fst ` set (cache_map c)"
    using inv by (auto simp: recipe_inv_def)
  have nk: "key \<notin> set ?ks" using k I(7) by (simp add: map_of_eq_None_iff)
  have used: "nl_used (nl_Added (evict_strategy c)) = Suc (length ?ks)" "nl_limit (nl_Added (evict_strategy c)) = MAX_CACHE_SIZE"
    using I(2-4) by (simp_all add: nl_Added_def add64_exact MAX_CACHE_SIZE_def u64_lim_def)
  have ents: "map (\<lambda>k. (k, the (map_of ?m k))) ?ks = recipe_entries c"
    using nk by (auto simp: recipe_entries_def intro!: map_cong)
  have del: "AList.delete key (recipe_entries c) = recipe_entries c"
    by (rule delete_id) (use nk in \<open>auto simp: recipe_entries_def\<close>)
  have put: "lru_put MAX_CACHE_SIZE key r (recipe_entries c) = take MAX_CACHE_SIZE ((key, r) # recipe_entries c)"
    by (simp add: lru_put_def del)
  have len: "length (recipe_entries c) = length ?ks" by (simp add: recipe_entries_def)
  show ?thesis
  proof (cases "length ?ks < MAX_CACHE_SIZE")
    case True
    then have "rh_insert r key c = Inr ?c1"
      using k used by (simp add: rh_insert_def IsEvictNeeded_def)
    moreover have "recipe_inv (?c1\<lparr> rh_locked := False \<rparr>)"
      using I used True nk k by (auto simp: recipe_inv_def map_of_eq_None_iff)
    moreover have "recipe_entries ?c1 = (key, r) # recipe_entries c" using ents by (simp add: recipe_entries_def)
    ultimately show ?thesis using l True len put by simp
  next
    case False
    then have full: "length ?ks = MAX_CACHE_SIZE" using I(4) by simp
    then have ne: "?ks \<noteq> []" by (auto simp: MAX_CACHE_SIZE_def)
    let ?last = "last ?ks"
    have E: "map_of (cache_map c) ?last \<noteq> None" "set (butlast ?ks) = fst ` set (AList.delete ?last (cache_map c))"
      using evict_last [OF ne I(5,7)] by auto
    have kl: "key \<noteq> ?last" using nk ne by auto
    let ?d = "c\<lparr> keys_access_list := key # butlast ?ks, cache_map := (key, r) # AList.delete ?last (cache_map c),
        evict_strategy := nl_Removed (nl_Added (evict_strategy c)) \<rparr>"
    have rm: "nl_used (nl_Removed (nl_Added (evict_strategy c))) = MAX_CACHE_SIZE"
      "nl_limit (nl_Removed (nl_Added (evict_strategy c))) = MAX_CACHE_SIZE"
      using used full by (simp_all add: nl_Removed_def sub64_exact MAX_CACHE_SIZE_def u64_lim_def)
    have "rh_evict ?c1 = Inr ?d" using ne kl E(1) by (auto simp: rh_evict_def)
    moreover have "IsEvictNeeded (nl_Added (evict_strategy c))" using used full by (simp add: IsEvictNeeded_def)
    moreover have "\<not> IsEvictNeeded (nl_Removed (nl_Added (evict_strategy c)))" using rm by (simp add: IsEvictNeeded_def)
    ultimately have "rh_insert r key c = Inr ?d"
      using k by (simp add: rh_insert_def)
    moreover have "recipe_inv (?d\<lparr> rh_locked := False \<rparr>)"
    proof -
      have kb: "key \<notin> set (butlast ?ks)" using nk by (auto dest: in_set_butlastD)
      then have "key \<notin> fst ` set (AList.delete ?last (cache_map c))" unfolding E(2) [symmetric] .
      then show ?thesis using I(1,5,6) rm full ne kb E(2)
        by (simp add: recipe_inv_def distinct_delete distinct_butlast MAX_CACHE_SIZE_def)
    qed
    moreover have "recipe_entries ?d = take MAX_CACHE_SIZE ((key, r) # recipe_entries c)"
    proof -
      have "map_of (AList.delete ?last (cache_map c)) k = map_of (cache_map c) k" if "k \<in> set (butlast ?ks)" for k
      proof -
        have "k \<noteq> ?last" using that I(5) ne by (metis append_butlast_last_id distinct_butlast not_distinct_conv_prefix)
        then show ?thesis by (simp add: delete_conv')
      qed
      moreover have "key \<notin> set (butlast ?ks)" using nk by (auto dest: in_set_butlastD)
      ultimately have "map (\<lambda>k. (k, the (map_of ((key, r) # AList.delete ?last (cache_map c)) k))) (butlast ?ks) =
          butlast (recipe_entries c)"
        by (auto simp: recipe_entries_def map_butlast [symmetric] intro!: map_cong)
      then show ?thesis using full len ne by (simp add: recipe_entries_def butlast_conv_take MAX_CACHE_SIZE_def take_Cons')
    qed
    ultimately show ?thesis using l put by (intro exI [of _ ?d]) simp
  qed
qed

lemma with_lock_free: "\<not> rh_locked c \<Longrightarrow> with_lock f c =
    bindR (f (c\<lparr> rh_locked := True \<rparr>)) (\<lambda>(x, c). Inr (x, c\<lparr> rh_locked := False \<rparr>))"
  by (simp add: with_lock_def)

lemma recipe_inv_lock: "recipe_inv c \<Longrightarrow> recipe_inv (c\<lparr> rh_locked := True \<rparr>\<lparr> rh_locked := False \<rparr>)"
  by (simp add: recipe_inv_def)

lemma recipe_entries_lock [simp]: "recipe_entries (c\<lparr> rh_locked := b \<rparr>) = recipe_entries c"
  by (simp add: recipe_entries_def)

interpretation recipes: lru_cache recipe_inv recipe_entries MAX_CACHE_SIZE get_recipe
  "\<lambda>k r. get_recipe_or_create k (Some r)"
proof
  fix c assume inv: "recipe_inv c"
  then show "distinct (map fst (recipe_entries c)) \<and> length (recipe_entries c) \<le> MAX_CACHE_SIZE"
    by (simp add: recipe_inv_def recipe_entries_def comp_def)
next
  show "0 < MAX_CACHE_SIZE" by (simp add: MAX_CACHE_SIZE_def)
next
  fix c k assume inv: "recipe_inv c"
  then have free: "\<not> rh_locked c" "\<not> enable_hit_count c" by (auto simp: recipe_inv_def)
  show "\<exists>d. get_recipe k c = Inr (fst (lru_get k (recipe_entries c)), d) \<and> recipe_inv d \<and>
      recipe_entries d = snd (lru_get k (recipe_entries c))"
  proof (cases "map_of (cache_map c) k")
    case None
    then show ?thesis using inv free map_of_entries [OF inv, of k] recipe_inv_lock [OF inv]
      by (simp add: get_recipe_def with_lock_free lru_get_def)
  next
    case (Some r)
    have u: "use_key k (c\<lparr> rh_locked := True \<rparr>)\<lparr> rh_locked := False \<rparr> = use_key k c" using free(1) by (simp add: use_key_def)
    have "get_recipe k c = Inr (Some r, use_key k c)"
      using Some free u by (simp add: get_recipe_def with_lock_free increaseHitCount_nolock_def) (simp add: use_key_def)
    then show ?thesis using use_key_step [OF inv Some] map_of_entries [OF inv, of k] Some by (simp add: lru_get_def)
  qed
next
  fix c k r assume inv: "recipe_inv c" and k: "map_of (recipe_entries c) k = None"
  then have free: "\<not> rh_locked c" "\<not> enable_hit_count c" by (auto simp: recipe_inv_def)
  let ?c = "c\<lparr> rh_locked := True \<rparr>"
  have none: "map_of (cache_map ?c) k = None" using k map_of_entries [OF inv, of k] by simp
  from rh_insert_step [OF recipe_inv_lock [OF inv] _ none, of r] obtain d where
    d: "rh_insert r k ?c = Inr d" "recipe_inv (d\<lparr> rh_locked := False \<rparr>)"
      "recipe_entries d = lru_put MAX_CACHE_SIZE k r (recipe_entries c)" by auto
  have "\<not> enable_hit_count d" using d(2) by (simp add: recipe_inv_def)
  then have "get_recipe_or_create k (Some r) c = Inr (Some r, d\<lparr> rh_locked := False \<rparr>)"
    using none d(1) free by (simp add: get_recipe_or_create_def with_lock_free increaseHitCount_nolock_def)
  then show "\<exists>d. get_recipe_or_create k (Some r) c = Inr (Some r, d) \<and> recipe_inv d \<and>
      recipe_entries d = lru_put MAX_CACHE_SIZE k r (recipe_entries c)"
    using d by (intro exI [of _ "d\<lparr> rh_locked := False \<rparr>"]) simp
qed

section \<open>Sequences of requests\<close>

definition lru_serve :: "nat \<Rightarrow> 'k \<times> 'v option \<Rightarrow> ('k \<times> 'v) list \<Rightarrow> 'v option \<times> ('k \<times> 'v) list" where
  "lru_serve n q l = (case map_of l (fst q) of
     Some v \<Rightarrow> lru_get (fst q) l
   | None \<Rightarrow> (case snd q of None \<Rightarrow> (None, l) | Some v \<Rightarrow> (Some v, lru_put n (fst q) v l)))"

fun lru_run :: "nat \<Rightarrow> ('k \<times> 'v option) list \<Rightarrow> ('k \<times> 'v) list \<Rightarrow> 'v option list \<times> ('k \<times> 'v) list" where
  "lru_run n [] l = ([], l)"
| "lru_run n (q # qs) l =
     (let (x, l) = lru_serve n q l; (xs, l) = lru_run n qs l in (x # xs, l))"

fun recipe_run :: "(nat \<times> nat option) list \<Rightarrow> recipe_cache \<Rightarrow> (nat option list \<times> recipe_cache) res" where
  "recipe_run [] c = Inr ([], c)"
| "recipe_run (q # qs) c =
     bindR (get_recipe_or_create (fst q) (snd q) c) (\<lambda>(x, c).
     bindR (recipe_run qs c) (\<lambda>(xs, c). Inr (x # xs, c)))"

lemma get_or_create_cached: "map_of (cache_map c) k = Some r \<Longrightarrow> get_recipe_or_create k v c = get_recipe k c"
  by (simp add: get_recipe_or_create_def get_recipe_def with_lock_def)

lemma get_or_create_none:
  "recipe_inv c \<Longrightarrow> map_of (cache_map c) k = None \<Longrightarrow>
     \<exists>d. get_recipe_or_create k None c = Inr (None, d) \<and> recipe_inv d \<and> recipe_entries d = recipe_entries c"
  using recipe_inv_lock [of c]
  by (simp add: get_recipe_or_create_def with_lock_free recipe_inv_def)

lemma serve_step:
  assumes inv: "recipe_inv c"
  shows "\<exists>d. get_recipe_or_create (fst q) (snd q) c = Inr (fst (lru_serve MAX_CACHE_SIZE q (recipe_entries c)), d) \<and>
    recipe_inv d \<and> recipe_entries d = snd (lru_serve MAX_CACHE_SIZE q (recipe_entries c))"
proof (cases "map_of (recipe_entries c) (fst q)")
  case (Some r)
  then have "map_of (cache_map c) (fst q) = Some r" using map_of_entries [OF inv] by simp
  from get_or_create_cached [OF this] Some recipes.get_law [OF inv, of "fst q"]
  show ?thesis by (simp add: lru_serve_def)
next
  case None
  then have n: "map_of (cache_map c) (fst q) = None" using map_of_entries [OF inv] by simp
  show ?thesis
  proof (cases "snd q")
    case None
    then show ?thesis using get_or_create_none [OF inv n] \<open>map_of (recipe_entries c) (fst q) = None\<close>
      by (simp add: lru_serve_def)
  next
    case (Some v)
    then show ?thesis using recipes.put_law [OF inv None, of v] None by (simp add: lru_serve_def)
  qed
qed

lemma recipe_run_step:
  "recipe_inv c \<Longrightarrow> \<exists>d. recipe_run qs c = Inr (fst (lru_run MAX_CACHE_SIZE qs (recipe_entries c)), d) \<and>
     recipe_inv d \<and> recipe_entries d = snd (lru_run MAX_CACHE_SIZE qs (recipe_entries c))"
proof (induction qs arbitrary: c)
  case (Cons q qs)
  from serve_step [OF Cons.prems, of q] obtain d where
    d: "get_recipe_or_create (fst q) (snd q) c = Inr (fst (lru_serve MAX_CACHE_SIZE q (recipe_entries c)), d)"
      "recipe_inv d" "recipe_entries d = snd (lru_serve MAX_CACHE_SIZE q (recipe_entries c))" by blast
  from Cons.IH [OF d(2)] show ?case using d(1,3) by (auto simp: split_beta)
qed simp

text \<open>With hit counts the lock is taken a second time.\<close>

lemma hit_count_blocks:
  assumes "enable_hit_count c" "rh_locked c"
  shows "increaseHitCount_nolock key c = Inl Would_block"
  using assms by (simp add: increaseHitCount_nolock_def getHitCount_def with_lock_def)

end
