(* ===== verification/Spec2Isabelle.thy ===== *)
theory Spec2Isabelle
  imports Pool_Events Device_Example Stream_Example Host_Memory Recipe_Cache
begin

unbundle bit_operations_syntax

text \<open>
  Verification of the runtime of the PyTorch bridge below its graph layers: the device memory, the
  host memory, the streams with their events, and the cache of recipes
  (\<open>src/backend/synapse_helpers\<close>, with the users of it in \<open>HPUAllocator.cpp\<close> and \<open>device.cpp\<close>).

  The program. PyTorch sees the memory of the accelerator as numbers it takes for addresses.
  \<open>mem_handle\<close> makes these numbers: a size class, an index and an offset; \<open>HandlesMap\<close> is the
  table from an index to the device address behind it. The addresses come from the pool
  (\<open>CoalescedStringentPooling\<close>): one block of device memory, cut into chunks that are linked in
  address order, with the free ones sorted into bins by size; a chunk at the low end holds the
  small allocations, one unit each, and the workspace of the running recipe is cut from the high
  end. A free of memory that other streams still use is deferred by events taken from the event
  cache. \<open>device_memory\<close> puts the table and the pool together: memory is taken when a handle is
  first turned into an address; when there is none it waits for recipes to end, then asks the
  \<open>defragmenter\<close> for a region and moves what is in it. A recipe locks the addresses it works on, so
  they do not move meanwhile.

  Work on the device is ordered by \<open>stream_event_manager\<close>: it keeps for each address the event of
  the last writer, makes the streams that read it wait for that event, and each stream's thread
  takes the events out again when they are over. Host buffers come from two caches,
  \<open>MemoryMapper\<close> for mapped ones and \<open>host_memory\<close> for those the library allocates; compiled recipes
  are kept in \<open>recipe_handle_cache\<close>, least recently used out.

  Theories and what they model.
  \<^item> \<open>Mem_Prelude\<close>: errors as values, the sequencing of steps that may throw, 64-bit arithmetic
    written out on natural numbers, lists.
  \<^item> \<open>Mem_Stats\<close>: \<open>device_mem_stats.h\<close>. \<open>Small_Allocs\<close>: the class \<open>SmallAllocs\<close>. \<open>Event_Cache\<close>:
    \<open>event_handle_cache\<close> and the parameters of the device (memory, events, streams) as a record of
    functions.
  \<^item> \<open>Pool_State\<close>, \<open>Pool_Ops\<close>, \<open>Pool_Life\<close>: the pool, operation by operation. Chunks live in a
    heap from host addresses to records, so that \<open>prev\<close>, \<open>next\<close>, the bins and the table of chunks
    alias as in the code; a dereference of a dead pointer is an error value.
  \<^item> \<open>Pool_Inv\<close>, \<open>Pool_Steps\<close>, \<open>Pool_Split_Merge\<close>: the invariant of the linked list, the bins and
    the flags, and that the low-level steps keep it. \<open>Pool_Coalesce\<close>, \<open>Pool_Alloc\<close>, \<open>Pool_Refine\<close>:
    the abstract specification on the list of blocks (best fit, split, join) and the proof that
    the pointer program implements it. \<open>Pool_Workspace\<close>: the same for the workspace.
  \<^item> \<open>Pool_Client\<close>, \<open>Pool_Contract\<close>: what a client relies on, as the locale \<open>suballocator\<close>,
    interpreted for the small allocations and for the whole pool, and in \<open>Host_Memory\<close> for the
    cache of host buffers.
  \<^item> \<open>Pool_Run\<close>, \<open>Pool_Create\<close>, \<open>Pool_Reach\<close>: creation, deferred frees, and the step relation with
    its reachable states. \<open>Pool_Queries\<close>: the read-only operations. \<open>Pool_Events\<close>: the event loops
    and the flag of the workspace. \<open>Pool_Example\<close>: concrete states for the examples.
  \<^item> \<open>Mem_Handle\<close>, \<open>Handles_Map\<close>: handles on 64-bit words and the table, with the locale
    \<open>handle_table\<close> interpreted for it.
  \<^item> \<open>Memory_Mapper\<close>: \<open>memory_mapping.cpp\<close>, the mapped host buffers by size, with what the library
    has mapped as its state.
  \<^item> \<open>Defragmenter\<close>: \<open>memory_defragmentation.cpp\<close>, the list of blocks the pool is seen as and the
    search for the region to move, iterators as indices. \<open>Defrag_Props\<close>: the list tiles the pool,
    and the region is movable, large enough and the one with the least memory to move.
  \<^item> \<open>Device_Memory\<close>, \<open>Device_Address\<close>: \<open>device_memory.cpp\<close>: allocation of handles, frees, the
    movers, \<open>fix_address\<close> with its waits and retries, \<open>lock_addresses\<close>, the workspace.
    \<open>Device_Users\<close>: the workspace buffer of \<open>device.cpp\<close> and the allocator of tensors.
  \<^item> \<open>Device_Pool\<close>, \<open>Device_Inv\<close>, \<open>Device_Run\<close>: the invariant between table and pool (each handle
    with an address has memory of its size in the pool, no two the same, and nothing else of the
    pool is live), kept by creating, resolving and freeing handles, also when other threads act
    during a wait. \<open>Device_Move\<close>, \<open>Device_Defrag\<close>, \<open>Device_Plan\<close>: moving memory keeps it, keeps all
    sizes and leaves fixed memory where it is. \<open>Device_Lock\<close>: locked addresses.
    \<open>Device_Workspace\<close>: the workspace and the tensors. \<open>Device_Reach\<close>: creation, the step relation
    and the reachable states. \<open>Device_Example\<close>: concrete states.
  \<^item> \<open>Stream_Events\<close>: \<open>event.cpp\<close>, \<open>stream.cpp\<close>, \<open>stream_event_manager.cpp\<close>. Shared pointers to
    events are indices into the list of all events. \<open>Stream_Inv\<close>, \<open>Stream_Steps\<close>: the invariant of
    tables, queues and handles, kept by every operation. \<open>Stream_Run\<close>: what the threads have
    completed when their queues are empty, and the reachable states. \<open>Stream_Example\<close>: concrete
    states.
  \<^item> \<open>Host_Memory\<close>: \<open>host_memory.cpp\<close>, its invariant, best fit among the cached buffers, and its
    reachable states.
  \<^item> \<open>Recipe_Cache\<close>: \<open>recipe_handle_cache.cpp\<close>; the locale \<open>lru_cache\<close>, interpreted for it, says that
    any sequence of requests behaves as on a list of at most \<open>MAX_CACHE_SIZE\<close> entries, the latest
    use first.

  Parameters and what is assumed of them. Device and library calls are functions in records
  (\<open>dev_env\<close>, \<open>host_env\<close>, \<open>host_lib\<close>, \<open>syn_env\<close>) and have no definition here. The laws used of them
  are hypotheses of the theorems: device memory lies below \<open>2 ^ 64\<close>, new events, handles and
  buffers differ from those in use (\<open>creates_fresh\<close>, \<open>lib_ok\<close>), waiting for a recorded event
  succeeds (\<open>syncs\<close>). What other threads do while an operation of \<open>device_memory\<close> waits is a
  parameter too, the lists \<open>next_waits\<close> and \<open>next_unlocks\<close> of the record \<open>threads\<close>: each wait takes
  the next element, a function on the state. \<open>polite\<close> asks that these functions keep the
  invariant and the handles of the caller, \<open>drains\<close> that the recipes end at last. A wait that nobody
  ends is the error value \<open>No_return\<close>, a lock that only another thread can release the value
  \<open>Would_block\<close>.

  Bounds and fuel. Loops of the code that follow pointers carry fuel; \<open>getContigousChunkSize\<close> gets
  one more than the number of chunks and the walk over the table one more than its size. The
  eviction loop of the recipe cache gets two more than the number of entries: each round removes
  one. The loops that wait end with the list of waits and need no fuel. A run of a stream's thread is given the number of events to work off, and \<open>events_complete\<close> says that the
  length of its queue is enough. Everywhere the properties prove the result itself, so that the
  fuel is seen to suffice.

  Not modelled. Each operation is one step: of the locks only the two gaps of the event manager
  between its mutexes, the waits of \<open>device_memory\<close> and the mutex of the recipe cache, which one
  path locks twice, are described. Logging, the text of
  statistics, the wait of the event cache at its limit (an error value), the thread of the memory
  logger, and the bytes that copies move. Callbacks of events are listed where they would run; what
  they do is their own. An operation that throws returns an error and no state: what it wrote
  before throwing is not described, except in the device memory and the streams where the code
  catches it. In the step relation of the pool an allocation does not first run
  \<open>process_events\<close>, whose defect is \<open>last_event_asserts\<close>; without pending events the two agree.
  Outside these parts nothing is modelled: the graph layers, kernels and frontends mainly build
  and rewrite graphs of operators whose meaning is in the Synapse compiler and in PyTorch, neither
  of which is in the repository.
\<close>

section \<open>The pool of device memory\<close>

text \<open>
  C5: In every state the operations of the pool reach from \<open>pool_create\<close>, the chunks cover the
  memory of the pool from its first usable byte to its end with no gap and no overlap, no two
  free chunks are neighbours, and the allocations of the clients lie inside the pool and are
  pairwise disjoint.
\<close>

theorem pool_reachable:
  assumes "pool_reach env al n base sz s"
  shows "tiles (base + al) (pool_blocks s) (base + n) \<and> coalesced (pool_blocks s) \<and>
    (\<forall>(p, a)\<in>pool_live s. 0 < a \<and> base + al \<le> p \<and> p + a \<le> base + n \<and>
      (\<forall>(q, b)\<in>pool_live s. (p, a) = (q, b) \<or> p + a \<le> q \<or> q + b \<le> p))"
proof -
  note inv = pool_reach_inv [OF assms] and sp = pool_reach_span [OF assms]
  have ok: "pool_ok s" using inv by (simp add: pool_inv_def)
  have "0 < a \<and> base + al \<le> p \<and> p + a \<le> base + n \<and>
      (\<forall>(q, b)\<in>pool_live s. (p, a) = (q, b) \<or> p + a \<le> q \<or> q + b \<le> p)"
    if "(p, a) \<in> pool_live s" for p a
    using device_pool.live_pos [OF inv that] pool_live_inside [OF inv that] sp
      device_pool.live_disjoint [OF inv that] by auto
  then have "\<forall>(p, a)\<in>pool_live s. 0 < a \<and> base + al \<le> p \<and> p + a \<le> base + n \<and>
      (\<forall>(q, b)\<in>pool_live s. (p, a) = (q, b) \<or> p + a \<le> q \<or> q + b \<le> p)" by blast
  then show ?thesis using pool_tiles [OF ok] sp ok by (simp add: pool_ok_def)
qed

theorem pool_reachable_witness:
  "tiles 4224 (pool_blocks demo_alloc) 4198400 \<and> coalesced (pool_blocks demo_alloc) \<and>
   pool_live demo_alloc = {(790656, 512)}"
  using pool_reachable [OF demo_reach(2)] demo_alloc_facts(4) by simp

text \<open>
  C6: An allocation that is not a small one is exactly the specification on the list of chunks:
  the smallest free chunk that is large enough (of the stream, when the caller asks for it)
  is used, split when \<open>should_split\<close> says so, and the pointer is its address; the pool returns
  0 and is unchanged precisely when no free chunk fits. Nothing else of the pool changes.
\<close>

theorem alloc_refines:
  assumes "pool_inv s" "pool_request (n, st, us) s" "n \<le> max_pool_size s"
    and "\<And>sa. small_allocs s = Some sa \<Longrightarrow> kThreshold sa \<le> n \<or> st \<noteq> 0"
  shows "\<exists>p t. alloc_chunk n st us s = Inr (p, t) \<and> pool_inv t \<and>
    (case alloc_blocks s n st us (pool_blocks s) of
       None \<Rightarrow> p = 0 \<and> t = s
     | Some (b, bs) \<Rightarrow> p = b_addr b \<and> 0 < p \<and> best_fit n st us b (pool_blocks s) \<and>
         pool_blocks t = bs \<and> frame_of t = frame_of s \<and>
         bytes_in_use t = add64 (bytes_in_use s) (taken s n b))"
proof -
  have ok: "pool_ok s" and r: "0 < n" "n < u64_lim" using assms(1,2) by (auto simp: pool_inv_def pool_request_def)
  have "st \<noteq> 0 \<Longrightarrow> small_allocs s \<noteq> None \<Longrightarrow> \<exists>p sa'. sa_Allocate (the (small_allocs s)) n = Inr (p, sa')"
    using assms(1,2) small_okD [OF assms(1)] sa_ok_Allocate [of "the (small_allocs s)" n]
    by (fastforce simp: sa_request_def pool_request_def)
  then have e: "alloc_chunk n st us s = alloc_large n st us s"
    unfolding alloc_chunk_unfold [OF assms(1,2)] using assms(4) sa_Allocate_large
    by (fastforce split: option.splits)
  from alloc_chunk_inv [OF assms(1,2)] obtain p t where
    t: "alloc_chunk n st us s = Inr (p, t)" "pool_inv t" by blast
  then show ?thesis using alloc_large_step [OF ok r assms(3), of st us] e
    by (cases "alloc_blocks s n st us (pool_blocks s)") auto
qed

theorem alloc_refines_witness:
  "\<exists>t. alloc_chunk 512 1 False demo_pool = Inr (790656, t) \<and> map b_size (pool_blocks t) = [786432, 512, 3407232]"
proof -
  note f = demo_pool_facts
  have "\<exists>p t. alloc_chunk 512 1 False demo_pool = Inr (p, t)"
    using alloc_refines [OF f(2) demo_request] f(5) by fastforce
  then show ?thesis using demo_alloc_facts(2,8) by (auto simp: extent_def)
qed

text \<open>
  What the pool returns overlaps no allocation that is live, is as large as the request,
  and becomes live.
\<close>

theorem alloc_disjoint:
  assumes "pool_inv s" "pool_request (n, st, us) s" "alloc_chunk n st us s = Inr (p, t)" "p \<noteq> 0"
  shows "\<exists>a\<ge>n. (p, a) \<in> pool_live t \<and> (\<forall>(q, b)\<in>pool_live s. p + a \<le> q \<or> q + b \<le> p)"
  using device_pool.alloc_fresh [OF assms(1), of "(n, st, us)" p t] assms by simp

theorem alloc_disjoint_witness:
  "\<exists>a\<ge>512. (790656, a) \<in> pool_live demo_alloc"
  using alloc_disjoint [OF demo_pool_facts(2) demo_request demo_alloc_facts(2)] by auto

text \<open>
  Allocating and freeing at once gives back the set of live allocations of before.
\<close>

theorem alloc_free_roundtrip:
  assumes "pool_inv s" "pool_request (n, st, us) s" "alloc_chunk n st us s = Inr (p, t)" "p \<noteq> 0"
  shows "\<exists>u. delete_chunk p t = Inr u \<and> pool_inv u \<and> pool_live u = pool_live s"
  using device_pool.alloc_free_live [OF assms(1), of "(n, st, us)" p t] assms by simp

theorem alloc_free_roundtrip_witness:
  "\<exists>u. delete_chunk 790656 demo_alloc = Inr u \<and> pool_live u = {}"
  using alloc_free_roundtrip [OF demo_pool_facts(2) demo_request demo_alloc_facts(2)]
    demo_pool_facts(3) by auto

text \<open>
  C8: Freeing an idle allocation of the pool is the specification on the list of chunks: its
  chunk becomes free and is joined with the free chunks before and after it; its bytes leave
  \<open>bytes_in_use\<close>, every other allocation stays, and nothing else changes but the flag of the
  workspace.
\<close>

theorem free_refines:
  assumes "pool_inv s" "b \<in> client_blocks s" "b_uses b = []" "b_events b = 0"
  shows "\<exists>t. delete_chunk (b_addr b) s = Inr t \<and> pool_inv t \<and>
    free_block (b_addr b) (pool_blocks s) = Some (pool_blocks t) \<and>
    pool_live t = pool_live s - {extent b} \<and> frame_of t = frame_of s \<and>
    bytes_in_use t = sub64 (bytes_in_use s) (b_size b)"
  using delete_client_inv [OF assms] by blast

theorem free_refines_witness:
  "\<exists>t. delete_chunk 790656 demo_alloc = Inr t \<and>
     free_block 790656 (pool_blocks demo_alloc) = Some (pool_blocks t)"
proof -
  from demo_client obtain b where b: "b \<in> client_blocks demo_alloc" "b_addr b = 790656"
    "b_uses b = []" "b_events b = 0" by blast
  show ?thesis using free_refines [OF demo_alloc_facts(3) b(1,3,4)] b(2) by auto
qed

text \<open>
  C19: Extending the workspace at the high end: the old workspace is given back to the tail, the
  new one is cut from the end of the tail, and the pointer is its address; on a tail too small
  the tail is left marked as used and 0 is returned.
\<close>

theorem workspace_extension:
  assumes "pool_inv s" "0 < sz" "high_memory_allocated s \<Longrightarrow> ws_idle (pool_blocks s)"
  shows "\<exists>p t. extend_high_memory_allocation sz cur s = Inr (p, t) \<and> pool_inv t \<and>
    extend_result sz cur s p t \<and>
    (t = s \<or> (\<exists>w. last (pool_blocks t) = w \<and>
       client_blocks t = insert w (client_blocks s - old_workspace s) \<and>
       (p \<noteq> 0 \<longrightarrow> p = b_addr w \<and> b_size w = sz \<and> high_memory_allocated t)))"
  using extend_inv [OF assms(1,2), of cur] assms(3) by blast

theorem workspace_extension_witness:
  "\<exists>t. extend_high_memory_allocation 1024 0 demo_pool = Inr (4197376, t) \<and> high_memory_allocated t"
proof -
  note f = demo_pool_facts
  from f(9) obtain b d where bl: "pool_blocks demo_pool = [b, d]" "\<not> b_used d" "b_addr d = 790656"
    "b_size d = 3407744" by (auto simp: extent_def)
  have "ws_start False [b, d] = [b, d]" by (simp add: ws_start_def)
  moreover have "b_addr (ws_block m 1024 [b, d]) = 4197376" for m
    using ws_cut_last(4) [of 1024 "[b, d]" m] bl by simp
  ultimately show ?thesis
    using workspace_extension [OF f(2), of 1024 0] f(5,6) bl
    by (auto simp: extend_result_def Let_def)
qed

text \<open>
  When the base address and the size of the pool are multiples of the alignment, so are the
  address and the size of every chunk of every reachable state, whatever was allocated, freed or
  reserved for the workspace.
\<close>

theorem reachable_aligned:
  assumes "pool_reach env al n base sz s" "al dvd base" "al dvd n" "b \<in> set (pool_blocks s)"
  shows "al dvd b_addr b \<and> al dvd b_size b"
  using pool_reach_aligned [OF assms(1-3)] pool_reach_span [OF assms(1)] assms(4)
  by (simp add: pool_aligned_def aligned_blocks_def)

theorem reachable_aligned_witness:
  "128 dvd b_addr (last (pool_blocks demo_alloc))"
proof -
  have "last (pool_blocks demo_alloc) \<in> set (pool_blocks demo_alloc)"
    using demo_alloc_facts(8) by auto
  from reachable_aligned [OF demo_reach(2) _ _ this] show ?thesis by simp
qed

text \<open>
  \<open>bytes_in_use\<close> and the total size of the chunks in use change together, modulo the
  width of the counter, by an allocation and by a free: what the counter holds beyond the chunks
  is constant.
\<close>

theorem bytes_in_use_accounting:
  assumes "pool_inv s"
    and "pool_request (n, st, us) s \<and> n \<le> max_pool_size s \<and> alloc_chunk n st us s = Inr (p, t) \<or>
      (p, a) \<in> pool_live s \<and> pool_idle p s \<and> delete_chunk p s = Inr t"
  shows "add64 (bytes_in_use t) (used_size s) = add64 (bytes_in_use s) (used_size t)"
  using assms(2) same_overhead_chunk [OF assms(1), of n st us p t]
    same_overhead_delete [OF assms(1), of p a t] by (auto simp: same_overhead_def)

theorem bytes_in_use_accounting_witness:
  "add64 (bytes_in_use demo_alloc) (used_size demo_pool) = add64 (bytes_in_use demo_pool) (used_size demo_alloc)"
proof -
  note f = demo_pool_facts
  have "pool_request (512, 1, False) demo_pool \<and> 512 \<le> max_pool_size demo_pool \<and>
      alloc_chunk 512 1 False demo_pool = Inr (790656, demo_alloc)"
    using demo_request demo_alloc_facts(2) f(5) by simp
  then show ?thesis
    using bytes_in_use_accounting [OF f(2), of 512 1 False 790656 demo_alloc 0] by blast
qed



text \<open>
  \<open>get_max_cntgs_chunk_size\<close>, which walks the list in both directions from every free
  chunk, returns the size of the largest free chunk, 0 when none is free: free chunks are never
  neighbours.
\<close>

theorem max_contiguous_chunk:
  assumes "pool_inv s"
  shows "get_max_cntgs_chunk_size s = Inr (Max (insert 0 (b_size ` {b \<in> set (pool_blocks s). \<not> b_used b})))"
  using get_max_cntgs_chunk_size_blocks [of s] assms
  by (simp add: pool_inv_def fold_max_Max free_sizes_def)

theorem max_contiguous_chunk_witness:
  "get_max_cntgs_chunk_size demo_alloc = Inr 3407232"
proof -
  from demo_alloc_facts(8) have "b_size ` {b \<in> set (pool_blocks demo_alloc). \<not> b_used b} = {3407232}"
    by (auto simp: extent_def)
  then show ?thesis using max_contiguous_chunk [OF demo_alloc_facts(3)] by simp
qed

text \<open>
  \<open>get_occupied_chunk_map\<close> lists the address and size of each chunk in use, in order of
  address.
\<close>

theorem occupied_chunk_map:
  assumes "pool_inv s"
  shows "get_occupied_chunk_map s = Inr (map extent (used_blocks (pool_blocks s)))"
  using get_occupied_chunk_map_blocks [of s] assms by (simp add: pool_inv_def)

theorem occupied_chunk_map_witness:
  "get_occupied_chunk_map demo_alloc = Inr [(4224, 786432), (790656, 512)]"
  using occupied_chunk_map [OF demo_alloc_facts(3)] demo_alloc_facts(8) by auto

text \<open>
  For every live allocation, small or not, \<open>allocated_size\<close> is the size it was given.
\<close>

theorem allocated_size_of_live:
  assumes "pool_inv s" "(p, a) \<in> pool_live s"
  shows "allocated_size p s = Inr a"
  using assms by (rule allocated_size_live)

theorem allocated_size_of_live_witness: "allocated_size 790656 demo_alloc = Inr 512"
  using allocated_size_of_live [OF demo_alloc_facts(3)] demo_alloc_facts(4) by simp
text \<open>
  C25: Freeing an allocation that other streams still use does not give its memory back: it
  stays live at its address, the streams are cleared, and one event per stream is pending.
\<close>

theorem deferred_free:
  assumes "pool_inv s" "b \<in> client_blocks s" "b_uses b \<noteq> []"
    "pool_free_chunk env (b_addr b) s = Inr t"
  shows "pool_inv t \<and> pool_live t = pool_live s \<and> bytes_in_use t = bytes_in_use s \<and>
    block_of t (b_id b) = b\<lparr> b_uses := [], b_events := b_events b + int (length (b_uses b)) \<rparr>"
  using free_deferred_step [OF assms] by (simp add: same_view_def)

theorem deferred_free_witness:
  "\<exists>t u. record_stream demo_env 790656 2 demo_alloc = Inr t \<and>
     pool_free_chunk demo_env 790656 t = Inr u \<and> pool_live u = {(790656, 512)}"
proof -
  obtain t u b where *: "record_stream demo_env 790656 2 demo_alloc = Inr t" "pool_inv t"
    "pool_live t = {(790656, 512)}" "b \<in> client_blocks t" "b_addr b = 790656" "b_uses b \<noteq> []"
    "pool_free_chunk demo_env 790656 t = Inr u" by (rule demo_deferred)
  then show ?thesis using deferred_free [OF *(2,4,6), of demo_env u] by auto
qed

text \<open>
  C30: When the last event of a chunk is complete, the event loops call \<open>delete_chunk\<close> with the
  host address of the chunk instead of its device address: unless that number happens to be a
  device address in the table or in the small region, the lookup's assertion fails.
\<close>

theorem last_event_asserts:
  assumes "chunk_heap s c = Some k" "c_event_count k = 1" "c \<noteq> 0"
    and "\<And>sa. small_allocs s = Some sa \<Longrightarrow> c < sa_chunk_ptr sa \<or> sa_chunk_ptr sa + kSize sa \<le> c"
    and "map_of (chunks s) c = None"
  shows "decrement_event c s = Inl Assert_failed"
  using assms by (rule decrement_event_last)

theorem last_event_asserts_witness:
  "decrement_event 1 (demo_new\<lparr> chunk_heap := [1 \<mapsto> Chunk_new\<lparr> c_memptr := 4096, c_event_count := 1 \<rparr>],
     chunks := [(4096, 1)] \<rparr>) = Inl Assert_failed"
  by (rule last_event_asserts [where k = "Chunk_new\<lparr> c_memptr := 4096, c_event_count := 1 \<rparr>"])
    (simp_all add: demo_new_def pool_new_def)

text \<open>
  When the chunk before the workspace is free, freeing the workspace joins the two and
  leaves \<open>high_memory_allocated\<close> set, although the tail is now free memory.
\<close>

theorem workspace_flag_survives_free:
  assumes "pool_inv s" "high_memory_allocated s" "pool_blocks s = xs @ [f, b]" "\<not> b_used f"
    "b \<in> client_blocks s" "b_uses b = []" "b_events b = 0"
  shows "\<exists>t. delete_chunk (b_addr b) s = Inr t \<and> high_memory_allocated t \<and>
    extent (last (pool_blocks t)) = (b_addr f, b_size f + b_size b) \<and> \<not> b_used (last (pool_blocks t))"
  using free_workspace_merged [OF assms] by blast

theorem workspace_flag_survives_free_witness:
  "\<exists>s t. extend_high_memory_allocation 1024 0 demo_pool = Inr (4197376, s) \<and>
     delete_chunk 4197376 s = Inr t \<and> high_memory_allocated t \<and> \<not> b_used (last (pool_blocks t))"
proof -
  obtain s b f e where *: "extend_high_memory_allocation 1024 0 demo_pool = Inr (4197376, s)" "pool_inv s"
    "high_memory_allocated s" "pool_blocks s = [b, f, e]" "\<not> b_used f" "e \<in> client_blocks s"
    "b_uses e = []" "b_events e = 0" "b_addr e = 4197376" by (rule demo_workspace)
  show ?thesis
    using workspace_flag_survives_free [of s "[b]" f e] * by fastforce
qed



text \<open>
  C32: A workspace request that the free tail cannot hold returns 0, but the tail stays marked
  as used without being counted: every later request for a workspace returns 0 too.
\<close>

theorem failed_workspace_leaks:
  assumes "pool_inv s" "\<not> high_memory_allocated s" "\<not> b_used (last (pool_blocks s))"
    "b_size (last (pool_blocks s)) < sz" "sz \<le> max_pool_size s"
  shows "\<exists>t. extend_high_memory_allocation sz cur s = Inr (0, t) \<and>
    bytes_in_use t = bytes_in_use s \<and> used_size t = used_size s + b_size (last (pool_blocks s)) \<and>
    (\<forall>n c. 0 < n \<longrightarrow> n \<le> max_pool_size t \<longrightarrow> extend_high_memory_allocation n c t = Inr (0, t))"
  using extend_too_large [OF assms] by blast

theorem failed_workspace_leaks_witness:
  "\<exists>t. extend_high_memory_allocation 4000000 0 demo_pool = Inr (0, t) \<and>
     used_size t = used_size demo_pool + 3407744"
proof -
  note f = demo_pool_facts
  have "\<not> b_used (last (pool_blocks demo_pool))" "b_size (last (pool_blocks demo_pool)) = 3407744"
    using f(9) by (auto simp: extent_def)
  then show ?thesis using failed_workspace_leaks [OF f(2,6), of 4000000 0] f(5) by auto
qed

text \<open>
  \<open>Log2FloorNonZero\<close> is the floor of the binary logarithm of every number from 1 on
  (on 0 it wraps).
\<close>

theorem log2_floor:
  assumes "0 < n" "n < u64_lim"
  shows "2 ^ Log2FloorNonZero n \<le> n \<and> n < 2 ^ (Log2FloorNonZero n + 1)"
  using assms by (rule Log2FloorNonZero_bounds)

theorem log2_floor_witness: "2 ^ Log2FloorNonZero 1000 \<le> (1000 :: nat)"
  using log2_floor [of 1000] by (simp only: u64_lim_def) simp

text \<open>
  C33: The bins hold exactly the free chunks, each in the bin of its size, and each bin is
  sorted by size and address.
\<close>

theorem bins_hold_free_chunks:
  assumes "pool_inv s" "i < kNumBins"
  shows "bin_sorted (chunk_heap s) (bins s ! i) \<and>
    set (bins s ! i) = {c \<in> set (chunks_ordered s). \<exists>k. chunk_heap s c = Some k \<and> \<not> c_used k \<and>
      BinIndexForSize s (c_size k) = i}"
proof -
  have inv: "pinv {} (chunks_ordered s) s" using assms(1) by (simp add: pool_inv_def pool_ok_def)
  then have b: "bin_sorted (chunk_heap s) (bins s ! i)"
    "\<And>c. c \<in> set (bins s ! i) \<longleftrightarrow> (\<exists>k. chunk_heap s c = Some k \<and> \<not> c_used k \<and> c_bin_index k = i)"
    using assms(2) by (auto simp: pinv_def bins_ok_def)
  have "c \<in> set (chunks_ordered s)" "\<not> c_used k \<Longrightarrow> c_bin_index k = BinIndexForSize s (c_size k)"
    if "chunk_heap s c = Some k" for c k
    using inv that by (auto simp: pinv_def flags_ok_def links_ok_def dom_def)
  then show ?thesis using b by auto
qed

theorem bins_hold_free_chunks_witness: "bin_sorted (chunk_heap demo_alloc) (bins demo_alloc ! 0)"
  using bins_hold_free_chunks [OF demo_alloc_facts(3), of 0] by (simp add: kNumBins_def)

text \<open>
  The allocator of small blocks serves one unit at a time: it returns the first free unit
  and marks it, it returns 0 when all units are taken or the size is at or above the threshold.
\<close>

theorem small_allocate:
  assumes "sa_inv sa" "sa_chunk_ptr sa \<noteq> 0" "sa_Allocate sa n = Inr (p, sa')"
  shows "sa_inv sa' \<and>
     (if p = 0 then sa' = sa \<and> (kThreshold sa \<le> n \<or> False \<notin> set (sa_map sa))
      else n = kAlignment sa \<and>
        (\<exists>i<kUnits sa. p = unit_ptr sa i \<and> \<not> sa_map sa ! i \<and> (\<forall>j<i. sa_map sa ! j) \<and>
           sa_map sa' = (sa_map sa)[i := True]))"
  using sa_Allocate_spec [OF assms] by blast

theorem small_allocate_witness:
  "\<exists>p sa. sa_Allocate demo_small 128 = Inr (p, sa) \<and> sa_inv sa \<and> p = 5120"
proof -
  have r: "sa_Allocate demo_small 128 =
      Inr (5120, demo_small\<lparr> sa_map := [True, False, False, False], sa_size := [128, 0, 0, 0] \<rparr>)"
    by (simp add: demo_small_def sa_Allocate_def sa_ToUnits_def sa_ToBytes_def mul64_def fill_n_def)
  show ?thesis using small_allocate [OF demo_small_inv _ r] r by (simp add: demo_small_def)
qed

text \<open>
  C34: Deallocating what was just allocated restores the allocator of small blocks exactly.
\<close>

theorem small_roundtrip:
  assumes "sa_inv sa" "sa_chunk_ptr sa \<noteq> 0" "sa_Allocate sa n = Inr (p, sa')" "p \<noteq> 0"
  shows "sa_Deallocate sa' p = Inr sa"
  using assms by (rule sa_Allocate_Deallocate)

theorem small_roundtrip_witness:
  "\<exists>sa. sa_Allocate demo_small 128 = Inr (5120, sa) \<and> sa_Deallocate sa 5120 = Inr demo_small"
proof -
  have r: "sa_Allocate demo_small 128 =
      Inr (5120, demo_small\<lparr> sa_map := [True, False, False, False], sa_size := [128, 0, 0, 0] \<rparr>)"
    by (simp add: demo_small_def sa_Allocate_def sa_ToUnits_def sa_ToBytes_def mul64_def fill_n_def)
  show ?thesis using small_roundtrip [OF demo_small_inv _ r] r by (simp add: demo_small_def)
qed

text \<open>
  A small block that is not allocated cannot be freed: the second free of a unit fails its
  assertion.
\<close>

theorem small_double_free:
  assumes "sa_inv sa" "sa_chunk_ptr sa \<noteq> 0" "i < kUnits sa" "\<not> sa_map sa ! i"
  shows "sa_Deallocate sa (unit_ptr sa i) = Inl Assert_failed"
  using sa_Deallocate_unit [OF assms(1-3)] assms(4) by simp

theorem small_double_free_witness: "sa_Deallocate demo_small 5248 = Inl Assert_failed"
  using small_double_free [OF demo_small_inv, of 1] by (simp add: demo_small_def unit_ptr_def)

text \<open>
  The cache of events never hands out the same event twice: with a device that creates new
  handles, the events out and in the cache stay distinct and their number is the counter.
\<close>

theorem event_cache_distinct:
  assumes "ec_inv ec out" "get_free_handle env ec = Inr (h, ec')"
    and "\<And>n h. de_event_create env n = Some h \<Longrightarrow> h \<notin> set (ec_free_handles ec @ out)"
  shows "ec_inv ec' (h # out) \<and> (h \<noteq> 0 \<longrightarrow>
    (\<exists>ec''. release_handle h ec' = Inr ec'' \<and> ec_inv ec'' out \<and> get_free_handle env ec'' = Inr (h, ec')))"
proof -
  have i: "ec_inv ec' (h # out)" by (rule get_free_handle_inv [OF assms(1,2)]) (rule assms(3))
  have "\<exists>ec''. release_handle h ec' = Inr ec'' \<and> ec_inv ec'' out \<and> get_free_handle env ec'' = Inr (h, ec')"
    if h: "h \<noteq> 0"
  proof -
    obtain ec'' where "release_handle h ec' = Inr ec''" using h by (simp add: release_handle_def)
    then show ?thesis using release_handle_inv [OF i] release_get_roundtrip by blast
  qed
  then show ?thesis using i by blast
qed

theorem event_cache_distinct_witness:
  "\<exists>ec. get_free_handle demo_env (event_handle_cache_new 0) = Inr (1, ec) \<and> ec_inv ec [1]"
proof -
  have r: "get_free_handle demo_env (event_handle_cache_new 0) =
      Inr (1, (event_handle_cache_new 0)\<lparr> ec_events_count := 1 \<rparr>)"
    by (simp add: get_free_handle_def event_handle_cache_new_def NUM_EVENTS_MAX_def demo_env_def)
  have "ec_inv ((event_handle_cache_new 0)\<lparr> ec_events_count := 1 \<rparr>) [1]"
    using event_cache_distinct [OF ec_inv_new r] by (simp add: event_handle_cache_new_def)
  then show ?thesis using r by blast
qed
section \<open>Memory handles\<close>

text \<open>
  C35: A handle whose class, index and offset fit is turned into a pointer and back unchanged,
  and the pointer of the offset is the pointer of offset 0 plus the offset: arithmetic on the
  artificial pointers stays inside the tensor.
\<close>

theorem handle_pointer_roundtrip:
  assumes "handle_ok h"
  shows "\<exists>p. reinterpret_to_pointer h = Inr p \<and> reinterpret_from_pointer p = Inr h \<and>
    reinterpret_to_pointer (unoffseted h) = Inr (p - mh_offset h)"
proof -
  from handle_ok_class [OF assms] obtain ty i off where h: "h = \<lparr> mh_id = create_memhandle ty i, mh_offset = off \<rparr>"
    "ty < 3" "fits_class (class_bits ty) i off" by metis
  have z: "fits_class (class_bits ty) i 0" using h(3) class_bits_cases [of ty] by (auto simp: fits_class_def)
  have "pointer_of (class_bits ty) ty i off - off = pointer_of (class_bits ty) ty i 0"
    using pointer_of_offset [OF class_bits_cases h(3), of ty] by simp
  then show ?thesis
    using to_pointer_class [OF h(2,3)] from_pointer_class [OF h(2,3)] to_pointer_class [OF h(2) z]
    by (simp add: h(1) unoffseted_def)
qed

theorem handle_pointer_roundtrip_witness:
  "\<exists>p. reinterpret_to_pointer \<lparr> mh_id = 5, mh_offset = 7 \<rparr> = Inr p \<and>
     reinterpret_from_pointer p = Inr \<lparr> mh_id = 5, mh_offset = 7 \<rparr>"
proof -
  have "handle_ok \<lparr> mh_id = 5, mh_offset = 7 \<rparr>" by code_simp
  from handle_pointer_roundtrip [OF this] show ?thesis by blast
qed

text \<open>
  Every 64-bit number whose two top bits are not 3 is the pointer of exactly the handle it
  is read as: no two handles that fit share a pointer.
\<close>

theorem pointer_handle_roundtrip:
  assumes "drop_bit 62 p < (3 :: 64 word)"
  shows "\<exists>h. reinterpret_from_pointer p = Inr h \<and> handle_ok h \<and> reinterpret_to_pointer h = Inr p"
proof -
  let ?ty = "drop_bit 62 p"
  from pointer_class [OF assms] obtain i off where f: "fits_class (class_bits ?ty) i off"
    "p = pointer_of (class_bits ?ty) ?ty i off" by blast
  have "i < 2 ^ (62 - class_bits ?ty)" "off < 2 ^ class_bits ?ty" using f(1) by (simp_all add: fits_class_def)
  moreover have "(2 :: 64 word) ^ (62 - class_bits ?ty) < 2 ^ 62"
    using class_bits_cases [of ?ty] by auto
  ultimately have "i < 2 ^ 62" by (meson order_less_trans)
  note bc = bucket_create [OF assms this]
  have "handle_ok \<lparr> mh_id = create_memhandle ?ty i, mh_offset = off \<rparr>"
    using bc assms f(1) by (simp add: handle_ok_def)
  then show ?thesis
    using from_pointer_class [OF assms f(1)] to_pointer_class [OF assms f(1)] f(2) by metis
qed

theorem pointer_handle_roundtrip_witness:
  "\<exists>h. reinterpret_from_pointer 12345678901 = Inr h \<and> reinterpret_to_pointer h = Inr 12345678901"
proof -
  have "drop_bit 62 (12345678901 :: 64 word) < 3" by code_simp
  from pointer_handle_roundtrip [OF this] show ?thesis by blast
qed

text \<open>
  C36: The bounds of \<open>ensure_fits_ptr\<close> are off by one: the offset one past the largest tensor of
  a class is accepted, and for an odd index its bit is lost, so the pointer is that of offset 0
  of the same handle.
\<close>

theorem offset_bound_off_by_one:
  assumes "ty < 3" "i < 2 ^ (62 - class_bits ty)" "bit i 0"
  shows "reinterpret_to_pointer \<lparr> mh_id = create_memhandle ty i, mh_offset = 2 ^ class_bits ty \<rparr> =
    reinterpret_to_pointer \<lparr> mh_id = create_memhandle ty i, mh_offset = 0 \<rparr>"
  using assms by (rule offset_at_bound)

theorem offset_bound_off_by_one_witness:
  "reinterpret_to_pointer \<lparr> mh_id = 5, mh_offset = 4194304 \<rparr> =
   reinterpret_to_pointer \<lparr> mh_id = 5, mh_offset = 0 \<rparr>"
proof -
  have "(0 :: 64 word) < 3" "5 < (2 :: 64 word) ^ (62 - class_bits 0)" "bit (5 :: 64 word) 0"
    "create_memhandle 0 5 = 5" "(2 :: 64 word) ^ class_bits 0 = 4194304" by code_simp+
  from offset_bound_off_by_one [OF this(1-3)] show ?thesis using \<open>create_memhandle 0 5 = 5\<close>
    \<open>2 ^ class_bits 0 = 4194304\<close> by simp
qed

text \<open>
  \<open>reinterpret_from_pointer\<close> accepts class 3, which it then looks up past the end of
  \<open>bucketInfo\<close>; \<open>reinterpret_to_pointer\<close> rejects it.
\<close>

theorem from_pointer_class_3:
  assumes "drop_bit 62 p = (3 :: 64 word)"
  shows "reinterpret_from_pointer p = Inl Undefined \<and>
    reinterpret_to_pointer \<lparr> mh_id = p, mh_offset = off \<rparr> = Inl Fatal"
  using assms by (simp add: reinterpret_from_pointer_def reinterpret_to_pointer_def bucket_at_def
      bucketInfo_def total_bits_def Let_def)

theorem from_pointer_class_3_witness:
  "reinterpret_from_pointer (push_bit 62 3) = Inl Undefined"
  using from_pointer_class_3 [of "push_bit 62 3" 0] by simp

text \<open>
  C37: Inserting into the table of handles returns an id that was not in use, adds its record and
  changes no other; erasing it gives the table of before, and the id can then not be read.
\<close>

theorem handles_insert_erase:
  assumes "hm_inv m" "hm_room (sz, us) m"
  shows "\<exists>i t u. hm_Insert sz us m = Inr (i, t) \<and> hm_inv t \<and> hm_lookup m i = None \<and>
    hm_lookup t = (hm_lookup m)(i \<mapsto> Record_new sz us) \<and>
    hm_GetPtrSize i t = Inr \<lparr> ps_ptr = 0, ps_size = sz, ps_stream = us \<rparr> \<and>
    hm_Erase i t = Inr u \<and> hm_inv u \<and> hm_lookup u = hm_lookup m \<and> hm_GetPtrSize i u = Inl Fatal"
proof -
  from handle_map.insert_law [OF assms] obtain i t where t: "hm_Insert sz us m = Inr (i, t)" "hm_inv t"
    "hm_lookup m i = None" "hm_lookup t = (hm_lookup m)(i \<mapsto> Record_new sz us)" by auto
  from handle_map.insert_erase [OF assms, of i t] t(1) obtain u where
    u: "hm_Erase i t = Inr u" "hm_inv u" "hm_lookup u = hm_lookup m" by auto
  have b: "unat (get_bucket_index i) < 3" using lookup_bucket [OF t(2), of i] t(4) by simp
  show ?thesis using t u hm_GetPtrSize_lookup [OF t(2) b] hm_GetPtrSize_lookup [OF u(2) b]
    by (auto simp: Record_new_def)
qed

theorem handles_insert_erase_witness:
  "\<exists>i t. hm_Insert 4096 0 HandlesMap_new = Inr (i, t) \<and> hm_lookup t i = Some (Record_new 4096 0)"
proof -
  have "hm_room (4096, 0) HandlesMap_new"
    by (simp add: hm_room_def bucket_for_size HandlesMap_new_def class_bits_def)
  from handles_insert_erase [OF hm_inv_new this] show ?thesis by fastforce
qed

text \<open>
  Every operation on an id that is not in use is rejected, and every one that changes a
  record leaves all the others as they were.
\<close>

theorem handles_guard:
  assumes "hm_inv m" "unat (get_bucket_index i) < 3"
  shows "(hm_lookup m i = None \<longrightarrow> hm_GetPtrSize i m = Inl Fatal \<and> hm_SetPtrSize i ps m = Inl Fatal \<and>
      hm_Erase i m = Inl Fatal \<and> hm_MarkMemoryFixed i m = Inl Fatal \<and> hm_ResetHandlesMap i m = Inl Fatal) \<and>
    (\<forall>r. hm_lookup m i = Some r \<longrightarrow> (\<exists>t. hm_SetPtrSize i ps m = Inr t \<and> hm_inv t \<and>
      hm_lookup t = (hm_lookup m)(i \<mapsto> r\<lparr> hr_ptr_size := ps \<rparr>)))"
proof (intro conjI impI allI)
  assume n: "hm_lookup m i = None"
  note c = hm_check_lookup(1) [OF assms]
  show "hm_GetPtrSize i m = Inl Fatal" "hm_SetPtrSize i ps m = Inl Fatal" "hm_Erase i m = Inl Fatal"
    "hm_MarkMemoryFixed i m = Inl Fatal" "hm_ResetHandlesMap i m = Inl Fatal"
    using c n by (simp_all add: hm_GetPtrSize_def hm_SetPtrSize_def hm_Erase_def hm_MarkMemoryFixed_def
        hm_ResetHandlesMap_def)
next
  fix r assume l: "hm_lookup m i = Some r"
  then have a: "hr_active r" by (auto simp: hm_lookup_def split: option.splits if_splits)
  show "\<exists>t. hm_SetPtrSize i ps m = Inr t \<and> hm_inv t \<and> hm_lookup t = (hm_lookup m)(i \<mapsto> r\<lparr> hr_ptr_size := ps \<rparr>)"
    using hm_change(1) [OF assms(1) l, of ps] hm_update_inv [OF assms(1) l, of "\<lambda>r. r\<lparr> hr_ptr_size := ps \<rparr>"]
      hm_lookup_update [OF assms(1) l, of "\<lambda>r. r\<lparr> hr_ptr_size := ps \<rparr>"] a by (auto simp: fun_eq_iff)
qed

theorem handles_guard_witness: "hm_GetPtrSize 7 HandlesMap_new = Inl Fatal"
proof -
  have b: "unat (get_bucket_index 7) < 3" by code_simp
  have "hm_lookup HandlesMap_new 7 = None" by code_simp
  then show ?thesis using handles_guard [OF hm_inv_new b] by blast
qed

text \<open>
  C38: A range-based loop over the table ends and visits every record in use; besides these it
  yields, in each class, the unused record 0 and the last record whatever its state.
\<close>

theorem handles_iteration:
  assumes "hm_inv m"
  shows "\<exists>rs. hm_records m = Inr rs \<and>
    set rs = (\<Union>b\<in>{0, 1, 2}. record_of m b ` ({0, length (handles m ! b) - 1} \<union>
      {j. j < length (handles m ! b) \<and> hr_active (handles m ! b ! j)}))"
  using hm_records_walk [OF assms] walk_members [OF assms] by blast

theorem handles_iteration_witness: "\<exists>rs. hm_records HandlesMap_new = Inr rs \<and> record_of HandlesMap_new 0 0 \<in> set rs"
  using handles_iteration [OF hm_inv_new] by auto


section \<open>Device memory\<close>



text \<open>
  C2: \<open>lock_addresses\<close> either refuses or returns one address per argument, in order: 0 for a null
  handle, else an address inside the memory the handle has in the state in which the lock is held,
  at the offset of the argument. This holds although translating one argument may move the memory of
  those translated before it, and although other threads run while it waits. Sizes are as before, and
  the memory of a fixed handle has not moved.
\<close>

theorem lock_addresses_sound:
  assumes "device_reach h d" and "polite (ids_of as) w" and "\<forall>a\<in>set as. lockable d a"
  shows "case lock_addresses h as w d of
      Inl e \<Rightarrow> e = Fatal \<or> e = No_return
    | Inr (out, w', d') \<Rightarrow> length out = length as \<and> dm_inv d' \<and>
        (\<forall>k<length as. let i = mh_id (decoded (as ! k)); p = ptr_at (handle2pointer d') i in
           if is_valid i then out ! k = p + unat (mh_offset (decoded (as ! k))) \<and> p \<noteq> 0 \<and>
             unat (mh_offset (decoded (as ! k))) < size_at (handle2pointer d') i \<and>
             (\<exists>a\<ge>size_at (handle2pointer d') i. (p, a) \<in> heap_of d')
           else out ! k = 0) \<and>
        (\<forall>i\<in>ids_of as. size_at (handle2pointer d') i = size_at (handle2pointer d) i \<and>
          (fixed_at (handle2pointer d) i \<and> ptr_at (handle2pointer d) i \<noteq> 0 \<longrightarrow>
             ptr_at (handle2pointer d') i = ptr_at (handle2pointer d) i))"
  using lock_addresses_step [OF device_reach_inv [OF assms(1)] assms(2,3), of h]
proof (elim disjE exE conjE)
  fix w' d' assume l: "lock_addresses h as w d = Inr (map (device_address d' \<circ> decoded) as, w', d')"
    "dm_inv d'" "\<forall>a\<in>set as. resolved d' (decoded a)" and s: "\<forall>i\<in>ids_of as. size_at (handle2pointer d') i =
      size_at (handle2pointer d) i \<and> (fixed_at (handle2pointer d) i \<and> ptr_at (handle2pointer d) i \<noteq> 0 \<longrightarrow>
        ptr_at (handle2pointer d') i = ptr_at (handle2pointer d) i)"
  have "\<exists>a\<ge>size_at (handle2pointer d') i. (ptr_at (handle2pointer d') i, a) \<in> heap_of d'"
    if "ptr_at (handle2pointer d') i \<noteq> 0" for i using resolved_memory [OF l(2) that] by metis
  then show ?thesis using l s by (auto simp: Let_def device_address_def resolved_def)
qed simp_all

theorem lock_addresses_sound_witness:
  "\<exists>q w d. lock_addresses demo_host [fst demo_tensor] demo_idle (snd demo_tensor) = Inr ([q], w, d) \<and> q \<noteq> 0 \<and>
     (\<exists>a\<ge>300. (q, a) \<in> heap_of d)"
proof -
  have l: "\<forall>a\<in>set [fst demo_tensor]. lockable (snd demo_tensor) a" using demo_tensor_facts(8) by simp
  from lock_addresses_sound [OF demo_reach_device(2) demo_polite(1) l] demo_lock(1,3)
  show ?thesis by (auto simp: demo_tensor_id Let_def)
qed





text \<open>
  C7: \<open>defragment_memory\<close> refuses while addresses are locked and no thread gives its lock back. Else
  it reaches a state without locks and from there moves memory only of handles that are not fixed:
  the invariant holds after the moves, sizes are the same, a handle has memory exactly when it had
  some before, and a fixed handle has the same record.
\<close>

theorem defragment_keeps:
  assumes r: "device_reach h d" and w: "polite I w"
  shows "(critical_section d \<noteq> 0 \<and> next_unlocks w = [] \<longrightarrow> defragment_memory h al n grow w d = Inl Fatal) \<and>
    (case defragment_memory h al n grow w d of
       Inl e \<Rightarrow> e = Fatal
     | Inr (ok, w', d') \<Rightarrow> dm_inv d' \<and> critical_section d' = 0 \<and>
         (\<exists>e. step_ok I w d w' e \<and> (\<not> ok \<longrightarrow> d' = e) \<and>
            (\<forall>i. size_at (handle2pointer d') i = size_at (handle2pointer e) i \<and>
               (ptr_at (handle2pointer d') i = 0 \<longleftrightarrow> ptr_at (handle2pointer e) i = 0) \<and>
               (fixed_at (handle2pointer e) i \<longrightarrow> hm_lookup (handle2pointer d') i = hm_lookup (handle2pointer e) i))))"
proof
  show "critical_section d \<noteq> 0 \<and> next_unlocks w = [] \<longrightarrow> defragment_memory h al n grow w d = Inl Fatal"
    by (simp add: defragment_memory_def wait_for_unlocks_def)
  from defragment_memory_step [OF device_reach_inv [OF r] w, of h al n grow]
  show "case defragment_memory h al n grow w d of
       Inl e \<Rightarrow> e = Fatal
     | Inr (ok, w', d') \<Rightarrow> dm_inv d' \<and> critical_section d' = 0 \<and>
         (\<exists>e. step_ok I w d w' e \<and> (\<not> ok \<longrightarrow> d' = e) \<and>
            (\<forall>i. size_at (handle2pointer d') i = size_at (handle2pointer e) i \<and>
               (ptr_at (handle2pointer d') i = 0 \<longleftrightarrow> ptr_at (handle2pointer e) i = 0) \<and>
               (fixed_at (handle2pointer e) i \<longrightarrow> hm_lookup (handle2pointer d') i = hm_lookup (handle2pointer e) i)))"
  proof (elim disjE exE conjE)
    fix ok w' e d' assume x: "defragment_memory h al n grow w d = Inr (ok, w', d')" "step_ok I w d w' e" "compacts e d'"
      "critical_section e = 0" "\<not> ok \<longrightarrow> d' = e"
    note f = compacts_facts [OF x(3)] and z = compacts_zero [OF x(3)] and g = compacts_fixed(2) [OF x(3)]
    have "\<forall>i. size_at (handle2pointer d') i = size_at (handle2pointer e) i \<and>
        (ptr_at (handle2pointer d') i = 0 \<longleftrightarrow> ptr_at (handle2pointer e) i = 0) \<and>
        (fixed_at (handle2pointer e) i \<longrightarrow> hm_lookup (handle2pointer d') i = hm_lookup (handle2pointer e) i)"
      using f(5) z g by blast
    then show ?thesis using x f(1,4) by auto
  qed simp
qed

theorem defragment_keeps_witness:
  "defragment_memory demo_host 128 4096 False demo_idle demo_loaded = Inl Fatal \<and>
   (case defragment_memory demo_host 128 4096 False demo_idle demo_device of
      Inl e \<Rightarrow> e = Fatal | Inr (ok, w, d) \<Rightarrow> dm_inv d)"
proof -
  have "defragment_memory demo_host 128 4096 False demo_idle demo_loaded = Inl Fatal"
    using conjunct1 [OF defragment_keeps [OF demo_lock(2) demo_polite(1), of 128 4096 False]] demo_lock(6)
    by (simp add: demo_idle_def)
  then show ?thesis
    using conjunct2 [OF defragment_keeps [OF demo_reach_device(1) demo_polite(1), of 128 4096 False]]
    by (auto split: sum.splits)
qed

text \<open>
  C12: \<open>fix_address\<close> returns the address of the memory of the handle, and no defragmentation after it
  moves that memory.
\<close>

theorem fixed_address_stays:
  assumes r: "device_reach h d" and w: "polite I w" and i: "i \<in> I" "sized d i"
    and p: "reinterpret_from_pointer p = Inr \<lparr> mh_id = i, mh_offset = 0 \<rparr>"
  shows "case fix_address h p w d of
      Inl e \<Rightarrow> e = Fatal \<or> e = No_return \<and> \<not> drains w
    | Inr (q, w', d') \<Rightarrow> q \<noteq> 0 \<and> ptr_at (handle2pointer d') i = q \<and>
        (case defragment_memory h al n grow w' d' of
           Inl e \<Rightarrow> e = Fatal | Inr (ok, w'', d'') \<Rightarrow> ptr_at (handle2pointer d'') i = q)"
  using fix_address_step [OF device_reach_inv [OF r] w i p, of h]
proof (elim disjE exE conjE)
  fix q w' d' assume x: "fix_address h p w d = Inr (q, w', d')" "step_ok I w d w' d'" "q \<noteq> 0"
    "fixed_at (handle2pointer d') i" "ptr_at (handle2pointer d') i = q"
  have "polite I w'" "dm_inv d'" using step_okD [OF x(2)] by auto
  from defragment_memory_step [OF this(2,1), of h al n grow] show ?thesis
  proof (elim disjE exE conjE)
    fix ok v e f assume y: "defragment_memory h al n grow w' d' = Inr (ok, v, f)" "step_ok I w' d' v e" "compacts e f"
    have k: "keeps I d' e" using step_okD [OF y(2)] by simp
    have "ptr_at (handle2pointer e) i = q \<and> fixed_at (handle2pointer e) i"
      using k i(1) x(3-5) by (auto simp: keeps_def)
    then show ?thesis using x y(1) compacts_fixed(2) [OF y(3)] by (simp add: ptr_at_def)
  qed (use x in simp)
qed simp_all

theorem fixed_address_stays_witness:
  "\<exists>q w d. fix_address demo_host (fst demo_tensor) demo_idle (snd demo_tensor) = Inr (q, w, d) \<and> q \<noteq> 0 \<and>
     ptr_at (handle2pointer d) demo_id = q"
proof -
  note t = demo_tensor_facts
  obtain q w d where x: "fix_address demo_host (fst demo_tensor) demo_idle (snd demo_tensor) = Inr (q, w, d)"
    using fix_address_fits [OF t(2,4) demo_tensor_id(2) t(6), of demo_host demo_idle] t(5,9) by auto
  from fixed_address_stays [OF demo_reach_device(2) demo_polite(1) UNIV_I demo_tensor_id(2) t(4), of 128 300 False] x
  show ?thesis by simp
qed

text \<open>
  C9: The two ways to free a handle in use that no stream is recorded for do the same: the handle
  leaves the table, no other changes, and its memory, and nothing else, goes back to the pool.
  Freeing it again is refused.
\<close>

theorem free_releases:
  assumes r: "device_reach h d" and n: "not_reset d i"
    and p: "reinterpret_from_pointer p = Inr \<lparr> mh_id = i, mh_offset = 0 \<rparr>"
  shows "\<exists>d'. dm_free env p d = Inr d' \<and> dm_free_with_stream env p d = Inr d' \<and> dm_inv d' \<and>
    hm_lookup (handle2pointer d') = (hm_lookup (handle2pointer d))(i := None) \<and>
    heap_of d' = {q \<in> heap_of d. fst q \<noteq> ptr_at (handle2pointer d) i} \<and>
    dm_free env p d' = Inl Fatal \<and> dm_free_with_stream env p d' = Inl Fatal"
proof -
  note inv = device_reach_inv [OF r]
  from dm_free_step [OF inv n p, of env] obtain d' where d: "dm_free env p d = Inr d'"
    "dm_free_with_stream env p d = Inr d'" "dm_inv d'"
    "hm_lookup (handle2pointer d') = (hm_lookup (handle2pointer d))(i := None)"
    "heap_of d' = {q \<in> heap_of d. fst q \<noteq> ptr_at (handle2pointer d) i}" by blast
  have m: "hm_inv (handle2pointer d)" using inv by (simp add: dm_inv_def table_ok_def)
  from n obtain q where l: "hm_lookup (handle2pointer d) i = Some q" by (auto simp: not_reset_def split: option.splits)
  have "p \<noteq> 0" using p from_pointer_0 lookup_valid [OF m l] by (auto simp: is_valid_def)
  moreover have "hm_lookup (handle2pointer d') i = None" using d(4) by simp
  ultimately show ?thesis using d dm_free_dead [OF d(3) _ lookup_bucket [OF m l] _ p, of env] by auto
qed

theorem free_releases_witness:
  "\<exists>d. dm_free (hs_env demo_host) (fst demo_tensor) demo_loaded = Inr d \<and>
     (\<forall>a. (ptr_at (handle2pointer demo_loaded) demo_id, a) \<notin> heap_of d) \<and>
     dm_free (hs_env demo_host) (fst demo_tensor) d = Inl Fatal"
  using free_releases [OF demo_lock(2,5) demo_tensor_facts(4), of "hs_env demo_host"] by auto

text \<open>
  C21: A tensor that is allocated and deleted leaves the table and the pool as they were. Allocating it
  takes no device memory at all, and the pointer that PyTorch gets is the pointer of a handle that was
  not in use.
\<close>

theorem tensor_roundtrip:
  assumes r: "device_reach h d" and n: "0 < n" "n < 2 ^ 42"
    and room: "hm_room (of_nat n, if hs_record_stream h then st else 0) (handle2pointer d)"
  shows "\<exists>p i d1 d2. tensor_allocate h True n st w d = Inr (p, w, d1) \<and> p \<noteq> 0 \<and>
    reinterpret_from_pointer p = Inr \<lparr> mh_id = i, mh_offset = 0 \<rparr> \<and> hm_lookup (handle2pointer d) i = None \<and>
    heap_of d1 = heap_of d \<and> size_at (handle2pointer d1) i = n \<and> tensor_delete h True p d1 = Inr d2 \<and> dm_inv d2 \<and>
    hm_lookup (handle2pointer d2) = hm_lookup (handle2pointer d) \<and> heap_of d2 = heap_of d"
proof -
  from tensor_allocate_step [OF device_reach_inv [OF r] n room, of w] obtain p i d1 where
    a: "tensor_allocate h True n st w d = Inr (p, w, d1)" "dm_inv d1" "p \<noteq> 0"
      "reinterpret_from_pointer p = Inr \<lparr> mh_id = i, mh_offset = 0 \<rparr>" "hm_lookup (handle2pointer d) i = None"
      "size_at (handle2pointer d1) i = n" "ptr_at (handle2pointer d1) i = 0" "not_reset d1 i" "suballoc d1 = suballoc d"
      "\<forall>k. k \<noteq> i \<longrightarrow> hm_lookup (handle2pointer d1) k = hm_lookup (handle2pointer d) k" by blast
  from dm_free_step [OF a(2,8,4), of "hs_env h"] obtain d2 where
    f: "dm_free (hs_env h) p d1 = Inr d2" "dm_free_with_stream (hs_env h) p d1 = Inr d2" "dm_inv d2"
      "hm_lookup (handle2pointer d2) = (hm_lookup (handle2pointer d1))(i := None)"
      "heap_of d2 = {q \<in> heap_of d1. fst q \<noteq> ptr_at (handle2pointer d1) i}" by blast
  have "tensor_delete h True p d1 = Inr d2" using f(1,2) by (simp add: tensor_delete_def)
  moreover have "hm_lookup (handle2pointer d2) = hm_lookup (handle2pointer d)"
    using f(4) a(5,10) by (auto simp: fun_eq_iff)
  moreover have h1: "heap_of d1 = heap_of d" using a(9) by (simp add: heap_of_def)
  moreover have "heap_of d2 = heap_of d1" using f(5) a(7) heap_of_pos [OF a(2)] by auto
  ultimately show ?thesis using a(1,3-6) f(3) by (metis (no_types, lifting))
qed

theorem tensor_roundtrip_witness:
  "\<exists>p d1 d2. tensor_allocate demo_host True 300 0 demo_idle demo_device = Inr (p, demo_idle, d1) \<and>
     tensor_delete demo_host True p d1 = Inr d2 \<and> heap_of d2 = {}"
  using tensor_roundtrip [OF demo_reach_device(1), of 300 0 demo_idle] demo_room demo_device_facts(3,4) by auto



section \<open>The defragmenter\<close>

text \<open>
  C22: The map of the memory. From the blocks in use, in order and without overlap,
  \<open>CreateMemoryMap\<close> makes a list that tiles the memory of the pool from its start to its end, passes
  \<open>ValidateMemoryMap\<close>, and in which the blocks that are not free are exactly those given.
\<close>

theorem memory_map_tiles:
  assumes "placed (mem_start_ptr d) bs (mem_end_ptr d)" and "\<forall>b\<in>set bs. mb_state b \<noteq> FREE"
    and "mem_end_ptr d < u64_lim"
  shows "mtiles (mem_start_ptr d) (CreateMemoryMap d bs) (mem_end_ptr d) \<and>
    filter (\<lambda>b. mb_state b \<noteq> FREE) (CreateMemoryMap d bs) = bs \<and> ValidateMemoryMap d (CreateMemoryMap d bs)"
  using CreateMemoryMap_tiles [OF assms] ValidateMemoryMap_mtiles by metis

theorem memory_map_tiles_witness:
  "let d = \<lparr> df_alignment = 128, mem_start_ptr = 4096, mem_end_ptr = 8192, workspace_ptr = 0, workspace_size = 0,
         small_allocs_ptr = 4096, small_allocs_size = 1024, small_allocs_threshold = 256 \<rparr>;
       b = \<lparr> mb_state = IN_USE, mb_handle = 3, mb_ptr = 6144, mb_size = 100, mb_actual_size = 128, mb_stream = 0 \<rparr>
   in ValidateMemoryMap d (CreateMemoryMap d [b]) \<and> CreateMemoryMap d [b] \<noteq> [b]"
  using memory_map_tiles [of "\<lparr> df_alignment = 128, mem_start_ptr = 4096, mem_end_ptr = 8192, workspace_ptr = 0,
      workspace_size = 0, small_allocs_ptr = 4096, small_allocs_size = 1024, small_allocs_threshold = 256 \<rparr>"
      "[\<lparr> mb_state = IN_USE, mb_handle = 3, mb_ptr = 6144, mb_size = 100, mb_actual_size = 128, mb_stream = 0 \<rparr>]"]
  by (simp add: u64_lim_def CreateMemoryMap_def)

text \<open>
  C20: The region for an allocation. A region serves a request when it starts with free memory, lies in
  the window, holds no fixed block and has enough free memory. When there is one,
  \<open>SelectRegionForResourceAllocation\<close> finds one, and of all of them one with the least memory in use;
  when there is none it says so. It never fails.
\<close>

theorem region_selection:
  assumes "in_order bs"
  shows "if \<exists>i j. candidate bs sz ps pe i j
    then \<exists>r. candidate bs sz ps pe (rg_begin r) (rg_end r) \<and>
      (\<forall>i j. candidate bs sz ps pe i j \<longrightarrow> used_sum bs (rg_begin r) (rg_end r) \<le> used_sum bs i j) \<and>
      SelectRegionForResourceAllocation bs sz ps pe out =
        Inr (True, needs_moves bs (rg_begin r) (rg_end r),
             if needs_moves bs (rg_begin r) (rg_end r) then Some r else snd out)
    else SelectRegionForResourceAllocation bs sz ps pe out = Inr (False, out)"
  by (rule select_region_complete [OF assms])

theorem region_selection_witness:
  "\<exists>r :: region. candidate demo_map 150 0 250 (rg_begin r) (rg_end r) \<and>
     fst (projr (SelectRegionForResourceAllocation demo_map 150 0 250 (False, None)))"
proof -
  have "\<exists>i j. candidate demo_map 150 0 250 i j" using demo_map_facts(2) by blast
  with region_selection [OF demo_map_facts(1), of 150 0 250 "(False, None)"] obtain r :: region where
    "candidate demo_map 150 0 250 (rg_begin r) (rg_end r)"
    "fst (projr (SelectRegionForResourceAllocation demo_map 150 0 250 (False, None)))" by auto
  then show ?thesis by blast
qed

text \<open>
  C23: The region for a larger workspace. When the free memory before the workspace is enough, the
  search finds the region that ends at the workspace, holds no fixed block, has enough free memory and
  would not have enough if it started one block later.
\<close>

theorem workspace_region:
  assumes "in_order bs" and "\<forall>b\<in>set bs. mb_ptr b < pe" and "0 < sub64 sz (workspace_size d)"
    and "\<not> workspace_fits bs sz" and "sub64 sz (workspace_size d) \<le> ws_free_memory ps pe bs 0"
  shows "\<exists>r. SelectRegionForWorkspaceGrow d bs sz ps pe out =
       Inr (True, needs_moves bs (rg_begin r) (rg_end r),
            if needs_moves bs (rg_begin r) (rg_end r) then Some r else snd out) \<and>
     rg_begin r < rg_end r \<and> rg_end r = ws_end bs \<and> unfixed bs (rg_begin r) (ws_end bs) \<and>
     sub64 sz (workspace_size d) \<le> free_sum bs (rg_begin r) (ws_end bs) \<and>
     free_sum bs (rg_begin r + 1) (ws_end bs) < sub64 sz (workspace_size d)"
  by (rule ws_grow_sound [OF assms])

theorem workspace_region_witness:
  "let d = \<lparr> df_alignment = 128, mem_start_ptr = 0, mem_end_ptr = 250, workspace_ptr = 0, workspace_size = 0,
         small_allocs_ptr = 0, small_allocs_size = 0, small_allocs_threshold = 0 \<rparr>
   in fst (projr (SelectRegionForWorkspaceGrow d demo_map 150 0 250 (False, None)))"
proof -
  let ?d = "\<lparr> df_alignment = 128, mem_start_ptr = 0, mem_end_ptr = 250, workspace_ptr = 0, workspace_size = 0,
         small_allocs_ptr = 0, small_allocs_size = 0, small_allocs_threshold = 0 \<rparr>"
  have "\<forall>b\<in>set demo_map. mb_ptr b < 250" "0 < sub64 150 (workspace_size ?d)" "\<not> workspace_fits demo_map 150"
    "sub64 150 (workspace_size ?d) \<le> ws_free_memory 0 250 demo_map 0"
    by (simp_all add: demo_map_def free_mem_def workspace_fits_def sub64_def u64_lim_def)
  from workspace_region [OF demo_map_facts(1) this, of "(False, None)"] show ?thesis by (auto simp: Let_def)
qed

section \<open>Pinned host buffers\<close>

text \<open>
  C39: \<open>map\<close> never returns a buffer that another client holds, and \<open>unmap\<close> of what was returned
  releases exactly that buffer; the buffers held by the others stay held. Buffers of all sizes stay
  pairwise different.
\<close>

theorem map_unmap:
  assumes "mm_inv m" and "mm_map env sz m = (a, t)" and "ae_ok a"
  shows "mm_inv t \<and> ae_ptr a \<notin> held m \<and> held t = insert (ae_ptr a) (held m) \<and>
    mm_inv (mm_unmap a t) \<and> held (mm_unmap a t) = held m"
proof -
  note s = mm_map_step [OF assms]
  then have "held (mm_unmap a t) = held t - {ae_ptr a} \<and> mm_inv (mm_unmap a t)"
    using mm_unmap_step [of t a] by auto
  then show ?thesis using s by auto
qed

theorem map_unmap_witness:
  "let (a, t) = mm_map demo_host_env 4096 memory_mapper_new in held t = {1} \<and> held (mm_unmap a t) = {}"
proof -
  let ?a = "\<lparr> ae_size = 4096, ae_idx = 0, ae_ptr = 1, ae_ok = True \<rparr>"
  obtain t where t: "mm_map demo_host_env 4096 memory_mapper_new = (?a, t)"
    by (simp add: mm_map_def fe_acquire_def entries_of_def memory_mapper_new_def demo_host_env_def)
  have "held memory_mapper_new = {}" by (simp add: held_def entries_of_def memory_mapper_new_def)
  then show ?thesis using map_unmap [OF mm_inv_new t] by (simp add: t)
qed

text \<open>
  C40: \<open>drop_cache\<close> keeps every buffer that is held but closes the gaps in the vectors, so the index in
  a client's entry may then be that of another buffer: with one free buffer before two held ones,
  unmapping the first held one after \<open>drop_cache\<close> releases the second, which the next \<open>map\<close> hands out
  although it is held.
\<close>

theorem drop_cache_moves_indices:
  assumes "mm_inv m" and "mapped_locations m = [(sz, [f, u, v])]" and "\<not> me_in_use f" "me_in_use u" "me_in_use v"
  shows "held (snd (mm_drop_cache env m)) = held m \<and>
    (\<exists>b t. mm_map env sz (mm_unmap \<lparr> ae_size = sz, ae_idx = 1, ae_ptr = me_buf u, ae_ok = True \<rparr>
       (snd (mm_drop_cache env m))) = (b, t) \<and> ae_ok b \<and> ae_ptr b = me_buf v \<and> me_buf v \<in> held m)"
  using mm_drop_cache_step [OF assms(1), of env] unmap_after_drop [OF assms(2-5), of env] by blast

theorem drop_cache_moves_indices_witness:
  "\<exists>m b t. mm_inv m \<and> 3 \<in> held m \<and> mm_map demo_host_env 64 (mm_unmap
      \<lparr> ae_size = 64, ae_idx = 1, ae_ptr = 2, ae_ok = True \<rparr> (snd (mm_drop_cache demo_host_env m))) = (b, t) \<and>
      ae_ptr b = 3"
proof -
  define m where "m = \<lparr> mapped_locations = [(64, [\<lparr> me_in_use = False, me_buf = 1 \<rparr>, \<lparr> me_in_use = True, me_buf = 2 \<rparr>,
     \<lparr> me_in_use = True, me_buf = 3 \<rparr>])], mm_next_buf = 4 \<rparr>"
  have "mm_inv m" by (auto simp: m_def mm_inv_def entries_of_def)
  moreover have "mapped_locations m = [(64, [\<lparr> me_in_use = False, me_buf = 1 \<rparr>, \<lparr> me_in_use = True, me_buf = 2 \<rparr>,
     \<lparr> me_in_use = True, me_buf = 3 \<rparr>])]" by (simp add: m_def)
  ultimately show ?thesis using drop_cache_moves_indices [of m 64 _ _ _ demo_host_env] by fastforce
qed

section \<open>Events and streams\<close>

text \<open>
  C3: In every state that clients and the threads of the streams reach, the two tables of the manager
  list exactly the addresses and names of the events that are not done; these events have different
  handles, none of which is in the cache; each that is not partial waits exactly once in the queue of
  its own stream; and no callback has run twice or for an event that is not done. So the destructor
  is never fatal for an event that nothing refers to.
\<close>

theorem events_reachable:
  assumes "creates_fresh env" and "syncs env" and "sem_reach env s"
  shows "(\<forall>p e. producer s p = Some e \<longleftrightarrow> pending s e \<and> p \<in> set (ev_ptrs (the_event s e))) \<and>
    (\<forall>i e. named s i = Some e \<longleftrightarrow> pending s e \<and> i \<in> set (ev_ids (the_event s e))) \<and>
    (\<forall>e f. pending s e \<and> pending s f \<and> ev_handle (the_event s e) = ev_handle (the_event s f) \<longrightarrow> e = f) \<and>
    (\<forall>e. pending s e \<longrightarrow> ev_handle (the_event s e) \<noteq> 0 \<and> ev_handle (the_event s e) \<notin> set (ec_free_handles (sm_cache s))) \<and>
    (\<forall>e. pending s e \<and> \<not> ev_partial (the_event s e) \<longrightarrow>
      e \<in> set (queue_of s (ev_stream (the_event s e)))) \<and> (\<forall>st. distinct (queue_of s st)) \<and>
    distinct (sm_called s) \<and> (\<forall>e\<in>set (sm_called s). ev_done (the_event s e)) \<and>
    (\<forall>e<length (sm_events s). (\<forall>st. e \<notin> set (queue_of s st)) \<longrightarrow> (\<exists>t. event_destroy e s = Inr t) \<or> ev_handle (the_event s e) = 0)"
proof -
  have core: "sem_core env s (queue_of s) {}" using sem_reach_inv [OF assms(3,1,2)] by (simp add: sem_inv_def)
  then have c: "tables_ok s" "queues_ok s (queue_of s) {}" "handles_ok env s" "calls_ok s {}" by (auto simp: sem_core_def)
  have "(\<exists>t. event_destroy e s = Inr t) \<or> ev_handle (the_event s e) = 0"
    if "e < length (sm_events s)" "\<forall>st. e \<notin> set (queue_of s st)" for e
    using that c(2) by (auto simp: queues_ok_def event_destroy_def pending_def release_handle_def)
  then show ?thesis
    using tables_okD(1,2) [OF c(1)] handles_okD(3,4,5) [OF c(3)] created_pos [OF assms(1)] c(2,4)
    by (simp add: queues_ok_def calls_ok_def) blast
qed

theorem events_reachable_witness:
  "producer demo_event 4096 = Some 0 \<longleftrightarrow> pending demo_event 0 \<and> 4096 \<in> set (ev_ptrs (the_event demo_event 0))"
  using events_reachable [OF demo_syn_ok demo_event_facts(1)] by blast

text \<open>
  C4: The thread of a stream completes what is registered on it. From a reachable state with the
  events \<open>es\<close> in the queue, as many rounds without new events run without an error, complete exactly
  the events \<open>ds\<close> of \<^term>\<open>gc_spec\<close> in that order (in the order of registration, a partial event
  after the next one that is not partial), run their callbacks in that order, and leave all other
  events alone. Every event of the queue that is not partial is among them; afterwards no address
  names one of them as its writer, so whoever waits for such an address goes on.
\<close>

theorem events_complete:
  assumes "creates_fresh env" and "syncs env" and "sem_reach env s" and "st < length (sm_streams s)"
    and "gc_phase (sm_streams s ! st) = Running" and "tl (pending_cleanups (sm_streams s ! st)) = map Some es"
    and "gc_spec (\<lambda>e. ev_partial (the_event s e)) (partial_events (sm_streams s ! st)) es = (ds, ps)"
  shows "\<exists>t. gc_rounds env st (length es) s = Inr t \<and> partial_events (sm_streams t ! st) = ps \<and>
    (\<forall>k\<in>set ds. ev_done (the_event t k)) \<and> (\<forall>k. k \<notin> set ds \<longrightarrow> the_event t k = the_event s k) \<and>
    sm_called t = rev (filter (\<lambda>k. ev_cb (the_event s k)) ds) @ sm_called s \<and>
    (\<forall>e\<in>set es. \<not> ev_partial (the_event s e) \<longrightarrow> e \<in> set ds) \<and>
    (\<forall>p. producer t p = (case producer s p of None \<Rightarrow> None | Some e \<Rightarrow> if e \<in> set ds then None else Some e)) \<and>
    (\<forall>p e u. producer s p = Some e \<and> e \<in> set ds \<and> wait_for_future env p t = Inr u \<longrightarrow>
      wait_until_address_ready env p t = Inr u)"
proof -
  from gc_rounds_step [OF sem_reach_inv [OF assms(3,1,2)] assms(2,4,5) _ assms(7), of "[]"] assms(6) obtain t where
    t: "gc_rounds env st (length es) s = Inr t" "partial_events (sm_streams t ! st) = ps"
      "\<forall>k\<in>set ds. ev_done (the_event t k)" "\<forall>k. k \<notin> set ds \<longrightarrow> the_event t k = the_event s k"
      "producer t = (\<lambda>a. if \<exists>k\<in>set ds. producer s a = Some k then None else producer s a)"
      "sm_called t = rev (filter (\<lambda>k. ev_cb (the_event s k)) ds) @ sm_called s" by auto
  have pr: "producer t p = (case producer s p of None \<Rightarrow> None | Some e \<Rightarrow> if e \<in> set ds then None else Some e)" for p
    using t(5) by (auto split: option.splits)
  have "wait_until_address_ready env p t = Inr u"
    if "producer s p = Some e" "e \<in> set ds" "wait_for_future env p t = Inr u" for p e u
  proof -
    have "producer u p = None"
      using that pr wait_for_future_step [OF that(3)] by (auto simp: producer_def future_erase_def)
    then show ?thesis using that(3) by (simp add: wait_until_address_ready_def producer_def)
  qed
  then show ?thesis using t pr gc_spec_real [OF assms(7)] by blast
qed

theorem events_complete_witness:
  "\<exists>t. gc_rounds demo_syn 0 1 demo_event = Inr t \<and> ev_done (the_event t 0) \<and> sm_called t = [0] \<and> producer t 4096 = None"
  using events_complete [OF demo_syn_ok demo_event_facts(1), of 0 "[0]" "[0]" "[]"] demo_event_facts by auto

text \<open>
  C14: \<open>add_producer\<close> makes the new event the last writer of exactly the given addresses (repeated
  ones once), takes them from the events that wrote them before, binds the name, and puts the event
  at the end of the queue of its stream after recording it there; nothing else changes. It fails
  only when the library gives no handle or does not record the event.
\<close>

theorem add_producer_last_writer:
  assumes "creates_fresh env" and "syncs env" and "sem_reach env s" and "st < length (sm_streams s)" and "named s i = None"
    and "get_free_handle (se_dev env) (sm_cache s) = Inr (h, c)" and "de_event_record (se_dev env) h st"
  shows "\<exists>e t. add_producer env addrs i st cb s = Inr (e, t) \<and> sem_reach env t \<and> pending t e \<and> \<not> pending s e \<and>
    producer t = (\<lambda>p. if p \<in> set addrs then Some e else producer s p) \<and>
    named t = (if i = [] then named s else (named s)(i \<mapsto> e)) \<and>
    queue_of t = (queue_of s)(st := queue_of s st @ [e]) \<and>
    sm_calls t = EventRecord (ev_handle (the_event t e)) st # sm_calls s \<and>
    (\<forall>k. pending s k \<longrightarrow> pending t k \<and> set (ev_ptrs (the_event t k)) = set (ev_ptrs (the_event s k)) - set addrs)"
proof -
  have inv: "sem_inv env s" by (rule sem_reach_inv [OF assms(3,1,2)])
  from add_producer_returns [OF inv assms(5,6,7), of addrs cb] obtain e t where
    t: "add_producer env addrs i st cb s = Inr (e, t)"
      "sm_calls t = EventRecord (ev_handle (the_event t e)) st # sm_calls s" by blast
  note A = add_producer_step [OF inv assms(4,5) t(1)]
  have r: "sem_reach env t" by (rule sem_reach.step [OF assms(3) sem_step.add_producer [OF assms(4,5) t(1)]])
  have tab: "tables_ok s" "tables_ok t" using inv A(1) by (auto simp: sem_inv_def sem_core_def)
  have new: "\<not> pending s e" using A(2) by (simp add: pending_def)
  have "set (ev_ptrs (the_event t k)) = set (ev_ptrs (the_event s k)) - set addrs" if k: "pending s k" for k
  proof -
    have "p \<in> set (ev_ptrs (the_event t k)) \<longleftrightarrow> p \<in> set (ev_ptrs (the_event s k)) \<and> p \<notin> set addrs" for p
      using tables_okD(1) [OF tab(2), of p k] tables_okD(1) [OF tab(1), of p k] A(4) A(12) [OF k] k new
      by (cases "k = e"; cases "p \<in> set addrs") auto
    then show ?thesis by auto
  qed
  then show ?thesis using t A r new by blast
qed

theorem add_producer_last_writer_witness:
  "\<exists>e t. add_producer demo_syn [4096, 100] ''b'' 1 True demo_event = Inr (e, t) \<and> producer t 4096 = Some e \<and>
     producer t 8192 = producer demo_event 8192"
proof -
  have "\<exists>c. get_free_handle (se_dev demo_syn) (sm_cache demo_event) = Inr (2, c)"
    by (simp add: demo_event_def) (simp add: demo_defs Let_def)
  then obtain c where c: "get_free_handle (se_dev demo_syn) (sm_cache demo_event) = Inr (2, c)" by blast
  show ?thesis
    using add_producer_last_writer [OF demo_syn_ok demo_event_facts(1), of 1 "''b''" 2 c "[4096, 100]" True] c demo_event_facts
    by (fastforce simp: demo_syn_def demo_env_def)
qed



text \<open>
  C26: \<open>add_event_id\<close> does not look whether the new name is taken: the table keeps its entry, but the
  name is added to the event. When the event is completed, the thread of its stream finds another
  event, or after the first time none, under the name, and is fatal.
\<close>

theorem duplicate_name_fatal:
  assumes "creates_fresh env" and "syncs env" and "sem_reach env s" and "named s old = Some e" and "named s i = Some f"
  shows "named (add_event_id old i s) = named s \<and> synchronize_event env e (add_event_id old i s) = Inl Fatal"
proof -
  have "named (add_event_id old i s) = named s"
    using assms(4,5) by (simp add: add_event_id_def named_def emplace_def fun_eq_iff push_id_def)
  then show ?thesis using duplicate_name_step [OF sem_reach_inv [OF assms(3,1,2)] assms(4,5)] by simp
qed

theorem duplicate_name_fatal_witness:
  "synchronize_event demo_syn 0 (add_event_id ''a'' ''a'' demo_event) = Inl Fatal"
  using duplicate_name_fatal [OF demo_syn_ok demo_event_facts(1,3,3)] by blast

text \<open>
  C27: \<open>wait_for_future\<close> erases the address without looking whether the future it waited for is still
  there. When two threads wait for the same address and the first then registers a new future, the
  second erases the new one: whoever waits for the address later does not wait at all, although
  the new future is not ready.
\<close>

theorem future_lost:
  assumes "map_of (future_by_addr s) p = Some f" and "f \<noteq> 0" and "se_ready env f" and "g \<noteq> 0" and "\<not> se_ready env g"
  shows "future_lookup env p s = Inr True \<and>
    (\<exists>u v. wait_for_future env p s = Inr u \<and> add_future env p g u = Inr v \<and>
      wait_for_future env p v = Inl Would_block \<and>
      wait_for_future env p (future_erase p v) = Inr (future_erase p v))"
proof -
  have "future_lookup env p s = Inr True" using assms(1-3) by (simp add: future_lookup_def)
  moreover from this have "wait_for_future env p s = Inr (future_erase p s)" by (simp add: wait_for_future_def)
  moreover have none: "map_of (future_by_addr (future_erase p x)) p = None" for x
    by (simp add: future_erase_def map_of_delete)
  moreover have "add_future env p g (future_erase p s) =
      Inr ((future_erase p s)\<lparr> future_by_addr := AList.update p g (future_by_addr (future_erase p s)) \<rparr>)"
    using none by (simp add: add_future_def)
  moreover have "wait_for_future env p ((future_erase p s)\<lparr> future_by_addr := AList.update p g (future_by_addr (future_erase p s)) \<rparr>) =
      Inl Would_block"
    using assms(4,5) by (simp add: wait_for_future_def future_lookup_def update_conv')
  moreover have "wait_for_future env p (future_erase p x) = Inr (future_erase p x)" for x
    using none by (simp add: wait_for_future_def future_lookup_def)
  ultimately show ?thesis by blast
qed

theorem future_lost_witness:
  "\<exists>u v. wait_for_future demo_syn 64 (demo_event\<lparr> future_by_addr := [(64, 5)] \<rparr>) = Inr u \<and>
     add_future demo_syn 64 50 u = Inr v \<and> wait_for_future demo_syn 64 (future_erase 64 v) = Inr (future_erase 64 v)"
  using future_lost [of "demo_event\<lparr> future_by_addr := [(64, 5)] \<rparr>" 64 5 demo_syn 50] by (auto simp: demo_syn_def)

text \<open>
  C28: \<open>add_producer\<close> binds the addresses with the lock held and records the event after releasing it.
  A stream that asks for one of the addresses in between is made to wait on a handle that has not
  been recorded for this event: the wait comes before the record, with no record in between.
\<close>

theorem wait_before_record:
  assumes "creates_fresh env" and "syncs env" and "sem_reach env s" and "named s i = None" and "distinct ps" and "p \<in> set ps"
    and "map_of (future_by_addr s) p = None" and "event_new env st ps i cb s = Inr (e, u)" and "other \<noteq> st"
    and "se_stream_wait env other (ev_handle (the_event u e))"
  shows "\<exists>v w. publish_event i e u = Inr v \<and> enqueue_wait_event env p other v = Inr w \<and>
    sm_calls w = StreamWaitEvent other (ev_handle (the_event u e)) # sm_calls s \<and>
    (\<forall>t. register_pending_event env st e True w = Inr t \<longrightarrow>
      sm_calls t = EventRecord (ev_handle (the_event u e)) st # StreamWaitEvent other (ev_handle (the_event u e)) # sm_calls s)"
proof -
  have core: "sem_core env s (queue_of s) {}" using sem_reach_inv [OF assms(3,1,2)] by (simp add: sem_inv_def)
  then have rest: "rest_ok env s (queue_of s) {}" by (simp add: sem_core_rest)
  have F: "\<forall>f\<in>{}. f < length (sm_events s)" by simp
  note E = event_new_step [OF rest assms(8) F]
  from publish_new_step [OF core F assms(8,5,4)] obtain v where
    v: "publish_event i e u = Inr v" "same_rest u v" "producer v = (\<lambda>p. if p \<in> set ps then Some e else producer s p)" by blast
  have ev: "\<not> ev_done (the_event v e)" "ev_stream (the_event v e) = st" "ev_handle (the_event v e) = ev_handle (the_event u e)"
    "sm_calls v = sm_calls s" "future_by_addr v = future_by_addr s"
    using v(2) E by (simp_all add: same_rest_def)
  have "wait_for_future env p v = Inr v" using assms(7) ev(5) by (simp add: wait_for_future_def future_lookup_def)
  then have "enqueue_wait_event env p other v =
      Inr (v\<lparr> sm_calls := StreamWaitEvent other (ev_handle (the_event u e)) # sm_calls s \<rparr>)"
    using v(3) assms(6,9,10) ev by (simp add: enqueue_wait_event_def producer_def stream_wait_event_def)
  then show ?thesis using v(1) ev(3) by (auto simp: register_pending_event_def Let_def split: if_splits)
qed

theorem wait_before_record_witness:
  "\<exists>u v w. event_new demo_syn 0 [100] ''b'' True demo_event = Inr (1, u) \<and> publish_event ''b'' 1 u = Inr v \<and>
     enqueue_wait_event demo_syn 100 1 v = Inr w \<and> sm_calls w = StreamWaitEvent 1 2 # sm_calls demo_event"
proof -
  have "\<exists>u. event_new demo_syn 0 [100] ''b'' True demo_event = Inr (1, u) \<and> ev_handle (the_event u 1) = 2"
    by (simp add: demo_event_def) (simp add: demo_defs Let_def)
  then obtain u where u: "event_new demo_syn 0 [100] ''b'' True demo_event = Inr (1, u)" "ev_handle (the_event u 1) = 2" by blast
  show ?thesis
    using wait_before_record [OF demo_syn_ok demo_event_facts(1,16) _ _ _ u(1), of 100 1] u demo_event_facts(11)
    by (fastforce simp: demo_syn_def)
qed

section \<open>Host memory\<close>

text \<open>
  C16: In every state that requests, frees and drops of the cache reach, a request of \<open>n\<close> bytes returns
  memory of at least \<open>n\<close> bytes that overlaps no live buffer and leaves the live ones alone. While a
  cached buffer is large enough the request succeeds without the library and takes the smallest such
  buffer. When it fails, no cached buffer was large enough and the pointer is null.
\<close>

theorem host_malloc_sound:
  assumes "lib_ok env" and "host_reach env m" and "0 < n"
  shows "\<exists>ok p t. host_malloc env n m = Inr (ok, p, t) \<and> host_reach env t \<and> ok = (p \<noteq> 0) \<and>
    (if ok then \<exists>a\<ge>n. host_live t = insert (p, a) (host_live m) \<and> (\<forall>(q, b)\<in>host_live m. p + a \<le> q \<or> q + b \<le> p) \<and>
        (\<forall>(q, k)\<in>host_cached m. hl_cache_enabled env \<and> n \<le> k \<longrightarrow>
          (p, a) \<in> host_cached m \<and> a \<le> k \<and> hl_buffers t = hl_buffers m)
     else host_live t = host_live m \<and> (\<forall>(q, k)\<in>host_cached m. hl_cache_enabled env \<longrightarrow> k < n))"
proof -
  have inv: "host_inv env m" by (rule host_reach_inv [OF assms(2,1)])
  from host_malloc_step [OF inv assms(3)] obtain ok p t where
    m: "host_malloc env n m = Inr (ok, p, t)" "host_inv env t" "ok = (p \<noteq> 0)"
      "if p = 0 then host_live t = host_live m
       else \<exists>a\<ge>n. (p, a) \<notin> host_live m \<and> host_live t = insert (p, a) (host_live m)" by blast
  have r: "host_reach env t" by (rule host_reach.step [OF assms(2) host_step.malloc [OF assms(3) m(1)]])
  note fit = host_malloc_best_fit [OF inv assms(3) m(1)]
  show ?thesis
  proof (cases ok)
    case False
    then have "k < n" if "hl_cache_enabled env" "(q, k) \<in> host_cached m" for q k
      using fit [OF that] by (cases "n \<le> k") auto
    then show ?thesis using m r False by auto
  next
    case True
    with m(3,4) obtain a where a: "n \<le> a" "(p, a) \<notin> host_live m" "host_live t = insert (p, a) (host_live m)" by auto
    have "p + a \<le> q \<or> q + b \<le> p" if "(q, b) \<in> host_live m" for q b
      using host_cache.live_disjoint [OF m(2), of p a q b] a that by auto
    then have dis: "\<forall>(q, b)\<in>host_live m. p + a \<le> q \<or> q + b \<le> p" by blast
    have "(p, a) \<in> host_cached m \<and> a \<le> k \<and> hl_buffers t = hl_buffers m"
      if k: "hl_cache_enabled env" "(q, k) \<in> host_cached m" "n \<le> k" for q k
    proof -
      from fit [OF k] obtain b where b: "(p, b) \<in> host_cached m" "b \<le> k" "host_live t = insert (p, b) (host_live m)"
        "hl_buffers t = hl_buffers m" by blast
      have "(p, a) \<in> host_live t" "(p, b) \<in> host_live t" using a(3) b(3) by auto
      then have "a = b" using host_cache.live_inj [OF m(2)] by blast
      then show ?thesis using b by simp
    qed
    then have "\<forall>(q, k)\<in>host_cached m. hl_cache_enabled env \<and> n \<le> k \<longrightarrow>
        (p, a) \<in> host_cached m \<and> a \<le> k \<and> hl_buffers t = hl_buffers m" by blast
    then have "\<exists>a\<ge>n. host_live t = insert (p, a) (host_live m) \<and> (\<forall>(q, b)\<in>host_live m. p + a \<le> q \<or> q + b \<le> p) \<and>
        (\<forall>(q, k)\<in>host_cached m. hl_cache_enabled env \<and> n \<le> k \<longrightarrow>
          (p, a) \<in> host_cached m \<and> a \<le> k \<and> hl_buffers t = hl_buffers m)" using a(1,3) dis by blast
    then show ?thesis using m(1,3) r True by (intro exI [of _ ok] exI [of _ p] exI [of _ t]) simp
  qed
qed

theorem host_malloc_sound_witness:
  "\<exists>p t. host_malloc demo_host_lib 64 host_memory_new = Inr (p \<noteq> 0, p, t) \<and> host_reach demo_host_lib t"
proof -
  have "lib_ok demo_host_lib" by (rule demo_host_lib_ok)
  then show ?thesis using host_malloc_sound [OF _ host_reach.new, of demo_host_lib 64] by fastforce
qed

text \<open>
  C17: A live buffer is given back by \<open>free\<close> and by \<open>uncached_free\<close>: it is no longer host memory, all
  other buffers stay live, and a second free of it is refused. With the cache on it is the next
  buffer that a request of its size gets, if no other cached one is as large.
\<close>

theorem host_free_once:
  assumes "lib_ok env" and "host_reach env m" and "(p, a) \<in> host_live m"
  shows "\<exists>t u. host_free env p m = Inr t \<and> host_uncached_free env p m = Inr u \<and> host_reach env t \<and> host_reach env u \<and>
    host_live t = host_live m - {(p, a)} \<and> host_live u = host_live m - {(p, a)} \<and> \<not> is_host_memory p t \<and>
    host_free env p t = Inl Assert_failed \<and> host_free env p u = Inl Assert_failed \<and>
    (hl_cache_enabled env \<and> (\<forall>(n, q)\<in>set (available m). n < a) \<longrightarrow>
      (\<exists>v. host_malloc env a t = Inr (True, p, v) \<and> host_live v = host_live m))"
proof -
  have inv: "host_inv env m" by (rule host_reach_inv [OF assms(2,1)])
  from host_release_step [OF inv assms(3), where c = "hl_cache_enabled env"] obtain t where
    t: "host_free env p m = Inr t" "host_inv env t" "host_live t = host_live m - {(p, a)}" by (auto simp: host_free_def)
  from host_release_step [OF inv assms(3), where c = False] obtain u where
    u: "host_uncached_free env p m = Inr u" "host_inv env u" "host_live u = host_live m - {(p, a)}"
    by (auto simp: host_uncached_free_def)
  have i: "is_host_memory p m" using is_host_memory_live [OF inv] assms(3) by blast
  then have r: "host_reach env t" "host_reach env u"
    using host_reach.step [OF assms(2)] host_step.free [OF _ t(1)] host_step.uncached_free [OF _ u(1)] by blast+
  have p0: "p \<noteq> 0" using host_cache.live_pos [OF inv assms(3)] by simp
  have gone: "\<not> is_host_memory p x" if "host_inv env x" "host_live x = host_live m - {(p, a)}" for x
    using that is_host_memory_live [OF that(1)] host_cache.live_inj [OF inv assms(3)] by auto
  have "host_free env p x = Inl Assert_failed" if "\<not> is_host_memory p x" for x
    using that p0 by (auto simp: is_host_memory_def host_free_def host_release_def assertR_def split: option.splits)
  then have "host_free env p t = Inl Assert_failed" "host_free env p u = Inl Assert_failed" "\<not> is_host_memory p t"
    using gone t(2,3) u(2,3) by auto
  moreover have "\<exists>v. host_malloc env a t = Inr (True, p, v) \<and> host_live v = host_live m"
    if "hl_cache_enabled env" "\<forall>(n, q)\<in>set (available m). n < a"
    using host_reuse [OF inv assms(3) that] t(1) by auto
  ultimately show ?thesis using t(1,3) u(1,3) r by blast
qed

theorem host_free_once_witness:
  "\<exists>m t p a. host_malloc demo_host_lib 64 host_memory_new = Inr (True, p, m) \<and> host_free demo_host_lib p m = Inr t \<and>
     (p, a) \<in> host_live m \<and> host_live t = host_live m - {(p, a)} \<and> host_free demo_host_lib p t = Inl Assert_failed"
proof -
  obtain m where m: "host_malloc demo_host_lib 64 host_memory_new = Inr (True, 1, m)" "(1, 64) \<in> host_live m"
    by (rule demo_host_malloc)
  have "host_reach demo_host_lib m"
    by (rule host_reach.step [OF host_reach.new host_step.malloc [OF _ m(1)]]) simp
  then show ?thesis using host_free_once [OF demo_host_lib_ok _ m(2)] m by blast
qed

section \<open>The cache of recipes\<close>

text \<open>
  C18: For every sequence of requests the cache of recipes answers as the cache of the 9000 most
  recently used recipes does: a request for a cached key returns its recipe without compiling, one
  for another key compiles, and only the recipe used longest ago is dropped. No request fails, and
  the count never exceeds 9000.
\<close>

theorem recipe_cache_lru:
  "\<exists>c. recipe_run qs (recipe_cache_new 0) = Inr (fst (lru_run MAX_CACHE_SIZE qs []), c) \<and>
    recipe_entries c = snd (lru_run MAX_CACHE_SIZE qs []) \<and>
    (\<exists>d. getCount c = Inr (length (recipe_entries c), d)) \<and> length (recipe_entries c) \<le> MAX_CACHE_SIZE"
proof -
  have "recipe_entries (recipe_cache_new 0) = []" by (simp add: recipe_entries_def recipe_cache_new_def)
  with recipe_run_step [OF recipe_inv_new, of qs] obtain c where
    c: "recipe_run qs (recipe_cache_new 0) = Inr (fst (lru_run MAX_CACHE_SIZE qs []), c)" "recipe_inv c"
      "recipe_entries c = snd (lru_run MAX_CACHE_SIZE qs [])" by auto
  have "\<exists>d. getCount c = Inr (length (recipe_entries c), d)"
    using c(2) recipe_cache_length [OF c(2)] by (simp add: getCount_def with_lock_def recipe_inv_def recipe_entries_def)
  then show ?thesis using c recipes.entries_ok [OF c(2)] by blast
qed

text \<open>
  C29: With the hit count enabled, \<open>increaseHitCount\<close> and \<open>get_recipe\<close> of a cached key never return:
  they hold the mutex when \<open>increaseHitCount_\<close> calls \<open>getHitCount\<close>, which locks it again. The first
  recipe that is compiled already ends in this.
\<close>

theorem hit_count_deadlock:
  assumes "enable_hit_count c" and "\<not> rh_locked c"
  shows "increaseHitCount k c = Inl Would_block \<and>
    (map_of (cache_map c) k \<noteq> None \<longrightarrow> get_recipe k c = Inl Would_block \<and> get_recipe_or_create k x c = Inl Would_block) \<and>
    get_recipe_or_create k (Some r) (recipe_cache_new 1) = Inl Would_block"
proof -
  have b: "increaseHitCount_nolock k d = Inl Would_block" if "enable_hit_count d" "rh_locked d" for d
    using that by (rule hit_count_blocks)
  have "increaseHitCount k c = Inl Would_block" using assms b by (simp add: increaseHitCount_def with_lock_def)
  moreover have "get_recipe k c = Inl Would_block" if "map_of (cache_map c) k \<noteq> None"
    using that assms b by (auto simp: get_recipe_def with_lock_def use_key_def)
  moreover have "get_recipe_or_create k (Some r) (recipe_cache_new 1) = Inl Would_block"
    using b by (simp add: get_recipe_or_create_def with_lock_def recipe_cache_new_def rh_insert_def nl_Added_def
        IsEvictNeeded_def add64_def u64_lim_def MAX_CACHE_SIZE_def)
  ultimately show ?thesis using get_or_create_cached by fastforce
qed

theorem hit_count_deadlock_witness:
  "increaseHitCount 7 (recipe_cache_new 100) = Inl Would_block"
  using hit_count_deadlock [of "recipe_cache_new 100" 7 None 0] by (simp add: recipe_cache_new_def)
end
